(* ===== verification/Prelude.thy ===== *)
theory Prelude
  imports Main "HOL-Library.Word"
begin

text \<open>
  Shared material of the development: the machine types of the i386 target, the values an
  operation of the kernel can end with, and the lemmas on words, lists and sums that the
  components use.

  \<^item> \<open>addr\<close>, \<open>u8\<close>, \<open>u16\<close>, \<open>u32\<close>: the fixed-width types of \<open>src/lib/stdint.h\<close>; a pointer is
    a 32-bit word, \<open>NULL\<close> is 0.
  \<^item> \<open>kerror\<close>: the ways in which kernel code fails to return.
  \<^item> \<open>ASSERT\<close>: the macro of \<open>src/kernel/debug.h\<close>.
\<close>

unbundle bit_operations_syntax


section \<open>Machine types\<close>

type_synonym u8 = "8 word"
type_synonym u16 = "16 word"
type_synonym u32 = "32 word"
type_synonym u64 = "64 word"
type_synonym addr = "32 word"

text \<open>Byte-addressed virtual memory, as C code sees it.\<close>

type_synonym mem = "addr \<Rightarrow> u8"

abbreviation (input) NULL :: addr where "NULL \<equiv> 0"

abbreviation (input) PG_SIZE :: u32 where "PG_SIZE \<equiv> 4096"
abbreviation (input) PAGE1 :: u32 where "PAGE1 \<equiv> PG_SIZE"

section \<open>Results of kernel code\<close>

text \<open>
  \<open>Panic fn cond\<close>: \<open>panic_spin\<close> was entered from the function \<open>fn\<close> with the condition text
  \<open>cond\<close>; it never returns.  \<open>Fault va\<close>: a memory access at the virtual address \<open>va\<close> through
  the page tables met a non-present entry.  \<open>Diverge\<close>: a loop of the code never ends.
  \<open>OutOfBounds i\<close>: an array access with index \<open>i\<close> outside the array (undefined in C).  \<open>Trap v\<close>: the
  processor refused an instruction with exception \<open>v\<close>, for which the kernel has no handler that returns.
\<close>

datatype kerror =
    Panic string string
  | Fault addr
  | Diverge
  | OutOfBounds nat
  | Trap nat

type_synonym 'a res = "kerror + 'a"

definition ASSERT :: "bool \<Rightarrow> string \<Rightarrow> string \<Rightarrow> 'a res \<Rightarrow> 'a res" where
  "ASSERT c fn txt k = (if c then k else Inl (Panic fn txt))"

lemma ASSERT_True [simp]: "ASSERT True fn txt k = k"
  by (simp add: ASSERT_def)

lemma ASSERT_False [simp]: "ASSERT False fn txt k = Inl (Panic fn txt)"
  by (simp add: ASSERT_def)

lemma ASSERT_Inr [simp]: "ASSERT c fn txt k = Inr x \<longleftrightarrow> c \<and> k = Inr x"
  by (simp add: ASSERT_def)

text \<open>Sequencing: the first error ends the operation.\<close>

fun bindE :: "'e + 'a \<Rightarrow> ('a \<Rightarrow> 'e + 'b) \<Rightarrow> 'e + 'b" where
  "bindE (Inl e) f = Inl e"
| "bindE (Inr x) f = f x"

lemma bindE_Inr [simp]: "bindE m f = Inr y \<longleftrightarrow> (\<exists>x. m = Inr x \<and> f x = Inr y)"
  by (cases m) auto

lemma bindE_Inl: "bindE m f = Inl e \<longleftrightarrow> m = Inl e \<or> (\<exists>x. m = Inr x \<and> f x = Inl e)"
  by (cases m) auto

text \<open>A loop modelled with \<open>option\<close> that does not end is the error \<open>Diverge\<close>.\<close>

definition of_loop :: "'a option \<Rightarrow> 'a res" where
  "of_loop x = (case x of None \<Rightarrow> Inl Diverge | Some y \<Rightarrow> Inr y)"

lemma of_loop_simps [simp]: "of_loop None = Inl Diverge" "of_loop (Some y) = Inr y"
  by (simp_all add: of_loop_def)

section \<open>Words\<close>

lemma unat_dec: "x \<noteq> 0 \<Longrightarrow> unat (x - 1) = unat x - 1" for x :: "'a::len word"
  by (rule unat_minus_one)

lemma unat_dec_less [simp]: "x \<noteq> 0 \<Longrightarrow> unat (x - 1) < unat x" for x :: "'a::len word"
  by (simp add: unat_dec unat_gt_0)

lemma unat_inc_less: "x < y \<Longrightarrow> unat (x + 1) = Suc (unat x)" for x y :: "'a::len word"
proof -
  assume "x < y"
  then have "unat x + 1 < 2 ^ LENGTH('a)"
    using unsigned_less [of y, where 'a = nat]
    by (metis Suc_eq_plus1 Suc_lessI not_less_eq order_less_trans word_less_nat_alt)
  then show ?thesis
    by (simp add: unat_word_ariths)
qed

lemma word_less_dec: "n \<noteq> 0 \<Longrightarrow> x < n \<longleftrightarrow> x = 0 \<or> x - 1 < n - 1" for x n :: "'a::len word"
proof (cases "x = 0")
  case False
  assume "n \<noteq> 0"
  moreover from this False have "unat x > 0" "unat n > 0" by (simp_all add: unat_gt_0)
  ultimately show ?thesis
    using False by (auto simp: word_less_nat_alt unat_dec)
qed (simp add: word_gt_0)

lemma word_dec_inc_less: "j < n - 1 \<Longrightarrow> n \<noteq> 0 \<Longrightarrow> j + 1 < n" for j n :: "'a::len word"
  by (subst word_less_dec) simp_all

lemma word_inc_mono: "i < j \<Longrightarrow> j < n \<Longrightarrow> i + 1 < j + 1" for i j n :: "'a::len word"
  by (simp add: word_less_nat_alt [of "i + 1"] word_less_nat_alt [of i] unat_inc_less [of i j] unat_inc_less [of j n])

lemma unat_of_nat_less: "n < 2 ^ LENGTH('a) \<Longrightarrow> unat (of_nat n :: 'a::len word) = n"
  by (simp add: unat_of_nat)

text \<open>Induction along a loop that counts a word down to 0.\<close>

lemma word_countdown_induct [case_names zero step]:
  fixes x :: "'a::len word"
  assumes "P 0" and "\<And>x. x \<noteq> 0 \<Longrightarrow> P (x - 1) \<Longrightarrow> P x"
  shows "P x"
  using assms by (induction x rule: measure_induct_rule [of unat]) (metis unat_dec_less)

lemma sless_antisym: "\<not> x <s y \<Longrightarrow> \<not> y <s x \<Longrightarrow> x = y" for x y :: "'a::len word"
  by (metis linorder_neqE_linordered_idom signed_word_eqI word_sless_alt)

subsection \<open>Signed and unsigned bytes as \<open>int\<close>\<close>

lemma sint_u8_bounds: "- 128 \<le> sint (c :: u8)" "sint (c :: u8) < 128"
  using sint_ge [of c] sint_lt [of c] by simp_all

lemma uint_u8_bounds: "0 \<le> uint (c :: u8)" "uint (c :: u8) < 256"
  using uint_lt2p [of c] by simp_all

lemma nonneg_ge_neg_numeral: "0 \<le> x \<Longrightarrow> - numeral k \<le> x" for x :: int
  by (rule order_trans [of _ 0]) simp_all

lemma sint_scast_u32: "sint (scast (c :: u8) :: u32) = sint c"
  using sint_u8_bounds [of c] by (simp add: signed_scast_eq signed_take_bit_int_eq_self)

lemma sint_ucast_u32: "sint (ucast (c :: u8) :: u32) = uint c"
  using uint_u8_bounds [of c]
  by (simp add: sint_uint uint_up_ucast is_up signed_take_bit_int_eq_self nonneg_ge_neg_numeral)

lemma scast_eq_ucast_u32: "(scast (c :: u8) :: u32) = ucast (ch :: u8) \<longleftrightarrow> sint c = uint ch"
proof
  assume "(scast c :: u32) = ucast ch"
  then have "sint (scast c :: u32) = sint (ucast ch :: u32)" by simp
  then show "sint c = uint ch" by (simp only: sint_scast_u32 sint_ucast_u32)
next
  assume "sint c = uint ch"
  then have "sint (scast c :: u32) = sint (ucast ch :: u32)"
    by (simp only: sint_scast_u32 sint_ucast_u32)
  then show "(scast c :: u32) = ucast ch" by (rule signed_word_eqI)
qed

lemma sint_eq_uint_u8: "ch < 128 \<Longrightarrow> sint ch = uint ch" for ch :: u8
  by (simp add: sint_uint signed_take_bit_int_eq_self word_less_def nonneg_ge_neg_numeral)

lemma unat_minus_1_u32 [simp]: "unat (-1 :: u32) = 4294967295"
  by (simp add: unsigned_minus_1_eq_mask mask_eq_exp_minus_1)

end
