(* ===== verification/Print.thy ===== *)
theory Print
  imports Prelude
begin

text \<open>
  \<open>src/lib/kernel/print.S\<close>: the text-mode screen.  The state is the video memory (two bytes a
  cell, addressed by the 16-bit offsets the code uses in the segment \<open>gs\<close>) and the cursor
  position that the CRT controller holds.  The port accesses that read and write the cursor
  are reads and writes of the field \<open>cursor\<close>.

  The lemmas show that the cursor stays on the screen, what a printable character changes, and
  that \<open>put_int\<close> prints the hexadecimal digits of its argument with no leading zero.
\<close>

section \<open>Model\<close>

record screen =
  vram :: "u16 \<Rightarrow> u8"
  cursor :: u16

text \<open>\<open>.roll_screen\<close>: rows 1 to 24 move up one row, the last row is cleared, the cursor goes to its start.\<close>

definition roll_screen :: "screen \<Rightarrow> screen" where
  "roll_screen s = s\<lparr>vram := (\<lambda>i. if i < 3840 then vram s (i + 160)
                            else if i < 4000 then (if even (unat i) then 0x20 else 0x07)
                            else vram s i),
                    cursor := 1920\<rparr>"

text \<open>\<open>cmp bx, 2000; jl\<close> compares signed.\<close>

definition next_line :: "u16 \<Rightarrow> screen \<Rightarrow> screen" where
  "next_line bx s =
     (let bx' = bx - bx mod 80 + 80
      in if bx' <s 2000 then s\<lparr>cursor := bx'\<rparr> else roll_screen s)"

definition put_cell :: "u16 \<Rightarrow> u8 \<Rightarrow> screen \<Rightarrow> screen" where
  "put_cell pos c s = s\<lparr>vram := (vram s)(push_bit 1 pos := c, push_bit 1 pos + 1 := 0x07)\<rparr>"

definition put_char :: "u8 \<Rightarrow> screen \<Rightarrow> screen" where
  "put_char c s =
     (let bx = cursor s in
      if c = 0x0d \<or> c = 0x0a then next_line bx s
      else if c = 0x08 then
        let bx' = bx - 1 in (put_cell bx' 0x20 s)\<lparr>cursor := drop_bit 1 (push_bit 1 bx' + 1)\<rparr>
      else
        let bx' = drop_bit 1 (push_bit 1 bx + 1) + 1; s' = put_cell bx c s
        in if bx' <s 2000 then s'\<lparr>cursor := bx'\<rparr> else next_line bx' s')"

text \<open>The segment \<open>gs\<close> of the loader (\<open>VIDEO_DESC\<close>) ends at offset 0x7fff.  \<open>put_char_faults\<close> says when the attribute byte of the cell that
  \<open>put_char\<close> writes lies behind that: then the processor raises exception 13 at the store, and the value of \<open>put_char\<close> is not what
  happens.  On a screen of 2000 cells this is a backspace at the home position (below).\<close>

abbreviation (input) video_limit :: u16 where "video_limit \<equiv> 0x7fff"

definition put_char_faults :: "u8 \<Rightarrow> screen \<Rightarrow> bool" where
  "put_char_faults c s \<longleftrightarrow>
     \<not> (c = 0x0d \<or> c = 0x0a) \<and> video_limit < push_bit 1 (if c = 0x08 then cursor s - 1 else cursor s) + 1"

text \<open>\<open>put_str\<close>, on the bytes before the terminating NUL.\<close>

fun put_bytes_scr :: "u8 list \<Rightarrow> screen \<Rightarrow> screen" where
  "put_bytes_scr [] s = s"
| "put_bytes_scr (c # cs) s = put_bytes_scr cs (put_char c s)"

definition put_str :: "string \<Rightarrow> screen \<Rightarrow> screen" where
  "put_str str s = put_bytes_scr (map of_char str) s"

text \<open>\<open>put_int\<close>: eight hexadecimal digits into \<open>put_int_buffer\<close>, low digit last; then skip the
  leading zeros, keeping one digit.\<close>

definition hex_digit :: "u32 \<Rightarrow> u8" where
  "hex_digit edx = (if edx \<le> 9 then ucast edx + 0x30 else ucast edx + (0x41 - 10))"

fun int_buffer :: "nat \<Rightarrow> u32 \<Rightarrow> u8 list \<Rightarrow> u8 list" where
  "int_buffer 0 eax buf = buf"
| "int_buffer (Suc ecx) eax buf = int_buffer ecx (drop_bit 4 eax) (hex_digit (eax AND 0xf) # buf)"

definition skip_prefix_0 :: "u8 list \<Rightarrow> u8 list" where
  "skip_prefix_0 buf = (case dropWhile (\<lambda>c. c = 0x30) buf of [] \<Rightarrow> [0x30] | cs \<Rightarrow> cs)"

definition put_int_chars :: "u32 \<Rightarrow> u8 list" where
  "put_int_chars num = skip_prefix_0 (int_buffer 8 num [])"

definition put_int :: "u32 \<Rightarrow> screen \<Rightarrow> screen" where
  "put_int num s = put_bytes_scr (put_int_chars num) s"

definition set_cursor :: "u32 \<Rightarrow> screen \<Rightarrow> screen" where
  "set_cursor pos s = s\<lparr>cursor := ucast pos\<rparr>"

section \<open>The cursor\<close>

definition cursor_ok :: "screen \<Rightarrow> bool" where
  "cursor_ok s \<longleftrightarrow> cursor s < 2000"

lemma sless_2000: "unat x < 2 ^ 15 \<Longrightarrow> x <s 2000 \<longleftrightarrow> unat x < 2000" for x :: u16
proof -
  assume "unat x < 2 ^ 15"
  then have "int (unat x) < 2 ^ 15" by (metis of_nat_less_iff of_nat_numeral of_nat_power)
  then have "uint x < 2 ^ 15" by (simp only: uint_nat)
  then have "sint x = uint x"
    by (simp add: sint_uint signed_take_bit_int_eq_self nonneg_ge_neg_numeral)
  moreover have "sint (2000 :: u16) = 2000" by simp
  ultimately have "x <s 2000 \<longleftrightarrow> uint x < 2000" by (simp only: word_sless_alt)
  then show ?thesis
    by (simp only: uint_nat) linarith
qed

lemma half_odd: "unat x < 2 ^ 15 \<Longrightarrow> drop_bit 1 (push_bit 1 x + 1) = x" for x :: u16
proof -
  assume "unat x < 2 ^ 15"
  then have "unat (push_bit 1 x + 1) = 2 * unat x + 1"
    by (simp add: unat_word_ariths push_bit_eq_mult)
  then have "unat (drop_bit 1 (push_bit 1 x + 1)) = unat x"
    unfolding unat_drop_bit_eq by (simp add: drop_bit_eq_div)
  then show ?thesis by (simp add: word_unat_eq_iff)
qed

lemma cursor_ok_nat: "cursor_ok s \<longleftrightarrow> unat (cursor s) < 2000"
  by (simp add: cursor_ok_def word_less_nat_alt)

lemma unat_next_line:
  "unat bx \<le> 2000 \<Longrightarrow> unat (bx - bx mod 80 + 80) = unat bx - unat bx mod 80 + 80" for bx :: u16
proof -
  assume bx: "unat bx \<le> 2000"
  have "unat (bx - bx mod 80) = unat bx - unat bx mod 80"
    by (subst unat_sub) (simp_all add: word_le_nat_alt unat_mod)
  with bx show ?thesis by (simp add: unat_word_ariths)
qed

lemma next_line_cursor_ok: "unat bx \<le> 2000 \<Longrightarrow> cursor_ok (next_line bx s)"
  by (auto simp: next_line_def cursor_ok_nat roll_screen_def Let_def unat_next_line sless_2000)

lemma put_cell_cursor [simp]: "cursor (put_cell pos c s) = cursor s"
  by (simp add: put_cell_def)

lemma put_char_cursor_ok:
  assumes "cursor_ok s" and "c = 0x08 \<Longrightarrow> cursor s \<noteq> 0"
  shows "cursor_ok (put_char c s)"
proof -
  from assms(1) have bx: "unat (cursor s) < 2000" by (simp add: cursor_ok_nat)
  then have inc: "unat (cursor s + 1) = Suc (unat (cursor s))" by (simp add: unat_word_ariths)
  have dec: "unat (cursor s - 1) = unat (cursor s) - 1" if "c = 0x08"
    using assms(2) that by (simp add: unat_dec)
  have half: "drop_bit 1 (push_bit 1 (cursor s) + 1) = cursor s"
      "c = 0x08 \<Longrightarrow> drop_bit 1 (push_bit 1 (cursor s - 1) + 1) = cursor s - 1"
    using bx dec by (rule_tac [!] half_odd) simp_all
  show ?thesis
  proof (cases "c = 0x08")
    case True
    with bx dec half(2) show ?thesis by (simp only: put_char_def Let_def) (simp add: cursor_ok_nat)
  next
    case False
    with bx inc show ?thesis
      unfolding put_char_def Let_def half(1)
      by (auto simp: sless_2000 next_line_cursor_ok cursor_ok_nat [of "_\<lparr>cursor := _\<rparr>"])
  qed
qed

lemma put_char_faults_iff:
  assumes "cursor_ok s"
  shows "put_char_faults c s \<longleftrightarrow> c = 0x08 \<and> cursor s = 0"
proof -
  have off: "unat (push_bit 1 x + 1) = 2 * unat x + 1" if "unat x < 2000" for x :: u16
    using that by (simp add: unat_word_ariths push_bit_eq_mult)
  have bx: "unat (cursor s) < 2000" using assms by (simp add: cursor_ok_nat)
  have dec: "unat (cursor s - 1) < 2000" if "cursor s \<noteq> 0" using bx that by (simp add: unat_dec)
  show ?thesis
  proof (cases "c = 0x08 \<and> cursor s = 0")
    case False
    then have "unat (if c = 0x08 then cursor s - 1 else cursor s) < 2000" using bx dec by auto
    from off [OF this] this False show ?thesis by (simp add: put_char_faults_def word_less_nat_alt)
  next
    case True
    have "unat (-1 :: u16) = 0xffff" by (simp add: unsigned_minus_1_eq_mask mask_eq_exp_minus_1)
    with True show ?thesis by (simp add: put_char_faults_def push_bit_eq_mult word_less_nat_alt)
  qed
qed

lemma next_line_vram: "4000 \<le> i \<Longrightarrow> vram (next_line bx s) i = vram s i"
proof -
  assume "4000 \<le> i"
  then have "\<not> i < 4000" "\<not> i < 3840" by (simp_all add: word_le_nat_alt word_less_nat_alt)
  then show ?thesis by (simp add: next_line_def roll_screen_def Let_def)
qed

lemma put_cell_vram: "unat pos < 2000 \<Longrightarrow> 4000 \<le> i \<Longrightarrow> vram (put_cell pos c s) i = vram s i"
proof -
  assume pos: "unat pos < 2000" and i: "4000 \<le> i"
  have "unat (push_bit 1 pos) = 2 * unat pos" "unat (push_bit 1 pos + 1) = 2 * unat pos + 1"
    using pos by (simp_all add: unat_word_ariths push_bit_eq_mult)
  then have "i \<noteq> push_bit 1 pos" "i \<noteq> push_bit 1 pos + 1" using pos i by (auto simp: word_le_nat_alt)
  then show ?thesis by (simp add: put_cell_def)
qed

lemma put_char_vram:
  assumes "cursor_ok s" and "\<not> (c = 0x08 \<and> cursor s = 0)" and "4000 \<le> i"
  shows "vram (put_char c s) i = vram s i"
proof -
  have bx: "unat (cursor s) < 2000" using assms(1) by (simp add: cursor_ok_nat)
  have dec: "unat (cursor s - 1) < 2000" if "c = 0x08" using bx that assms(2) by (simp add: unat_dec)
  show ?thesis
    using put_cell_vram [OF bx assms(3)] put_cell_vram [OF dec assms(3)] next_line_vram [OF assms(3)]
    by (simp add: put_char_def Let_def)
qed

lemma put_bytes_cursor_ok: "cursor_ok s \<Longrightarrow> 0x08 \<notin> set cs \<Longrightarrow> cursor_ok (put_bytes_scr cs s)"
  by (induction cs arbitrary: s) (auto intro!: put_char_cursor_ok)

section \<open>Hexadecimal output\<close>

definition hex_value :: "u8 \<Rightarrow> nat" where
  "hex_value c = (if unat c < 0x3a then unat c - 0x30 else unat c - 0x37)"

definition hex_list_value :: "u8 list \<Rightarrow> nat" where
  "hex_list_value cs = foldl (\<lambda>v c. 16 * v + hex_value c) 0 cs"

lemma hex_foldl: "foldl (\<lambda>v c. 16 * v + hex_value c) v cs = v * 16 ^ length cs + hex_list_value cs"
proof (induction cs arbitrary: v)
  case (Cons c cs)
  have "foldl (\<lambda>v c. 16 * v + hex_value c) 0 (c # cs) = hex_value c * 16 ^ length cs + hex_list_value cs"
    using Cons [of "hex_value c"] by simp
  with Cons [of "16 * v + hex_value c"] show ?case
    by (simp add: hex_list_value_def algebra_simps)
qed (simp add: hex_list_value_def)

lemma hex_list_value_Cons: "hex_list_value (c # cs) = hex_value c * 16 ^ length cs + hex_list_value cs"
  using hex_foldl [of "hex_value c" cs] by (simp add: hex_list_value_def)

lemma unat_nibble: "unat (n AND 0xf :: u32) = unat n mod 16"
proof -
  have "n AND 0xf = take_bit 4 n" by (simp add: take_bit_eq_mask mask_eq_exp_minus_1)
  then show ?thesis by (simp add: take_bit_eq_mod unat_mod)
qed

lemma unat_hex_digit: "unat x < 16 \<Longrightarrow> unat (hex_digit x) = (if unat x \<le> 9 then unat x + 0x30 else unat x + 0x37)"
  by (simp add: hex_digit_def word_le_nat_alt unat_word_ariths unsigned_ucast_eq take_bit_eq_mod)

lemma hex_value_digit: "unat x < 16 \<Longrightarrow> hex_value (hex_digit x) = unat x"
  by (simp add: hex_value_def unat_hex_digit)

lemma int_buffer_value:
  "hex_list_value (int_buffer k n buf) = (unat n mod 16 ^ k) * 16 ^ length buf + hex_list_value buf"
proof (induction k arbitrary: n buf)
  case (Suc k)
  have "unat n mod 16 ^ Suc k = 16 * (unat n div 16 mod 16 ^ k) + unat n mod 16"
    by (simp add: mod_mult2_eq)
  moreover have "unat (drop_bit 4 n) = unat n div 16"
    unfolding unat_drop_bit_eq by (simp add: drop_bit_eq_div)
  ultimately show ?case
    by (simp add: Suc hex_list_value_Cons hex_value_digit unat_nibble algebra_simps)
qed simp

lemma hex_list_value_skip: "hex_list_value (skip_prefix_0 buf) = hex_list_value buf"
proof -
  have "hex_list_value (dropWhile (\<lambda>c. c = 0x30) buf) = hex_list_value buf"
    by (induction buf) (simp_all add: hex_list_value_Cons hex_value_def)
  moreover have "hex_list_value [0x30] = hex_list_value []"
    by (simp add: hex_list_value_def hex_value_def)
  ultimately show ?thesis
    by (cases "dropWhile (\<lambda>c. c = 0x30) buf") (simp_all add: skip_prefix_0_def del: dropWhile_eq_Nil_conv)
qed

lemma put_int_chars_value: "hex_list_value (put_int_chars n) = unat n"
proof -
  have "unat n < 16 ^ 8" using unsigned_less [of n, where 'a = nat] by simp
  then show ?thesis
    by (simp add: put_int_chars_def hex_list_value_skip int_buffer_value) (simp add: hex_list_value_def)
qed

lemma int_buffer_length: "length (int_buffer k n buf) = k + length buf"
  by (induction k arbitrary: n buf) auto

lemma skip_prefix_0_head: "hd (skip_prefix_0 buf) = 0x30 \<Longrightarrow> length (skip_prefix_0 buf) = 1"
  using hd_dropWhile [of "\<lambda>c. c = 0x30" buf]
  by (cases "dropWhile (\<lambda>c. c = 0x30) buf") (auto simp: skip_prefix_0_def simp del: dropWhile_eq_Nil_conv)

section \<open>Properties\<close>

text \<open>C38. \<open>put_int\<close> prints a number as a hexadecimal numeral: read back, the characters give the
  number; there are at most 8 of them, and the first is 0 only for the numeral \<open>0\<close>.\<close>

theorem put_int_roundtrip:
  "hex_list_value (put_int_chars n) = unat n \<and> length (put_int_chars n) \<in> {1..8} \<and>
   (hd (put_int_chars n) = 0x30 \<longrightarrow> put_int_chars n = [0x30]) \<and> put_int n s = put_bytes_scr (put_int_chars n) s"
proof -
  let ?buf = "int_buffer 8 n []"
  have len: "length (put_int_chars n) \<in> {1..8}"
    using length_dropWhile_le [of "\<lambda>c. c = 0x30" ?buf]
    by (cases "dropWhile (\<lambda>c. c = 0x30) ?buf")
      (auto simp: put_int_chars_def skip_prefix_0_def int_buffer_length simp del: dropWhile_eq_Nil_conv)
  have "put_int_chars n = [0x30]" if "hd (put_int_chars n) = 0x30"
    using skip_prefix_0_head [of ?buf] that by (cases "put_int_chars n") (auto simp: put_int_chars_def)
  with len show ?thesis by (simp only: put_int_chars_value put_int_def) blast
qed

theorem put_int_roundtrip_witness:
  "hex_list_value (put_int_chars 0xc009e000) = 0xc009e000 \<and> put_int_chars 0 = [0x30]"
proof -
  have "hd (put_int_chars 0) = 0x30"
    by (simp add: put_int_chars_def skip_prefix_0_def numeral_eq_Suc hex_digit_def)
  with put_int_roundtrip [of 0] put_int_roundtrip [of "0xc009e000"] show ?thesis by simp
qed

text \<open>C39. With the cursor on the screen of 80 by 25 cells, \<open>put_char\<close> leaves the video segment, which makes the processor raise an exception,
  for a backspace at the home position and in no other case.  In every other case it keeps the cursor on the screen and writes only to
  the 4000 bytes of the screen.\<close>

theorem put_char_on_screen:
  assumes "cursor_ok s"
  shows "(put_char_faults c s \<longleftrightarrow> c = 0x08 \<and> cursor s = 0) \<and>
    (\<not> put_char_faults c s \<longrightarrow> cursor_ok (put_char c s) \<and> (\<forall>i \<ge> 4000. vram (put_char c s) i = vram s i))"
proof -
  have "cursor_ok (put_char c s) \<and> (\<forall>i \<ge> 4000. vram (put_char c s) i = vram s i)" if "\<not> (c = 0x08 \<and> cursor s = 0)"
    using put_char_cursor_ok [OF assms] put_char_vram [OF assms] that by blast
  then show ?thesis using put_char_faults_iff [OF assms] by blast
qed

theorem put_char_on_screen_witness:
  "cursor_ok (put_char 0x41 \<lparr>vram = \<lambda>_. 0, cursor = 1999\<rparr>) \<and> put_char_faults 0x08 \<lparr>vram = \<lambda>_. 0, cursor = 0\<rparr>"
  using put_char_on_screen [of "\<lparr>vram = \<lambda>_. 0, cursor = 1999\<rparr>" "0x41"] put_char_on_screen [of "\<lparr>vram = \<lambda>_. 0, cursor = 0\<rparr>" "0x08"]
  by (simp add: cursor_ok_def)

text \<open>Were it not for the end of the segment, a backspace at the home position would store a blank at offset \<open>0xfffe\<close>, outside the
  4000 bytes of the screen, and leave the cursor at \<open>0x7fff\<close>.\<close>

theorem put_char_backspace_home:
  "put_char 0x08 \<lparr>vram = v, cursor = 0\<rparr> = \<lparr>vram = v(0xfffe := 0x20, 0xffff := 0x07), cursor = 0x7fff\<rparr>"
proof -
  have e: "(-2 :: u16) = 0xfffe" "(-1 :: u16) = 0xffff" "mask 15 = (0x7fff :: u16)"
    by (simp_all add: mask_eq_exp_minus_1)
  show ?thesis
    by (simp add: put_char_def Let_def put_cell_def push_bit_eq_mult) (simp only: e simp_thms)
qed

end
