(* ===== verification/Interrupt.thy ===== *)
theory Interrupt
  imports Print
begin

text \<open>
  \<open>src/kernel/interrupt.c\<close>, \<open>src/kernel/debug.c\<close>, \<open>src/lib/kernel/io.h\<close> and the descriptor
  constants of \<open>src/kernel/global.h\<close>.  The record \<open>machine\<close> is the part of the state every
  component shares: the flags register, the writes to I/O ports so far (oldest first), the
  screen, and the interrupt tables of \<open>interrupt.c\<close>.  Later components extend it with their own
  fields; operations here are polymorphic in the extension.
\<close>

section \<open>Machine state, ports and output\<close>

datatype intr_status = INTR_OFF | INTR_ON

text \<open>The functions whose addresses \<open>idt_table\<close> holds.\<close>

datatype intr_handler = General_intr_handler | Intr_timer_handler | Intr_keyboard_handler

record gate_desc =
  func_offset_low_word :: u16
  selector :: u16
  dcount :: u8
  attribute :: u8
  func_offset_high_word :: u16

text \<open>
  \<open>intr_entry_table\<close> is the table at that label of \<open>src/kernel/kernel.S\<close>, of 0x30 entries; \<open>after_entries\<close> are the words of
  memory behind it, whatever the linker put there.  \<open>idtr\<close> is what \<open>lidt\<close> loaded.
\<close>

record machine =
  eflags :: u32
  outp :: "(u16 \<times> u8) list"
  scr :: screen
  idt :: "gate_desc list"
  intr_name :: "string list"
  idt_table :: "intr_handler list"
  intr_entry_table :: "u32 list"
  after_entries :: "nat \<Rightarrow> u32"
  idtr :: u64

definition outb :: "u16 \<Rightarrow> u8 \<Rightarrow> 'a machine_scheme \<Rightarrow> 'a machine_scheme" where
  "outb port v s = s\<lparr>outp := outp s @ [(port, v)]\<rparr>"

definition kput_str :: "string \<Rightarrow> 'a machine_scheme \<Rightarrow> 'a machine_scheme" where
  "kput_str str s = s\<lparr>scr := put_str str (scr s)\<rparr>"

definition kput_char :: "u8 \<Rightarrow> 'a machine_scheme \<Rightarrow> 'a machine_scheme" where
  "kput_char c s = s\<lparr>scr := put_char c (scr s)\<rparr>"

definition kput_int :: "u32 \<Rightarrow> 'a machine_scheme \<Rightarrow> 'a machine_scheme" where
  "kput_int n s = s\<lparr>scr := put_int n (scr s)\<rparr>"

definition kset_cursor :: "u32 \<Rightarrow> 'a machine_scheme \<Rightarrow> 'a machine_scheme" where
  "kset_cursor pos s = s\<lparr>scr := set_cursor pos (scr s)\<rparr>"

section \<open>The interrupt flag\<close>

abbreviation (input) EFLAGS_IF :: u32 where "EFLAGS_IF \<equiv> 0x200"

definition intr_get_status :: "'a machine_scheme \<Rightarrow> intr_status" where
  "intr_get_status s = (if EFLAGS_IF AND eflags s \<noteq> 0 then INTR_ON else INTR_OFF)"

definition intr_enable :: "'a machine_scheme \<Rightarrow> intr_status \<times> 'a machine_scheme" where
  "intr_enable s =
     (if INTR_ON = intr_get_status s then (INTR_ON, s)
      else (INTR_OFF, s\<lparr>eflags := eflags s OR EFLAGS_IF\<rparr>))"

definition intr_disable :: "'a machine_scheme \<Rightarrow> intr_status \<times> 'a machine_scheme" where
  "intr_disable s =
     (if INTR_ON = intr_get_status s then (INTR_ON, s\<lparr>eflags := eflags s AND NOT EFLAGS_IF\<rparr>)
      else (INTR_OFF, s))"

definition intr_set_status :: "intr_status \<Rightarrow> 'a machine_scheme \<Rightarrow> intr_status \<times> 'a machine_scheme" where
  "intr_set_status status s = (if status = INTR_ON then intr_enable s else intr_disable s)"

text \<open>The state parts, where the code ignores the returned status.\<close>

abbreviation cli :: "'a machine_scheme \<Rightarrow> 'a machine_scheme" where
  "cli s \<equiv> snd (intr_disable s)"

abbreviation sti :: "'a machine_scheme \<Rightarrow> 'a machine_scheme" where
  "sti s \<equiv> snd (intr_enable s)"

abbreviation restore_intr :: "intr_status \<Rightarrow> 'a machine_scheme \<Rightarrow> 'a machine_scheme" where
  "restore_intr old s \<equiv> snd (intr_set_status old s)"

section \<open>Panic\<close>

text \<open>The state in which \<open>panic_spin\<close> loops for ever.\<close>

definition panic_spin :: "string \<Rightarrow> u32 \<Rightarrow> string \<Rightarrow> string \<Rightarrow> 'a machine_scheme \<Rightarrow> 'a machine_scheme" where
  "panic_spin filename line func condition s =
     (let s = cli s;
          s = kput_str ''\<newline>\<newline>\<newline>!!!!! error !!!!!\<newline>'' s;
          s = kput_str ''\<newline>'' (kput_str filename (kput_str ''filename: '' s));
          s = kput_str ''\<newline>'' (kput_int line (kput_str ''line: 0x'' s));
          s = kput_str ''\<newline>'' (kput_str func (kput_str ''function: '' s))
      in kput_str ''\<newline>'' (kput_str condition (kput_str ''condition: '' s)))"

section \<open>Interrupt descriptor table\<close>

text \<open>Constants of \<open>src/kernel/global.h\<close>: the parts of selectors and of gate attributes.\<close>

abbreviation (input) RPL1_0_0 :: u16 where "RPL1_0_0 \<equiv> 0"
abbreviation (input) RPL1_0_3 :: u16 where "RPL1_0_3 \<equiv> 3"
abbreviation (input) TI_GDT_2 :: u16 where "TI_GDT_2 \<equiv> 0"
abbreviation (input) IDT_DESC_P :: u8 where "IDT_DESC_P \<equiv> 1"
abbreviation (input) IDT_DESC_DPL0 :: u8 where "IDT_DESC_DPL0 \<equiv> 0"
abbreviation (input) IDT_DESC_DPL3 :: u8 where "IDT_DESC_DPL3 \<equiv> 3"
abbreviation (input) IDT_DESC_32_TYPE :: u8 where "IDT_DESC_32_TYPE \<equiv> 0xE"

definition SELECTOR_K_CODE :: u16 where
  "SELECTOR_K_CODE = push_bit 3 1 OR push_bit 2 TI_GDT_2 OR RPL1_0_0"

definition IDT_DESC_ATTR_DPL0 :: u8 where
  "IDT_DESC_ATTR_DPL0 = push_bit 7 IDT_DESC_P OR push_bit 5 IDT_DESC_DPL0 OR IDT_DESC_32_TYPE"

definition IDT_DESC_ATTR_DPL3 :: u8 where
  "IDT_DESC_ATTR_DPL3 = push_bit 7 IDT_DESC_P OR push_bit 5 IDT_DESC_DPL3 OR IDT_DESC_32_TYPE"

abbreviation (input) IDT_DESC_CNT :: nat where "IDT_DESC_CNT \<equiv> 0x81"

definition make_idt_desc :: "u8 \<Rightarrow> u32 \<Rightarrow> gate_desc" where
  "make_idt_desc attr func =
     \<lparr>func_offset_low_word = ucast (func AND 0x0000FFFF), selector = SELECTOR_K_CODE, dcount = 0,
      attribute = attr, func_offset_high_word = ucast (drop_bit 16 func AND 0x0000FFFF)\<rparr>"

text \<open>The word with index \<open>i\<close> from the label \<open>intr_entry_table\<close> on: an index from 0x30 on is outside the table, and reaches the memory
  behind it.  That no variable of another component lies there is an assumption of the model.\<close>

definition entry_word :: "nat \<Rightarrow> 'a machine_scheme \<Rightarrow> u32" where
  "entry_word i s =
     (if i < length (intr_entry_table s) then intr_entry_table s ! i else after_entries s (i - length (intr_entry_table s)))"

definition set_entry_word :: "nat \<Rightarrow> u32 \<Rightarrow> 'a machine_scheme \<Rightarrow> 'a machine_scheme" where
  "set_entry_word i v s =
     (if i < length (intr_entry_table s) then s\<lparr>intr_entry_table := (intr_entry_table s)[i := v]\<rparr>
      else s\<lparr>after_entries := (after_entries s)(i - length (intr_entry_table s) := v)\<rparr>)"

text \<open>\<open>syscall_handler\<close> is the address of the handler in \<open>kernel.S\<close>.\<close>

definition idt_desc_init :: "u32 \<Rightarrow> 'a machine_scheme \<Rightarrow> 'a machine_scheme" where
  "idt_desc_init syscall_handler s =
     (let lastindex = IDT_DESC_CNT - 1;
          s = s\<lparr>idt := map (\<lambda>i. make_idt_desc IDT_DESC_ATTR_DPL0 (entry_word i s)) [0..<IDT_DESC_CNT]\<rparr>;
          s = set_entry_word lastindex syscall_handler s;
          s = s\<lparr>idt := (idt s)[lastindex := make_idt_desc IDT_DESC_ATTR_DPL3 (entry_word lastindex s)]\<rparr>
      in kput_str ''idt_desc_init done\<newline>'' s)"

definition exception_names :: "(nat \<times> string) list" where
  "exception_names =
     [(0, ''#DE Divide Error''), (1, ''#DB Debug Exception''), (2, ''NMI Interrupt''),
      (3, ''#BP Breakpoint Exception''), (4, ''#OF Overflow Exception''),
      (5, ''#BR BOUND Range Exceeded Exception''), (6, ''#UD Invalid Opcode Exception''),
      (7, ''#NM Device Not Avaliable Exception''), (8, ''#DF Double Fault Exception''),
      (9, ''Coprocessor Segment Overrun''), (10, ''#TS Invalid TSS Exception''),
      (11, ''#NP Segment Not Present''), (12, ''#SS Stack Fault Exception''),
      (13, ''#GP General Protection Exception''), (14, ''#PF Page-Fault Exception''),
      (16, ''#MF x87 FPU Floating-Point Error''), (17, ''#AC Alignment Check Exception''),
      (18, ''#MC Machine-Check Exception''), (19, ''#XF SIMD Floating-Point Exception'')]"

definition exception_init :: "'a machine_scheme \<Rightarrow> 'a machine_scheme" where
  "exception_init s =
     s\<lparr>idt_table := replicate IDT_DESC_CNT General_intr_handler,
       intr_name := foldl (\<lambda>names (i, n). names[i := n]) (replicate IDT_DESC_CNT ''unknown'') exception_names\<rparr>"

abbreviation (input) PIC_M_CTRL :: u16 where "PIC_M_CTRL \<equiv> 0x20"
abbreviation (input) PIC_M_DATA :: u16 where "PIC_M_DATA \<equiv> 0x21"
abbreviation (input) PIC_S_CTRL :: u16 where "PIC_S_CTRL \<equiv> 0xa0"
abbreviation (input) PIC_S_DATA :: u16 where "PIC_S_DATA \<equiv> 0xa1"

definition pic_init :: "'a machine_scheme \<Rightarrow> 'a machine_scheme" where
  "pic_init s =
     kput_str ''pic_init done\<newline>''
      (foldl (\<lambda>s (p, v). outb p v s) s
        [(PIC_M_CTRL, 0x11), (PIC_M_DATA, 0x20), (PIC_M_DATA, 0x04), (PIC_M_DATA, 0x01),
         (PIC_S_CTRL, 0x11), (PIC_S_DATA, 0x28), (PIC_S_DATA, 0x02), (PIC_S_DATA, 0x01),
         (PIC_M_DATA, 0xf8), (PIC_S_DATA, 0xbf)])"

text \<open>The shift is done in 32 bits, before the conversion to \<open>uint64_t\<close>.\<close>

definition idt_operand :: "u32 \<Rightarrow> u64" where
  "idt_operand idt_addr = ucast (of_nat (8 * IDT_DESC_CNT) - 1 :: u32) OR ucast (push_bit 16 idt_addr :: u32)"

definition idt_init :: "u32 \<Rightarrow> u32 \<Rightarrow> 'a machine_scheme \<Rightarrow> 'a machine_scheme" where
  "idt_init idt_addr syscall_handler s =
     (let s = kput_str ''idt_init start\<newline>'' s;
          s = pic_init (exception_init (idt_desc_init syscall_handler s));
          s = s\<lparr>idtr := idt_operand idt_addr\<rparr>
      in kput_str ''idt_init done\<newline>'' s)"

definition register_handler :: "u8 \<Rightarrow> intr_handler \<Rightarrow> 'a machine_scheme \<Rightarrow> 'a machine_scheme res" where
  "register_handler vector_no func s =
     (if unat vector_no < IDT_DESC_CNT
      then Inr (s\<lparr>idt_table := (idt_table s)[unat vector_no := func]\<rparr>)
      else Inl (OutOfBounds (unat vector_no)))"

text \<open>What the default handler prints before it loops for ever; \<open>cr2\<close> is the page-fault address.  A vector
  number behind the end of \<open>intr_name\<close> is an access out of bounds.\<close>

definition general_intr_report :: "u8 \<Rightarrow> u32 \<Rightarrow> 'a machine_scheme \<Rightarrow> 'a machine_scheme res" where
  "general_intr_report vec_nr cr2 s =
     (let s = ((kput_char 0x20) ^^ 320) s;
          s = kput_str ''!!!!!! exception message begin !!!!!!\<newline>'' (kset_cursor 0 s);
          s = kset_cursor 88 s
      in if length (intr_name s) \<le> unat vec_nr then Inl (OutOfBounds (unat vec_nr))
         else
           let s = kput_char 0x0a (kput_str (intr_name s ! unat vec_nr) s);
               s = (if vec_nr = 14 then kput_int cr2 (kput_str ''\<newline>page fault addr is '' s) else s);
               s = kput_char 0x0a (kput_int (ucast vec_nr) (kput_str ''int vector: 0x'' s))
           in Inr (kput_str ''!!!!!! exception message end !!!!!!\<newline>'' s))"

definition general_intr_handler :: "u8 \<Rightarrow> u32 \<Rightarrow> 'a machine_scheme \<Rightarrow> 'a machine_scheme res" where
  "general_intr_handler vec_nr cr2 s =
     (if vec_nr = 0x27 \<or> vec_nr = 0x2f then Inr s
      else bindE (general_intr_report vec_nr cr2 s) (\<lambda>_. Inl Diverge))"

section \<open>Output and port writes as record updates\<close>

lemmas kput_defs = kput_str_def kput_char_def kput_int_def kset_cursor_def outb_def

declare kput_defs [simp]

section \<open>Saving and restoring the interrupt flag\<close>

lemma bit_IF: "bit (0x200 :: u32) n \<longleftrightarrow> n = 9"
proof -
  have "(0x200 :: u32) = 2 ^ 9" by simp
  then show ?thesis by (simp only: bit_exp_iff) auto
qed

lemma IF_set_iff: "0x200 AND x \<noteq> 0 \<longleftrightarrow> bit x 9" for x :: u32
proof -
  have "(0x200 :: u32) = 2 ^ 9" by simp
  then show ?thesis by (simp only: and.commute [of _ x] and_exp_eq_0_iff_not_bit) simp
qed

lemmas bit_IF_simps = bit_and_iff bit_or_iff bit_not_iff bit_IF possible_bit_word

text \<open>The effects of the instructions \<open>cli\<close> and \<open>sti\<close> on the flags register.\<close>

definition clear_IF :: "u32 \<Rightarrow> u32" where
  "clear_IF x = x AND NOT 0x200"

definition set_IF :: "u32 \<Rightarrow> u32" where
  "set_IF x = x OR 0x200"

lemma bit_clear_IF: "bit (clear_IF x) n \<longleftrightarrow> bit x n \<and> n \<noteq> 9"
  unfolding clear_IF_def using bit_imp_possible_bit [of x n] by (auto simp only: bit_IF_simps)

lemma bit_set_IF: "bit (set_IF x) n \<longleftrightarrow> bit x n \<or> n = 9"
  unfolding set_IF_def by (simp only: bit_IF_simps)

lemma clear_IF_id [simp]: "\<not> bit x 9 \<Longrightarrow> clear_IF x = x"
  by (rule bit_word_eqI) (auto simp: bit_clear_IF)

lemma set_IF_id [simp]: "bit x 9 \<Longrightarrow> set_IF x = x"
  by (rule bit_word_eqI) (auto simp: bit_set_IF)

lemma clear_IF_idem [simp]: "clear_IF (clear_IF x) = clear_IF x"
  by (simp add: bit_clear_IF)

lemma set_clear_IF [simp]: "set_IF (clear_IF x) = set_IF x"
  by (rule bit_word_eqI) (auto simp: bit_clear_IF bit_set_IF)

lemma intr_get_status_eq: "intr_get_status s = (if bit (eflags s) 9 then INTR_ON else INTR_OFF)"
  by (simp only: intr_get_status_def IF_set_iff)

lemma fst_intr_disable [simp]: "fst (intr_disable s) = intr_get_status s"
  by (cases "intr_get_status s") (simp_all add: intr_disable_def)

lemma cli_eq: "cli s = s\<lparr>eflags := clear_IF (eflags s)\<rparr>"
  unfolding intr_disable_def clear_IF_def [symmetric] by (simp add: intr_get_status_eq)

lemma sti_eq: "sti s = s\<lparr>eflags := set_IF (eflags s)\<rparr>"
  unfolding intr_enable_def set_IF_def [symmetric] by (simp add: intr_get_status_eq)

lemma restore_intr_eq:
  "restore_intr old s = s\<lparr>eflags := (if old = INTR_ON then set_IF (eflags s) else clear_IF (eflags s))\<rparr>"
  by (simp add: intr_set_status_def cli_eq sti_eq)

lemmas intr_eqs = cli_eq sti_eq restore_intr_eq

lemma intr_status_cli [simp]: "intr_get_status (cli s) = INTR_OFF"
  by (simp add: cli_eq intr_get_status_eq bit_clear_IF)

lemma intr_off_iff: "intr_get_status s = INTR_OFF \<longleftrightarrow> \<not> bit (eflags s) 9"
  by (simp add: intr_get_status_eq)

text \<open>A critical section that leaves the flags alone gives them back as they were.\<close>

lemma restore_eflags [simp]:
  "intr_get_status s = INTR_ON \<Longrightarrow> set_IF (eflags s) = eflags s"
  "intr_get_status s \<noteq> INTR_ON \<Longrightarrow> clear_IF (eflags s) = eflags s"
  by (simp_all add: intr_get_status_eq split: if_splits)

section \<open>Gates\<close>






lemma gate_attr_make [simp]:
  "attribute (make_idt_desc attr func) = attr" "selector (make_idt_desc attr func) = SELECTOR_K_CODE"
  by (simp_all add: make_idt_desc_def)

section \<open>Properties\<close>

text \<open>A critical section: between \<open>intr_disable\<close> and \<open>intr_set_status\<close> of the saved status interrupts are
  off, and afterwards the flags register is what it was, whether or not interrupts were on.\<close>

theorem critical_section:
  assumes "intr_disable s = (old, s1)"
  shows "intr_get_status s1 = INTR_OFF \<and> eflags (snd (intr_set_status old (s1\<lparr>scr := x\<rparr>))) = eflags s \<and>
    old = intr_get_status s"
proof -
  have "old = intr_get_status s" "s1 = cli s" using assms by (metis fst_conv fst_intr_disable, metis snd_conv)
  then show ?thesis by (simp add: restore_intr_eq cli_eq intr_get_status_eq bit_clear_IF)
qed

theorem critical_section_witness:
  "\<exists>s1 :: machine. intr_disable \<lparr>eflags = 0x202, outp = [], scr = \<lparr>vram = \<lambda>_. 0, cursor = 0\<rparr>, idt = [],
     intr_name = [], idt_table = [], intr_entry_table = [], after_entries = \<lambda>_. 0, idtr = 0\<rparr> = (INTR_ON, s1) \<and>
     intr_get_status s1 = INTR_OFF \<and> eflags (snd (intr_set_status INTR_ON (s1\<lparr>scr := scr s1\<rparr>))) = 0x202"
proof -
  let ?s = "\<lparr>eflags = 0x202, outp = [], scr = \<lparr>vram = \<lambda>_. 0, cursor = 0\<rparr>, idt = [],
     intr_name = [], idt_table = [], intr_entry_table = [], after_entries = \<lambda>_. 0, idtr = 0\<rparr> :: machine"
  have on: "intr_disable ?s = (INTR_ON, cli ?s)" by (simp add: intr_disable_def intr_get_status_def)
  from critical_section [OF this, of "scr (cli ?s)"] on show ?thesis by auto
qed



text \<open>The base address that \<open>idt_init\<close> gives to the processor is only the low half of the address of
  the table: the shift that builds the operand drops the high 16 bits.\<close>

theorem idt_operand_truncates:
  "drop_bit 16 (idt_operand idt_addr) = ucast (take_bit 16 idt_addr) \<and> take_bit 16 (idt_operand idt_addr) = 0x407"
proof -
  have lim: "ucast (of_nat (8 * IDT_DESC_CNT) - 1 :: u32) = (0x407 :: u64)" by simp
  have lim_bit: "bit (0x407 :: u64) n \<Longrightarrow> n < 16" for n
  proof -
    have "(0x407 :: u64) = take_bit 16 0x407" by simp
    then show "bit (0x407 :: u64) n \<Longrightarrow> n < 16" by (metis bit_take_bit_iff)
  qed
  have "drop_bit 16 (idt_operand idt_addr) = ucast (take_bit 16 idt_addr)"
    unfolding idt_operand_def lim
    by (rule bit_word_eqI) (use lim_bit in \<open>auto simp: bit_simps\<close>)
  moreover have "take_bit 16 (idt_operand idt_addr) = 0x407"
    unfolding idt_operand_def lim
    by (rule bit_word_eqI) (use lim_bit in \<open>auto simp: bit_simps\<close>)
  ultimately show ?thesis by blast
qed

end
