(* ===== verification/KList.thy ===== *)
theory KList
  imports Interrupt
begin

text \<open>
  \<open>src/lib/kernel/list.c\<close> and \<open>list.h\<close>: intrusive doubly linked lists.  The heap of list elements is
  two functions from addresses, one per pointer field of \<open>struct list_elem\<close>.  A \<open>struct list\<close>
  at address \<open>l\<close> has its \<open>head\<close> element at \<open>l\<close> and its \<open>tail\<close> element at \<open>l + 8\<close>.

  \<open>list_at s l xs\<close> is the abstraction: the list at \<open>l\<close> holds the elements \<open>xs\<close>, in order.  Each
  operation is related to the list operation it implements; the loops that follow the
  \<open>next\<close> pointers are shown to end on such lists.
\<close>

section \<open>Model\<close>

record heap = machine +
  lprev :: "addr \<Rightarrow> addr"
  lnext :: "addr \<Rightarrow> addr"

abbreviation (input) list_tail :: "addr \<Rightarrow> addr" where "list_tail l \<equiv> l + 8"

definition elem2entry :: "u32 \<Rightarrow> addr \<Rightarrow> addr" where
  "elem2entry off elem_ptr = elem_ptr - off"

definition list_init :: "addr \<Rightarrow> 'a heap_scheme \<Rightarrow> 'a heap_scheme" where
  "list_init l s =
     (let s = s\<lparr>lprev := (lprev s)(l := NULL)\<rparr>;
          s = s\<lparr>lnext := (lnext s)(l := list_tail l)\<rparr>;
          s = s\<lparr>lprev := (lprev s)(list_tail l := l)\<rparr>
      in s\<lparr>lnext := (lnext s)(list_tail l := NULL)\<rparr>)"

definition list_insert_before :: "addr \<Rightarrow> addr \<Rightarrow> 'a heap_scheme \<Rightarrow> 'a heap_scheme" where
  "list_insert_before before e s =
     (let (old_status, s) = intr_disable s;
          s = s\<lparr>lnext := (lnext s)(lprev s before := e)\<rparr>;
          s = s\<lparr>lprev := (lprev s)(e := lprev s before)\<rparr>;
          s = s\<lparr>lnext := (lnext s)(e := before)\<rparr>;
          s = s\<lparr>lprev := (lprev s)(before := e)\<rparr>
      in restore_intr old_status s)"

definition list_push :: "addr \<Rightarrow> addr \<Rightarrow> 'a heap_scheme \<Rightarrow> 'a heap_scheme" where
  "list_push plist e s = list_insert_before (lnext s plist) e s"

definition list_append :: "addr \<Rightarrow> addr \<Rightarrow> 'a heap_scheme \<Rightarrow> 'a heap_scheme" where
  "list_append plist e s = list_insert_before (list_tail plist) e s"

definition list_remove :: "addr \<Rightarrow> 'a heap_scheme \<Rightarrow> 'a heap_scheme" where
  "list_remove pelem s =
     (let (old_status, s) = intr_disable s;
          s = s\<lparr>lnext := (lnext s)(lprev s pelem := lnext s pelem)\<rparr>;
          s = s\<lparr>lprev := (lprev s)(lnext s pelem := lprev s pelem)\<rparr>
      in restore_intr old_status s)"

definition list_pop :: "addr \<Rightarrow> 'a heap_scheme \<Rightarrow> addr \<times> 'a heap_scheme" where
  "list_pop plist s = (let e = lnext s plist in (e, list_remove e s))"

definition list_empty :: "addr \<Rightarrow> 'a heap_scheme \<Rightarrow> bool" where
  "list_empty plist s \<longleftrightarrow> lnext s plist = list_tail plist"

partial_function (option) list_len_loop :: "(addr \<Rightarrow> addr) \<Rightarrow> addr \<Rightarrow> addr \<Rightarrow> u32 \<Rightarrow> u32 option" where
  "list_len_loop nx t e len =
     (if e \<noteq> t then list_len_loop nx t (nx e) (len + 1) else Some len)"

definition list_len :: "addr \<Rightarrow> 'a heap_scheme \<Rightarrow> u32 option" where
  "list_len plist s = list_len_loop (lnext s) (list_tail plist) (lnext s plist) 0"

partial_function (option) list_traversal_loop ::
  "(addr \<Rightarrow> addr) \<Rightarrow> addr \<Rightarrow> (addr \<Rightarrow> u32 \<Rightarrow> bool) \<Rightarrow> u32 \<Rightarrow> addr \<Rightarrow> addr option" where
  "list_traversal_loop nx t func arg e =
     (if e \<noteq> t then if func e arg then Some e else list_traversal_loop nx t func arg (nx e)
      else Some NULL)"

definition list_traversal :: "addr \<Rightarrow> (addr \<Rightarrow> u32 \<Rightarrow> bool) \<Rightarrow> u32 \<Rightarrow> 'a heap_scheme \<Rightarrow> addr option" where
  "list_traversal plist func arg s =
     (if list_empty plist s then Some NULL
      else list_traversal_loop (lnext s) (list_tail plist) func arg (lnext s plist))"

partial_function (option) elem_find_loop :: "(addr \<Rightarrow> addr) \<Rightarrow> addr \<Rightarrow> addr \<Rightarrow> addr \<Rightarrow> bool option" where
  "elem_find_loop nx t obj_elem e =
     (if e \<noteq> t then if e = obj_elem then Some True else elem_find_loop nx t obj_elem (nx e)
      else Some False)"

definition elem_find :: "addr \<Rightarrow> addr \<Rightarrow> 'a heap_scheme \<Rightarrow> bool option" where
  "elem_find plist obj_elem s = elem_find_loop (lnext s) (list_tail plist) obj_elem (lnext s plist)"

section \<open>Linked sequences of nodes\<close>

fun linked :: "(addr \<Rightarrow> addr) \<Rightarrow> (addr \<Rightarrow> addr) \<Rightarrow> addr list \<Rightarrow> bool" where
  "linked nx pv (a # b # ns) \<longleftrightarrow> nx a = b \<and> pv b = a \<and> linked nx pv (b # ns)"
| "linked nx pv ns \<longleftrightarrow> True"

lemma linked_append:
  "linked nx pv (xs @ a # ys) \<longleftrightarrow> linked nx pv (xs @ [a]) \<and> linked nx pv (a # ys)"
proof (induction xs rule: induct_list012)
  case 1
  then show ?case by simp
next
  case (2 x)
  then show ?case by simp
next
  case (3 x y zs)
  then show ?case by simp
qed

lemma linked_cong:
  assumes "\<And>a. a \<in> set (butlast ns) \<Longrightarrow> nx' a = nx a" and "\<And>a. a \<in> set (tl ns) \<Longrightarrow> pv' a = pv a"
  shows "linked nx' pv' ns \<longleftrightarrow> linked nx pv ns"
  using assms by (induction nx pv ns rule: linked.induct) auto

definition list_nodes :: "addr \<Rightarrow> addr list \<Rightarrow> addr list" where
  "list_nodes l xs = l # xs @ [list_tail l]"

definition list_at :: "'a heap_scheme \<Rightarrow> addr \<Rightarrow> addr list \<Rightarrow> bool" where
  "list_at s l xs \<longleftrightarrow> linked (lnext s) (lprev s) (list_nodes l xs) \<and> distinct (list_nodes l xs)"

lemma list_atD:
  assumes "list_at s l xs"
  shows "lnext s l = hd (xs @ [list_tail l])" and "lprev s (list_tail l) = last (l # xs)"
    and "distinct xs" and "l \<notin> set xs" and "list_tail l \<notin> set xs"
proof -
  from assms have lk: "linked (lnext s) (lprev s) (l # xs @ [list_tail l])"
    and d: "distinct (l # xs @ [list_tail l])"
    by (auto simp: list_at_def list_nodes_def)
  show "lnext s l = hd (xs @ [list_tail l])" using lk by (cases xs) auto
  show "lprev s (list_tail l) = last (l # xs)"
  proof (cases xs rule: rev_cases)
    case (snoc ys y)
    with lk linked_append [of "lnext s" "lprev s" "l # ys" y "[list_tail l]"] show ?thesis by simp
  qed (use lk in simp)
  from d show "distinct xs" "l \<notin> set xs" "list_tail l \<notin> set xs" by auto
qed

section \<open>Pointer updates\<close>

lemma list_insert_before_eq:
  "list_insert_before b e s =
     s\<lparr>lnext := (lnext s)(lprev s b := e, e := b), lprev := (lprev s)(e := lprev s b, b := e)\<rparr>"
  by (simp add: list_insert_before_def Let_def split_beta restore_intr_eq cli_eq)

lemma list_remove_eq:
  "list_remove e s =
     (let nx = (lnext s)(lprev s e := lnext s e) in s\<lparr>lnext := nx, lprev := (lprev s)(nx e := lprev s e)\<rparr>)"
  by (simp add: list_remove_def Let_def split_beta restore_intr_eq cli_eq)

text \<open>Splicing a node in between \<open>a\<close> and \<open>b\<close>, and out again.\<close>

lemma linked_insert:
  assumes "linked nx pv (xs @ a # b # ys)" and "distinct (xs @ a # b # ys)"
    and "e \<notin> set (xs @ a # b # ys)"
  shows "linked (nx(a := e, e := b)) (pv(e := a, b := e)) (xs @ a # e # b # ys)"
proof -
  from assms have "linked nx pv (xs @ [a])" "linked nx pv (b # ys)"
    using linked_append [of nx pv xs a "b # ys"] by auto
  moreover have "linked (nx(a := e, e := b)) (pv(e := a, b := e)) (xs @ [a]) \<longleftrightarrow> linked nx pv (xs @ [a])"
    using assms(2,3) by (intro linked_cong) (cases xs; auto)+
  moreover have "linked (nx(a := e, e := b)) (pv(e := a, b := e)) (b # ys) \<longleftrightarrow> linked nx pv (b # ys)"
    using assms(2,3) by (intro linked_cong) (auto dest: in_set_butlastD split: if_splits)
  ultimately show ?thesis
    using assms(2,3) linked_append [of "nx(a := e, e := b)" "pv(e := a, b := e)" xs a "e # b # ys"]
    by auto
qed

lemma linked_delete:
  assumes "linked nx pv (xs @ a # e # b # ys)" and "distinct (xs @ a # e # b # ys)"
  shows "linked (nx(a := b)) (pv(b := a)) (xs @ a # b # ys)"
proof -
  from assms have "linked nx pv (xs @ [a])" "linked nx pv (b # ys)"
    using linked_append [of nx pv xs a "e # b # ys"] by auto
  moreover have "linked (nx(a := b)) (pv(b := a)) (xs @ [a]) \<longleftrightarrow> linked nx pv (xs @ [a])"
    using assms(2) by (intro linked_cong) (cases xs; auto)+
  moreover have "linked (nx(a := b)) (pv(b := a)) (b # ys) \<longleftrightarrow> linked nx pv (b # ys)"
    using assms(2) by (intro linked_cong) (auto dest: in_set_butlastD split: if_splits)
  ultimately show ?thesis
    using assms(2) linked_append [of "nx(a := b)" "pv(b := a)" xs a "b # ys"] by auto
qed

lemma list_nodes_split:
  "\<exists>us a b vs. list_nodes l (xs @ ys) = us @ a # b # vs \<and> us @ [a] = l # xs \<and> b # vs = ys @ [list_tail l]"
proof -
  have "us @ [a] = l # xs" if "us = butlast (l # xs)" "a = last (l # xs)" for us a
    using that by (metis append_butlast_last_id list.distinct(1))
  moreover have "b # vs = ys @ [list_tail l]" if "b = hd (ys @ [list_tail l])" "vs = tl (ys @ [list_tail l])" for b vs
    using that by (cases ys) auto
  ultimately show ?thesis
    unfolding list_nodes_def by (metis append.assoc append_Cons append_Nil)
qed

lemma list_at_insert:
  assumes "list_at s l (xs @ ys)" and "b = hd (ys @ [list_tail l])" and "e \<notin> set (list_nodes l (xs @ ys))"
  shows "list_at (list_insert_before b e s) l (xs @ e # ys)"
proof -
  obtain us a b' vs where n: "list_nodes l (xs @ ys) = us @ a # b' # vs"
    and u: "us @ [a] = l # xs" and v: "b' # vs = ys @ [list_tail l]"
    using list_nodes_split by blast
  from v assms(2) have b: "b' = b" by (cases ys) auto
  have lk: "linked (lnext s) (lprev s) (us @ a # b # vs)" and d: "distinct (us @ a # b # vs)"
    using assms(1) n b by (auto simp: list_at_def)
  have pred: "lprev s b = a" using linked_append [of "lnext s" "lprev s" us a "b # vs"] lk by auto
  have n': "list_nodes l (xs @ e # ys) = us @ a # e # b # vs"
    using u v b by (simp add: list_nodes_def)
  show ?thesis
    using linked_insert [OF lk d, of e] d assms(3) n n' b
    by (auto simp: list_at_def list_insert_before_eq pred)
qed

lemma list_at_remove:
  assumes "list_at s l (xs @ e # ys)"
  shows "list_at (list_remove e s) l (xs @ ys)"
proof -
  obtain us a b vs where n: "list_nodes l (xs @ ys) = us @ a # b # vs"
    and u: "us @ [a] = l # xs" and v: "b # vs = ys @ [list_tail l]"
    using list_nodes_split by blast
  have n': "list_nodes l (xs @ e # ys) = us @ a # e # b # vs"
    using u v by (simp add: list_nodes_def)
  have lk: "linked (lnext s) (lprev s) (us @ a # e # b # vs)" and d: "distinct (us @ a # e # b # vs)"
    using assms n' by (auto simp: list_at_def)
  have "lprev s e = a" "lnext s e = b"
    using linked_append [of "lnext s" "lprev s" us a "e # b # vs"] lk by auto
  then show ?thesis
    using linked_delete [OF lk d] d n by (auto simp: list_at_def list_remove_eq Let_def)
qed

section \<open>The operations on abstract lists\<close>

lemma tail_neq [simp]: "list_tail l \<noteq> l"
  by simp

lemma list_at_init: "list_at (list_init l s) l []"
  by (simp add: list_at_def list_nodes_def list_init_def Let_def)

lemma list_at_append:
  "list_at s l xs \<Longrightarrow> e \<notin> set (list_nodes l xs) \<Longrightarrow> list_at (list_append l e s) l (xs @ [e])"
  using list_at_insert [of s l xs "[]"] by (simp add: list_append_def)

lemma list_at_push:
  assumes "list_at s l xs" and "e \<notin> set (list_nodes l xs)"
  shows "list_at (list_push l e s) l (e # xs)"
proof -
  have "lnext s l = hd (xs @ [list_tail l])" using assms(1) by (rule list_atD)
  then show ?thesis
    using list_at_insert [of s l "[]" xs "lnext s l" e] assms by (simp add: list_push_def)
qed

lemma list_at_pop:
  assumes "list_at s l (x # xs)"
  shows "fst (list_pop l s) = x" and "list_at (snd (list_pop l s)) l xs"
proof -
  have x: "lnext s l = x" using list_atD(1) [OF assms] by simp
  then show "fst (list_pop l s) = x" by (simp add: list_pop_def)
  show "list_at (snd (list_pop l s)) l xs"
    using list_at_remove [of s l "[]" x xs] assms by (simp add: list_pop_def x)
qed

lemma list_at_empty: "list_at s l xs \<Longrightarrow> list_empty l s \<longleftrightarrow> xs = []"
  using list_atD(1,5) [of s l xs] by (cases xs) (auto simp: list_empty_def)

section \<open>The loops\<close>

lemma list_len_loop_linked:
  "linked nx pv (xs @ [t]) \<Longrightarrow> t \<notin> set xs \<Longrightarrow>
   list_len_loop nx t (hd (xs @ [t])) n = Some (n + of_nat (length xs))"
proof (induction xs arbitrary: n)
  case Nil
  then show ?case by (subst list_len_loop.simps) simp
next
  case (Cons x xs)
  then have "nx x = hd (xs @ [t])" "linked nx pv (xs @ [t])" by (cases xs; simp)+
  with Cons show ?case by (subst list_len_loop.simps) (auto simp: algebra_simps)
qed

lemma elem_find_loop_linked:
  "linked nx pv (xs @ [t]) \<Longrightarrow> t \<notin> set xs \<Longrightarrow>
   elem_find_loop nx t x (hd (xs @ [t])) = Some (x \<in> set xs)"
proof (induction xs)
  case Nil
  then show ?case by (subst elem_find_loop.simps) simp
next
  case (Cons y xs)
  then have "nx y = hd (xs @ [t])" "linked nx pv (xs @ [t])" by (cases xs; simp)+
  with Cons show ?case by (subst elem_find_loop.simps) auto
qed

lemma list_traversal_loop_linked:
  "linked nx pv (xs @ [t]) \<Longrightarrow> t \<notin> set xs \<Longrightarrow>
   list_traversal_loop nx t func arg (hd (xs @ [t])) =
     Some (case List.find (\<lambda>e. func e arg) xs of None \<Rightarrow> NULL | Some e \<Rightarrow> e)"
proof (induction xs)
  case Nil
  then show ?case by (subst list_traversal_loop.simps) simp
next
  case (Cons y xs)
  then have "nx y = hd (xs @ [t])" "linked nx pv (xs @ [t])" by (cases xs; simp)+
  with Cons show ?case by (subst list_traversal_loop.simps) auto
qed

lemma list_at_linked: "list_at s l xs \<Longrightarrow> linked (lnext s) (lprev s) (xs @ [list_tail l])"
  by (cases xs) (simp_all add: list_at_def list_nodes_def)

lemma list_len_at: "list_at s l xs \<Longrightarrow> list_len l s = Some (of_nat (length xs))"
  using list_len_loop_linked [OF list_at_linked, of s l xs 0] list_atD [of s l xs]
  by (simp add: list_len_def)

lemma elem_find_at: "list_at s l xs \<Longrightarrow> elem_find l e s = Some (e \<in> set xs)"
  using elem_find_loop_linked [OF list_at_linked, of s l xs e] list_atD [of s l xs]
  by (simp add: elem_find_def)

lemma list_traversal_at:
  "list_at s l xs \<Longrightarrow> list_traversal l func arg s =
     Some (case List.find (\<lambda>e. func e arg) xs of None \<Rightarrow> NULL | Some e \<Rightarrow> e)"
  using list_traversal_loop_linked [OF list_at_linked, of s l xs func arg] list_atD [of s l xs]
  by (cases xs) (auto simp: list_traversal_def list_at_empty)

section \<open>Framing\<close>

lemma list_at_cong:
  assumes "list_at s l xs" and "\<And>a. a \<in> set (list_nodes l xs) \<Longrightarrow> lnext s' a = lnext s a \<and> lprev s' a = lprev s a"
  shows "list_at s' l xs"
proof -
  have "linked (lnext s') (lprev s') (list_nodes l xs) \<longleftrightarrow> linked (lnext s) (lprev s) (list_nodes l xs)"
    using assms(2) by (intro linked_cong) (auto dest: in_set_butlastD list.set_sel(2) simp: list_nodes_def)
  with assms(1) show ?thesis by (simp add: list_at_def)
qed

lemma list_at_fields [simp]:
  "list_at (s\<lparr>eflags := x\<rparr>) l xs = list_at s l xs"
  "list_at (s\<lparr>scr := sc\<rparr>) l xs = list_at s l xs"
  "list_at (s\<lparr>outp := ps\<rparr>) l xs = list_at s l xs"
  by (simp_all add: list_at_def)

text \<open>
  Inserting \<open>e\<close> into the list at \<open>l\<close>, or taking it out, leaves alone every list whose nodes are not
  nodes of \<open>l\<close> or \<open>e\<close> itself.
\<close>

lemma list_at_last_pred: "list_at s l xs \<Longrightarrow> lprev s (list_tail l) \<in> set (list_nodes l xs)"
  using list_atD(2) [of s l xs] last_in_set [of "l # xs"] by (auto simp: list_nodes_def)

lemma list_at_frame_append:
  assumes "list_at s l xs" and "list_at s k ys" and "set (list_nodes k ys) \<inter> set (list_nodes l xs) = {}"
    and "e \<notin> set (list_nodes k ys)"
  shows "list_at (list_append l e s) k ys"
proof (rule list_at_cong [OF assms(2)])
  fix a
  assume a: "a \<in> set (list_nodes k ys)"
  have "list_tail l \<in> set (list_nodes l xs)" by (simp add: list_nodes_def)
  then show "lnext (list_append l e s) a = lnext s a \<and> lprev (list_append l e s) a = lprev s a"
    using a assms(3,4) list_at_last_pred [OF assms(1)]
    by (auto simp: list_append_def list_insert_before_eq)
qed

lemma list_at_frame_push:
  assumes "list_at s l xs" and "list_at s k ys" and "set (list_nodes k ys) \<inter> set (list_nodes l xs) = {}"
    and "e \<notin> set (list_nodes k ys)"
  shows "list_at (list_push l e s) k ys"
proof (rule list_at_cong [OF assms(2)])
  fix a
  assume a: "a \<in> set (list_nodes k ys)"
  have nx: "lnext s l = hd (xs @ [list_tail l])" using assms(1) by (rule list_atD)
  have "lprev s (hd (xs @ [list_tail l])) = l"
    using assms(1) by (cases xs) (simp_all add: list_at_def list_nodes_def)
  moreover have "l \<in> set (list_nodes l xs)" "hd (xs @ [list_tail l]) \<in> set (list_nodes l xs)"
    by (cases xs; simp add: list_nodes_def)+
  ultimately show "lnext (list_push l e s) a = lnext s a \<and> lprev (list_push l e s) a = lprev s a"
    using a assms(3,4) nx by (auto simp: list_push_def list_insert_before_eq)
qed

lemma list_at_frame_pop:
  assumes "list_at s l (x # xs)" and "list_at s k ys" and "set (list_nodes k ys) \<inter> set (list_nodes l (x # xs)) = {}"
  shows "list_at (snd (list_pop l s)) k ys"
proof (rule list_at_cong [OF assms(2)])
  fix a
  assume a: "a \<in> set (list_nodes k ys)"
  have x: "lnext s l = x" "lprev s x = l" "lnext s x = hd (xs @ [list_tail l])" "x \<noteq> l"
    using assms(1) by (cases xs; auto simp: list_at_def list_nodes_def)+
  have pop: "snd (list_pop l s) =
      s\<lparr>lnext := (lnext s)(l := hd (xs @ [list_tail l])), lprev := (lprev s)(hd (xs @ [list_tail l]) := l)\<rparr>"
    using x by (simp add: list_pop_def list_remove_eq Let_def)
  have "l \<in> set (list_nodes l (x # xs))" "hd (xs @ [list_tail l]) \<in> set (list_nodes l (x # xs))"
    by (cases xs; simp add: list_nodes_def)+
  then have "a \<noteq> l" "a \<noteq> hd (xs @ [list_tail l])" using a assms(3) by auto
  then show "lnext (snd (list_pop l s)) a = lnext s a \<and> lprev (snd (list_pop l s)) a = lprev s a"
    by (simp add: pop)
qed

section \<open>The interface the kernel uses\<close>

text \<open>
  What the users of these lists rely on: \<open>at s l xs\<close> relates the state to the abstract list, the
  operations act on it as on a double-ended queue, and lists that share no node are independent.
\<close>

locale node_queue =
  fixes at :: "'s \<Rightarrow> addr \<Rightarrow> addr list \<Rightarrow> bool"
    and init :: "addr \<Rightarrow> 's \<Rightarrow> 's"
    and append :: "addr \<Rightarrow> addr \<Rightarrow> 's \<Rightarrow> 's"
    and push :: "addr \<Rightarrow> addr \<Rightarrow> 's \<Rightarrow> 's"
    and pop :: "addr \<Rightarrow> 's \<Rightarrow> addr \<times> 's"
    and is_empty :: "addr \<Rightarrow> 's \<Rightarrow> bool"
    and has :: "addr \<Rightarrow> addr \<Rightarrow> 's \<Rightarrow> bool option"
  assumes at_init: "at (init l s) l []"
    and at_append: "at s l xs \<Longrightarrow> e \<notin> set (list_nodes l xs) \<Longrightarrow> at (append l e s) l (xs @ [e])"
    and at_push: "at s l xs \<Longrightarrow> e \<notin> set (list_nodes l xs) \<Longrightarrow> at (push l e s) l (e # xs)"
    and pop_fst: "at s l (x # xs) \<Longrightarrow> fst (pop l s) = x"
    and at_pop: "at s l (x # xs) \<Longrightarrow> at (snd (pop l s)) l xs"
    and is_empty_at: "at s l xs \<Longrightarrow> is_empty l s \<longleftrightarrow> xs = []"
    and has_at: "at s l xs \<Longrightarrow> has l e s = Some (e \<in> set xs)"
    and at_distinct: "at s l xs \<Longrightarrow> distinct (list_nodes l xs)"
    and frame_append: "at s l xs \<Longrightarrow> at s k ys \<Longrightarrow> set (list_nodes k ys) \<inter> set (list_nodes l xs) = {} \<Longrightarrow>
      e \<notin> set (list_nodes k ys) \<Longrightarrow> at (append l e s) k ys"
    and frame_push: "at s l xs \<Longrightarrow> at s k ys \<Longrightarrow> set (list_nodes k ys) \<inter> set (list_nodes l xs) = {} \<Longrightarrow>
      e \<notin> set (list_nodes k ys) \<Longrightarrow> at (push l e s) k ys"
    and frame_pop: "at s l (x # xs) \<Longrightarrow> at s k ys \<Longrightarrow> set (list_nodes k ys) \<inter> set (list_nodes l (x # xs)) = {} \<Longrightarrow>
      at (snd (pop l s)) k ys"
begin

text \<open>Appending and then popping rotates the queue.\<close>

lemma rotate:
  assumes "at s l xs" and "e \<notin> set (list_nodes l xs)"
  shows "fst (pop l (append l e s)) = hd (xs @ [e])" and "at (snd (pop l (append l e s))) l (tl (xs @ [e]))"
proof -
  have "at (append l e s) l (hd (xs @ [e]) # tl (xs @ [e]))"
    using at_append [OF assms] by simp
  then show "fst (pop l (append l e s)) = hd (xs @ [e])" "at (snd (pop l (append l e s))) l (tl (xs @ [e]))"
    by (rule pop_fst, rule at_pop)
qed

text \<open>What was pushed comes out first.\<close>

lemma push_pop:
  assumes "at s l xs" and "e \<notin> set (list_nodes l xs)"
  shows "fst (pop l (push l e s)) = e" and "at (snd (pop l (push l e s))) l xs"
  using at_push [OF assms] by (rule pop_fst, rule at_pop)

text \<open>A batch of distinct new elements is queued in order.\<close>

lemma at_append_all:
  assumes "at s l xs" and "distinct es" and "set es \<inter> set (list_nodes l xs) = {}"
  shows "at (fold (append l) es s) l (xs @ es)"
  using assms
proof (induction es arbitrary: s xs)
  case (Cons e es)
  then have "at (append l e s) l (xs @ [e])" by (intro at_append) auto
  moreover have "set es \<inter> set (list_nodes l (xs @ [e])) = {}"
    using Cons.prems by (auto simp: list_nodes_def)
  ultimately show ?case using Cons.IH [of "append l e s" "xs @ [e]"] Cons.prems by simp
qed simp

end

interpretation kq: node_queue list_at list_init list_append list_push list_pop list_empty elem_find
proof
  show "list_at s l xs \<Longrightarrow> distinct (list_nodes l xs)" for s :: "'a heap_scheme" and l xs
    by (simp add: list_at_def)
qed (fact list_at_init list_at_append list_at_push list_at_pop list_at_empty elem_find_at
      list_at_frame_append list_at_frame_push list_at_frame_pop)+

section \<open>Properties\<close>

text \<open>C35. The operations of \<open>list.c\<close> implement operations on sequences: \<open>list_append\<close> adds at the end, \<open>list_push\<close>
  at the front, \<open>list_pop\<close> takes the front off, \<open>list_empty\<close>, \<open>elem_find\<close> and \<open>list_len\<close> read the
  sequence (and their loops end).\<close>

theorem list_ops_refine:
  assumes "list_at s l xs" and "e \<notin> set (list_nodes l xs)"
  shows "list_at (list_append l e s) l (xs @ [e]) \<and> list_at (list_push l e s) l (e # xs) \<and>
    (list_empty l s \<longleftrightarrow> xs = []) \<and> elem_find l x s = Some (x \<in> set xs) \<and> list_len l s = Some (of_nat (length xs)) \<and>
    (case xs of [] \<Rightarrow> True | y # ys \<Rightarrow> fst (list_pop l s) = y \<and> list_at (snd (list_pop l s)) l ys)"
proof -
  have "case xs of [] \<Rightarrow> True | y # ys \<Rightarrow> fst (list_pop l s) = y \<and> list_at (snd (list_pop l s)) l ys"
    using assms(1) kq.pop_fst kq.at_pop by (auto split: list.split)
  with kq.at_append [OF assms] kq.at_push [OF assms] kq.is_empty_at [OF assms(1)] kq.has_at [OF assms(1)]
    list_len_at [OF assms(1)]
  show ?thesis by blast
qed

theorem list_ops_refine_witness:
  "\<forall>h :: heap. list_at (list_append 0x100 0x308 (list_init 0x100 h)) 0x100 [0x308] \<and>
     fst (list_pop 0x100 (list_push 0x100 0x300 (list_append 0x100 0x308 (list_init 0x100 h)))) = 0x300"
proof
  fix h :: heap
  let ?h = "list_append 0x100 0x308 (list_init 0x100 h)"
  have one: "list_at ?h 0x100 [0x308]"
    using list_ops_refine [of "list_init 0x100 h" "0x100" "[]" "0x308"] list_at_init [of "0x100" h]
    by (simp add: list_nodes_def)
  then have "list_at (list_push 0x100 0x300 ?h) 0x100 [0x300, 0x308]"
    using list_ops_refine [of ?h "0x100" "[0x308]" "0x300"] by (simp add: list_nodes_def)
  then have "fst (list_pop 0x100 (list_push 0x100 0x300 ?h)) = 0x300"
    using list_ops_refine [of "list_push 0x100 0x300 ?h" "0x100" "[0x300, 0x308]" "0x400"] by (simp add: list_nodes_def)
  with one show "list_at ?h 0x100 [0x308] \<and> fst (list_pop 0x100 (list_push 0x100 0x300 ?h)) = 0x300" by blast
qed

text \<open>An operation on one list leaves every other list with different nodes as it is.\<close>

theorem list_ops_frame:
  assumes "list_at s l xs" and "list_at s k ys" and "set (list_nodes k ys) \<inter> set (list_nodes l xs) = {}"
    and "e \<notin> set (list_nodes k ys)"
  shows "list_at (list_append l e s) k ys \<and> list_at (list_push l e s) k ys \<and>
    (xs \<noteq> [] \<longrightarrow> list_at (snd (list_pop l s)) k ys)"
proof -
  have "list_at (snd (list_pop l s)) k ys" if "xs \<noteq> []"
    using list_at_frame_pop [of s l "hd xs" "tl xs" k ys] assms that by simp
  then show ?thesis using list_at_frame_append [OF assms] list_at_frame_push [OF assms] by blast
qed

theorem list_ops_frame_witness:
  "\<forall>h :: heap. list_at (list_append 0x100 0x308 (list_init 0x100 (list_init 0x200 h))) 0x200 []"
proof
  fix h :: heap
  let ?h = "list_init 0x100 (list_init 0x200 h)"
  have "list_at ?h 0x200 []"
    by (rule list_at_cong [OF list_at_init [of "0x200" h]]) (auto simp: list_nodes_def list_init_def Let_def)
  with list_ops_frame [of ?h "0x100" "[]" "0x200" "[]" "0x308"] list_at_init [of "0x100" "list_init 0x200 h"]
  show "list_at (list_append 0x100 0x308 ?h) 0x200 []" by (simp add: list_nodes_def)
qed

text \<open>\<open>list_traversal\<close> returns the first element on which the callback is true, and NULL when there is none.\<close>

theorem list_traversal_finds:
  assumes "list_at s l xs"
  shows "list_traversal l func arg s =
    Some (case List.find (\<lambda>e. func e arg) xs of None \<Rightarrow> NULL | Some e \<Rightarrow> e)"
  using assms by (rule list_traversal_at)

theorem list_traversal_finds_witness:
  "\<forall>h :: heap. list_traversal 0x100 (\<lambda>e a. e = a) 0x308 (list_append 0x100 0x308 (list_init 0x100 h)) = Some 0x308"
proof
  fix h :: heap
  have "list_at (list_append 0x100 0x308 (list_init 0x100 h)) 0x100 [0x308]"
    using list_at_append [of "list_init 0x100 h" "0x100" "[]" "0x308"] list_at_init [of "0x100" h] by (simp add: list_nodes_def)
  from list_traversal_finds [OF this]
  show "list_traversal 0x100 (\<lambda>e a. e = a) 0x308 (list_append 0x100 0x308 (list_init 0x100 h)) = Some 0x308" by simp
qed

end
