(* ===== verification/KString.thy ===== *)
theory KString
  imports Prelude
begin

text \<open>
  \<open>src/lib/string.c\<close>: the byte and string routines, on a byte memory.  A loop whose bound
  is a \<open>size\<close> argument is a total function; a loop that runs to a NUL byte is an \<open>option\<close>
  (it need not end), and \<open>None\<close> becomes the error \<open>Diverge\<close>.  \<open>char\<close> is signed, as gcc
  has it on i386: \<open>\<le>s\<close> and \<open>scast\<close> below.

  \<open>cstr m a cs\<close> says that the NUL-terminated string at \<open>a\<close> is \<open>cs\<close>; the lemmas relate every
  routine to the list operation it implements.
\<close>

section \<open>Model\<close>

function memset_loop :: "addr \<Rightarrow> u8 \<Rightarrow> u32 \<Rightarrow> mem \<Rightarrow> mem" where
  "memset_loop p v sz m =
     (if sz > 0 then memset_loop (p + 1) v (sz - 1) (m(p := v)) else m)"
  by pat_completeness auto
termination
  by (relation "measure (\<lambda>(p, v, sz, m). unat sz)") (auto simp: word_gt_0)

definition memset :: "addr \<Rightarrow> u8 \<Rightarrow> u32 \<Rightarrow> mem \<Rightarrow> mem res" where
  "memset dst v sz m =
     ASSERT (dst \<noteq> NULL) ''memset'' ''dst'' (Inr (memset_loop dst v sz m))"

function memcpy_loop :: "addr \<Rightarrow> addr \<Rightarrow> u32 \<Rightarrow> mem \<Rightarrow> mem" where
  "memcpy_loop p_dst p_src sz m =
     (if sz > 0 then memcpy_loop (p_dst + 1) (p_src + 1) (sz - 1) (m(p_dst := m p_src)) else m)"
  by pat_completeness auto
termination
  by (relation "measure (\<lambda>(p, q, sz, m). unat sz)") (auto simp: word_gt_0)

definition memcpy :: "addr \<Rightarrow> addr \<Rightarrow> u32 \<Rightarrow> mem \<Rightarrow> mem res" where
  "memcpy dst src sz m =
     ASSERT (dst \<noteq> NULL) ''memcpy'' ''dst''
      (ASSERT (src \<noteq> NULL) ''memcpy'' ''src'' (Inr (memcpy_loop dst src sz m)))"

function memcmp_loop :: "addr \<Rightarrow> addr \<Rightarrow> u32 \<Rightarrow> mem \<Rightarrow> u32" where
  "memcmp_loop pa pb sz m =
     (if sz > 0 then
        if m pb <s m pa then 1
        else if m pa <s m pb then -1
        else memcmp_loop (pa + 1) (pb + 1) (sz - 1) m
      else 0)"
  by pat_completeness auto
termination
  by (relation "measure (\<lambda>(p, q, sz, m). unat sz)") (auto simp: word_gt_0)

definition memcmp :: "addr \<Rightarrow> addr \<Rightarrow> u32 \<Rightarrow> mem \<Rightarrow> u32 res" where
  "memcmp a b sz m =
     ASSERT (a \<noteq> NULL) ''memcmp'' ''a''
      (ASSERT (b \<noteq> NULL) ''memcmp'' ''b'' (Inr (memcmp_loop a b sz m)))"

partial_function (option) strcpy_loop :: "addr \<Rightarrow> addr \<Rightarrow> mem \<Rightarrow> mem option" where
  "strcpy_loop p_dst src m =
     (if m src \<noteq> 0 then strcpy_loop (p_dst + 1) (src + 1) (m(p_dst := m src)) else Some m)"

definition strcpy :: "addr \<Rightarrow> addr \<Rightarrow> mem \<Rightarrow> (addr \<times> mem) res" where
  "strcpy dst src m = bindE (of_loop (strcpy_loop dst src m)) (\<lambda>m'. Inr (dst, m'))"

partial_function (option) strlen_loop :: "addr \<Rightarrow> u32 \<Rightarrow> mem \<Rightarrow> u32 option" where
  "strlen_loop str cnt m =
     (if m str \<noteq> 0 then strlen_loop (str + 1) (cnt + 1) m else Some cnt)"

definition strlen :: "addr \<Rightarrow> mem \<Rightarrow> u32 res" where
  "strlen str m = ASSERT (str \<noteq> NULL) ''strlen'' ''str'' (of_loop (strlen_loop str 0 m))"

partial_function (option) strcmp_loop :: "addr \<Rightarrow> addr \<Rightarrow> mem \<Rightarrow> u8 option" where
  "strcmp_loop a b m =
     (if m a \<noteq> 0 \<and> m b \<noteq> 0 then
        if m b <s m a then Some 1
        else if m a <s m b then Some (-1)
        else strcmp_loop (a + 1) (b + 1) m
      else if m a \<noteq> 0 then Some 1
      else if m b \<noteq> 0 then Some (-1)
      else Some 0)"

definition strcmp :: "addr \<Rightarrow> addr \<Rightarrow> mem \<Rightarrow> u8 res" where
  "strcmp a b m =
     ASSERT (a \<noteq> NULL) ''strcmp'' ''a''
      (ASSERT (b \<noteq> NULL) ''strcmp'' ''b'' (of_loop (strcmp_loop a b m)))"

text \<open>\<open>*str == ch\<close>: the \<open>char\<close> is sign-extended to \<open>int\<close>, the \<open>uint8_t\<close> zero-extended.\<close>

definition char_eq :: "u8 \<Rightarrow> u8 \<Rightarrow> bool" where
  "char_eq c ch \<longleftrightarrow> (scast c :: u32) = ucast ch"

partial_function (option) strchr_loop :: "addr \<Rightarrow> u8 \<Rightarrow> mem \<Rightarrow> addr option" where
  "strchr_loop str ch m =
     (if m str \<noteq> 0 then
        if char_eq (m str) ch then Some str else strchr_loop (str + 1) ch m
      else Some NULL)"

definition strchr :: "addr \<Rightarrow> u8 \<Rightarrow> mem \<Rightarrow> addr res" where
  "strchr str ch m = ASSERT (str \<noteq> NULL) ''strchr'' ''str'' (of_loop (strchr_loop str ch m))"

partial_function (option) strrchr_loop :: "addr \<Rightarrow> u8 \<Rightarrow> addr \<Rightarrow> mem \<Rightarrow> addr option" where
  "strrchr_loop str ch last_char m =
     (if m str \<noteq> 0 then
        strrchr_loop (str + 1) ch (if char_eq (m str) ch then str else last_char) m
      else Some last_char)"

definition strrchr :: "addr \<Rightarrow> u8 \<Rightarrow> mem \<Rightarrow> addr res" where
  "strrchr str ch m =
     ASSERT (str \<noteq> NULL) ''strrchr'' ''str'' (of_loop (strrchr_loop str ch NULL m))"

partial_function (option) strcat_end :: "addr \<Rightarrow> mem \<Rightarrow> addr option" where
  "strcat_end str m = (if m str \<noteq> 0 then strcat_end (str + 1) m else Some str)"

partial_function (option) strcat_copy :: "addr \<Rightarrow> addr \<Rightarrow> mem \<Rightarrow> mem option" where
  "strcat_copy str src m =
     (if m src \<noteq> 0 then strcat_copy (str + 1) (src + 1) (m(str := m src))
      else Some (m(str := m src)))"

definition strcat :: "addr \<Rightarrow> addr \<Rightarrow> mem \<Rightarrow> (addr \<times> mem) res" where
  "strcat dst src m =
     ASSERT (dst \<noteq> NULL) ''strcat'' ''dst''
      (ASSERT (src \<noteq> NULL) ''strcat'' ''src''
        (bindE (of_loop (strcat_end dst m)) (\<lambda>str.
          bindE (of_loop (strcat_copy str src m)) (\<lambda>m'. Inr (dst, m')))))"

partial_function (option) strchrs_loop :: "addr \<Rightarrow> u8 \<Rightarrow> u32 \<Rightarrow> mem \<Rightarrow> u32 option" where
  "strchrs_loop p ch ch_cnt m =
     (if m p \<noteq> 0 then strchrs_loop (p + 1) ch (if char_eq (m p) ch then ch_cnt + 1 else ch_cnt) m
      else Some ch_cnt)"

definition strchrs :: "addr \<Rightarrow> u8 \<Rightarrow> mem \<Rightarrow> u32 res" where
  "strchrs str ch m = ASSERT (str \<noteq> NULL) ''strchrs'' ''str'' (of_loop (strchrs_loop str ch 0 m))"

declare memset_loop.simps [simp del] memcpy_loop.simps [simp del] memcmp_loop.simps [simp del]

section \<open>Sized operations\<close>

lemma memset_loop_0 [simp]: "memset_loop p v 0 m = m"
  by (simp add: memset_loop.simps)

lemma memset_loop_apply:
  "memset_loop p v sz m a = (if a - p < sz then v else m a)"
proof (induction sz arbitrary: p m rule: word_countdown_induct)
  case (step sz)
  then have "a - p < sz \<longleftrightarrow> a = p \<or> a - (p + 1) < sz - 1"
    by (simp add: word_less_dec [of sz "a - p"] algebra_simps)
  with step show ?case
    by (subst memset_loop.simps) (auto simp: word_gt_0)
qed simp

text \<open>
  A forward byte copy is right unless a byte of the source is overwritten before it is read.
\<close>

lemma memcpy_loop_0 [simp]: "memcpy_loop p q 0 m = m"
  by (simp add: memcpy_loop.simps)

lemma memcpy_loop_apply:
  assumes "\<And>i j. i < j \<Longrightarrow> j < sz \<Longrightarrow> dst + i \<noteq> src + j"
  shows "memcpy_loop dst src sz m a = (if a - dst < sz then m (src + (a - dst)) else m a)"
  using assms
proof (induction sz arbitrary: dst src m rule: word_countdown_induct)
  case (step sz)
  have apart: "dst + 1 + i \<noteq> src + 1 + j" if "i < j" "j < sz - 1" for i j :: u32
  proof -
    from that step(1) have "i + 1 < j + 1" "j + 1 < sz"
      by (auto intro: word_inc_mono word_dec_inc_less)
    from step.prems [OF this] show ?thesis by (simp add: algebra_simps)
  qed
  have split: "a - dst < sz \<longleftrightarrow> a = dst \<or> a - (dst + 1) < sz - 1"
    using step(1) by (simp add: word_less_dec [of sz "a - dst"] algebra_simps)
  have keep: "src + (a - dst) \<noteq> dst" if "a \<noteq> dst" "a - dst < sz"
    using step.prems [of 0 "a - dst"] that by (auto simp: word_gt_0)
  have next_byte: "src + 1 + (a - (dst + 1)) = src + (a - dst)"
    by simp
  show ?case
    using step(1) split keep step.IH [OF apart, of "m(dst := m src)"]
    by (cases "a = dst"; subst memcpy_loop.simps) (auto simp: word_gt_0 next_byte fun_upd_def)
qed simp

lemma memcmp_loop_0 [simp]: "memcmp_loop p q 0 m = 0"
  by (simp add: memcmp_loop.simps)

lemma memcmp_loop_eq_0:
  "memcmp_loop a b sz m = 0 \<longleftrightarrow> (\<forall>i < sz. m (a + i) = m (b + i))"
proof (induction sz arbitrary: a b rule: word_countdown_induct)
  case (step sz)
  have "(\<forall>i < sz. m (a + i) = m (b + i)) \<longleftrightarrow>
        m a = m b \<and> (\<forall>i < sz - 1. m (a + 1 + i) = m (b + 1 + i))" (is "?L \<longleftrightarrow> ?R")
  proof
    assume L: ?L
    with step(1) have "m a = m b" by (metis add.right_neutral word_gt_0)
    moreover from L have "m (a + (i + 1)) = m (b + (i + 1))" if "i < sz - 1" for i
      using that step(1) by (blast intro: word_dec_inc_less)
    ultimately show ?R by (simp add: algebra_simps)
  next
    assume R: ?R
    show ?L
    proof (intro allI impI)
      fix i :: u32
      assume "i < sz"
      with step(1) have "i = 0 \<or> i - 1 < sz - 1" by (simp add: word_less_dec)
      then show "m (a + i) = m (b + i)"
        using R by (auto dest: spec [of _ "i - 1"])
    qed
  qed
  then show ?case
    using step by (subst memcmp_loop.simps) (auto simp: word_gt_0 dest: sless_antisym)
qed simp


section \<open>C strings\<close>

fun cstr :: "mem \<Rightarrow> addr \<Rightarrow> u8 list \<Rightarrow> bool" where
  "cstr m a [] \<longleftrightarrow> m a = 0"
| "cstr m a (c # cs) \<longleftrightarrow> m a = c \<and> c \<noteq> 0 \<and> cstr m (a + 1) cs"

lemma cstr_nth: "cstr m a cs \<Longrightarrow> i < length cs \<Longrightarrow> m (a + of_nat i) = cs ! i \<and> cs ! i \<noteq> 0"
  by (induction cs arbitrary: a i) (auto simp: nth_Cons add.assoc [symmetric] split: nat.splits)

lemma cstr_end: "cstr m a cs \<Longrightarrow> m (a + of_nat (length cs)) = 0"
  by (induction cs arbitrary: a) (auto simp: add.assoc [symmetric])

lemma cstr_iff:
  "cstr m a cs \<longleftrightarrow> (\<forall>i < length cs. m (a + of_nat i) = cs ! i \<and> cs ! i \<noteq> 0) \<and> m (a + of_nat (length cs)) = 0"
proof (induction cs arbitrary: a)
  case (Cons c cs)
  show ?case
    unfolding cstr.simps Cons.IH [of "a + 1"] by (auto simp: All_less_Suc2 add.assoc)
qed simp

lemma cstr_cong:
  "(\<And>i. i \<le> length cs \<Longrightarrow> m' (a + of_nat i) = m (a + of_nat i)) \<Longrightarrow> cstr m' a cs \<longleftrightarrow> cstr m a cs"
proof (induction cs arbitrary: a)
  case (Cons c cs)
  have "m' (a + 1 + of_nat i) = m (a + 1 + of_nat i)" if "i \<le> length cs" for i
    using Cons.prems [of "Suc i"] that by (simp add: algebra_simps)
  then show ?case using Cons.IH [of "a + 1"] Cons.prems [of 0] by simp
qed simp

lemma cstr_unique: "cstr m a xs \<Longrightarrow> cstr m a ys \<Longrightarrow> xs = ys"
proof (induction xs arbitrary: a ys)
  case Nil
  then show ?case by (cases ys) auto
next
  case (Cons x xs)
  then show ?case by (cases ys) auto
qed

lemma strlen_loop_cstr: "cstr m a cs \<Longrightarrow> strlen_loop a n m = Some (n + of_nat (length cs))"
  by (induction cs arbitrary: a n) (subst strlen_loop.simps, simp add: algebra_simps)+

lemma strcat_end_cstr: "cstr m a cs \<Longrightarrow> strcat_end a m = Some (a + of_nat (length cs))"
  by (induction cs arbitrary: a) (subst strcat_end.simps, simp add: algebra_simps)+

lemma char_eq_ascii: "ch < 128 \<Longrightarrow> char_eq c ch \<longleftrightarrow> c = ch"
  by (auto simp: char_eq_def scast_eq_ucast_u32 simp flip: sint_eq_uint_u8 intro: signed_word_eqI)

lemma char_eq_high: "128 \<le> ch \<Longrightarrow> \<not> char_eq c ch"
  using sint_u8_bounds [of c] by (auto simp: char_eq_def scast_eq_ucast_u32 word_le_def)

lemma strchr_loop_cstr:
  "cstr m a cs \<Longrightarrow> strchr_loop a ch m =
     Some (if \<exists>c \<in> set cs. char_eq c ch
           then a + of_nat (length (takeWhile (\<lambda>c. \<not> char_eq c ch) cs)) else NULL)"
  by (induction cs arbitrary: a) (subst strchr_loop.simps, simp add: algebra_simps)+

lemma strchrs_loop_cstr:
  "cstr m a cs \<Longrightarrow> strchrs_loop a ch n m = Some (n + of_nat (length (filter (\<lambda>c. char_eq c ch) cs)))"
  by (induction cs arbitrary: a n) (subst strchrs_loop.simps, simp add: algebra_simps)+

text \<open>The address of the last match, \<open>l\<close> where there is none.\<close>

fun last_match :: "u8 \<Rightarrow> addr \<Rightarrow> addr \<Rightarrow> u8 list \<Rightarrow> addr" where
  "last_match ch l a [] = l"
| "last_match ch l a (c # cs) = last_match ch (if char_eq c ch then a else l) (a + 1) cs"

lemma last_match_snoc:
  "last_match ch l a (cs @ [c]) = (if char_eq c ch then a + of_nat (length cs) else last_match ch l a cs)"
  by (induction cs arbitrary: l a) (auto simp: add.assoc [symmetric])

lemma strrchr_loop_cstr: "cstr m a cs \<Longrightarrow> strrchr_loop a ch l m = Some (last_match ch l a cs)"
  by (induction cs arbitrary: a l) (subst strrchr_loop.simps, simp)+

text \<open>The order \<open>strcmp\<close> computes: lexicographic, on signed bytes.\<close>

fun strcmp_spec :: "u8 list \<Rightarrow> u8 list \<Rightarrow> u8" where
  "strcmp_spec [] [] = 0"
| "strcmp_spec (x # xs) [] = 1"
| "strcmp_spec [] (y # ys) = -1"
| "strcmp_spec (x # xs) (y # ys) =
     (if y <s x then 1 else if x <s y then -1 else strcmp_spec xs ys)"

lemma strcmp_loop_cstr:
  "cstr m a xs \<Longrightarrow> cstr m b ys \<Longrightarrow> strcmp_loop a b m = Some (strcmp_spec xs ys)"
  by (induction xs ys arbitrary: a b rule: strcmp_spec.induct) (subst strcmp_loop.simps, simp)+

lemma strcmp_spec_eq_0: "strcmp_spec xs ys = 0 \<longleftrightarrow> xs = ys"
  by (induction xs ys rule: strcmp_spec.induct) (auto dest: sless_antisym)

lemma strcmp_spec_lexord:
  "strcmp_spec xs ys = -1 \<longleftrightarrow> (xs, ys) \<in> lexord {(x, y). x <s y}"
  by (induction xs ys rule: strcmp_spec.induct) (auto dest: sless_antisym)

lemma strcmp_spec_sym: "strcmp_spec ys xs = - strcmp_spec xs ys"
  by (induction xs ys rule: strcmp_spec.induct) (auto dest: signed.less_asym)

subsection \<open>Copying strings\<close>

text \<open>
  The bytes of \<open>cs\<close> placed at \<open>dst\<close>.  \<open>apart\<close> is the condition under which the forward loops
  of \<open>strcpy\<close> and \<open>strcat\<close> do not overwrite what they have still to read.
\<close>

definition put_bytes :: "addr \<Rightarrow> u8 list \<Rightarrow> mem \<Rightarrow> mem" where
  "put_bytes dst cs m = (\<lambda>a. if unat (a - dst) < length cs then cs ! unat (a - dst) else m a)"

definition apart :: "addr \<Rightarrow> addr \<Rightarrow> nat \<Rightarrow> bool" where
  "apart dst src n \<longleftrightarrow> (\<forall>i j. i < j \<and> j \<le> n \<longrightarrow> dst + of_nat i \<noteq> src + of_nat j)"

lemma apart_1: "apart dst src (Suc 0) \<longleftrightarrow> dst \<noteq> src + 1"
proof -
  have "i < j \<and> j \<le> Suc 0 \<longleftrightarrow> i = 0 \<and> j = Suc 0" for i j :: nat by auto
  then show ?thesis by (simp add: apart_def)
qed

lemma put_bytes_Nil [simp]: "put_bytes dst [] m = m"
  by (simp add: put_bytes_def)

lemma put_bytes_Cons:
  assumes "length cs < 2 ^ 32 - 1"
  shows "put_bytes (dst + 1) cs (m(dst := c)) = put_bytes dst (c # cs) m"
proof
  fix a
  show "put_bytes (dst + 1) cs (m(dst := c)) a = put_bytes dst (c # cs) m a"
  proof (cases "a = dst")
    case True
    have "unat (a - (dst + 1)) = 2 ^ 32 - 1" by (simp add: True)
    with True assms show ?thesis by (simp add: put_bytes_def)
  next
    case False
    then have "unat (a - dst) = Suc (unat (a - (dst + 1)))"
      using unat_dec [of "a - dst"] unat_gt_0 [of "a - dst"] by (simp add: algebra_simps)
    with False show ?thesis by (simp add: put_bytes_def)
  qed
qed

lemma apart_Suc: "apart dst src (Suc n) \<Longrightarrow> apart (dst + 1) (src + 1) n"
  unfolding apart_def
proof (intro allI impI)
  fix i j
  assume *: "\<forall>i j. i < j \<and> j \<le> Suc n \<longrightarrow> dst + of_nat i \<noteq> src + of_nat j" "i < j \<and> j \<le> n"
  from *(1) [rule_format, of "Suc i" "Suc j"] *(2)
  show "dst + 1 + of_nat i \<noteq> src + 1 + of_nat j" by (simp add: algebra_simps)
qed

lemma cstr_step_apart:
  assumes "cstr m (src + 1) cs" and "apart dst src (Suc (length cs))"
  shows "cstr (m(dst := c)) (src + 1) cs"
proof (rule cstr_cong [THEN iffD2, OF _ assms(1)])
  fix i
  assume "i \<le> length cs"
  with assms(2) [unfolded apart_def, rule_format, of 0 "Suc i"]
  have "dst \<noteq> src + of_nat (Suc i)" by simp
  then show "(m(dst := c)) (src + 1 + of_nat i) = m (src + 1 + of_nat i)"
    by (auto simp: algebra_simps)
qed

lemma strcpy_loop_cstr:
  "cstr m src cs \<Longrightarrow> apart dst src (length cs) \<Longrightarrow> length cs < 2 ^ 32 \<Longrightarrow>
   strcpy_loop dst src m = Some (put_bytes dst cs m)"
proof (induction cs arbitrary: dst src m)
  case Nil
  then show ?case by (subst strcpy_loop.simps) simp
next
  case (Cons c cs)
  then have "cstr (m(dst := c)) (src + 1) cs" "apart (dst + 1) (src + 1) (length cs)"
    by (simp_all add: apart_Suc cstr_step_apart del: fun_upd_apply)
  from Cons.IH [OF this] Cons.prems have "strcpy_loop (dst + 1) (src + 1) (m(dst := c)) =
      Some (put_bytes (dst + 1) cs (m(dst := c)))"
    by (simp add: fun_upd_def)
  with Cons.prems show ?case
    by (subst strcpy_loop.simps) (simp add: put_bytes_Cons)
qed

lemma strcat_copy_cstr:
  "cstr m src cs \<Longrightarrow> apart str src (length cs) \<Longrightarrow> length cs < 2 ^ 32 - 1 \<Longrightarrow>
   strcat_copy str src m = Some (put_bytes str (cs @ [0]) m)"
proof (induction cs arbitrary: str src m)
  case Nil
  then show ?case
    by (subst strcat_copy.simps) (auto simp: put_bytes_def unat_0_iff)
next
  case (Cons c cs)
  then have "cstr (m(str := c)) (src + 1) cs" "apart (str + 1) (src + 1) (length cs)"
    by (simp_all add: apart_Suc cstr_step_apart del: fun_upd_apply)
  from Cons.IH [OF this] Cons.prems have "strcat_copy (str + 1) (src + 1) (m(str := c)) =
      Some (put_bytes (str + 1) (cs @ [0]) (m(str := c)))"
    by (simp add: fun_upd_def)
  with Cons.prems show ?case
    by (subst strcat_copy.simps) (simp add: put_bytes_Cons)
qed

lemma put_bytes_at: "i < length cs \<Longrightarrow> length cs \<le> 2 ^ 32 \<Longrightarrow> put_bytes a cs m (a + of_nat i) = cs ! i"
  by (simp add: put_bytes_def unat_of_nat)

lemma put_bytes_beyond: "length cs \<le> i \<Longrightarrow> i < 2 ^ 32 \<Longrightarrow> put_bytes a cs m (a + of_nat i) = m (a + of_nat i)"
  by (simp add: put_bytes_def unat_of_nat)

subsection \<open>Loops that end\<close>

text \<open>Addresses wrap around, so a NUL byte anywhere in memory ends every string.\<close>

lemma cstr_exists:
  assumes "m b = 0"
  obtains cs where "cstr m a cs" and "length cs < 2 ^ 32"
proof -
  let ?P = "\<lambda>i. m (a + of_nat i) = 0"
  have P: "?P (unat (b - a))" using assms by simp
  define n where "n = (LEAST i. ?P i)"
  have "n \<le> unat (b - a)" unfolding n_def by (rule Least_le) (rule P)
  also have "unat (b - a) < 2 ^ 32" using unsigned_less [of "b - a"] by simp
  finally have len: "length (map (\<lambda>i. m (a + of_nat i)) [0..<n]) < 2 ^ 32" by simp
  have "m (a + of_nat n) = 0" unfolding n_def by (rule LeastI [of ?P]) (rule P)
  then have "cstr m a (map (\<lambda>i. m (a + of_nat i)) [0..<n])"
    unfolding cstr_iff using not_less_Least [of _ ?P, folded n_def] by auto
  then show thesis using len by (rule that)
qed

lemma string_loops_NUL:
  "strlen_loop a n m = Some r \<Longrightarrow> \<exists>b. m b = 0" "strrchr_loop a ch l m = Some r \<Longrightarrow> \<exists>b. m b = 0"
  "strchrs_loop a ch k m = Some c \<Longrightarrow> \<exists>b. m b = 0"
proof -
  show "\<exists>b. m b = 0" if "strlen_loop a n m = Some r"
    by (rule strlen_loop.raw_induct [of "\<lambda>a n m r. \<exists>b. m b = 0", OF _ that]) (auto split: if_splits)
  show "\<exists>b. m b = 0" if "strrchr_loop a ch l m = Some r"
    by (rule strrchr_loop.raw_induct [of "\<lambda>a ch l m r. \<exists>b. m b = 0", OF _ that]) (auto split: if_splits)
  show "\<exists>b. m b = 0" if "strchrs_loop a ch k m = Some c"
    by (rule strchrs_loop.raw_induct [of "\<lambda>a ch k m r. \<exists>b. m b = 0", OF _ that]) (auto split: if_splits)
qed

lemma string_loops_None:
  assumes "\<nexists>b. m b = 0"
  shows "strlen_loop a n m = None" and "strrchr_loop a ch l m = None" and "strchrs_loop a ch k m = None"
proof -
  show "strlen_loop a n m = None" using assms string_loops_NUL(1) [of a n m] by (cases "strlen_loop a n m") auto
  show "strrchr_loop a ch l m = None" using assms string_loops_NUL(2) [of a ch l m] by (cases "strrchr_loop a ch l m") auto
  show "strchrs_loop a ch k m = None" using assms string_loops_NUL(3) [of a ch k m] by (cases "strchrs_loop a ch k m") auto
qed

text \<open>\<open>strchr\<close> stops at the first match, too.\<close>

lemma strchr_loop_match:
  "\<forall>b. m b \<noteq> 0 \<Longrightarrow> char_eq (m (a + of_nat k)) ch \<Longrightarrow> \<exists>p. strchr_loop a ch m = Some p \<and> char_eq (m p) ch"
proof (induction k arbitrary: a)
  case 0
  then show ?case by (subst strchr_loop.simps) simp
next
  case (Suc k)
  then have "\<exists>p. strchr_loop (a + 1) ch m = Some p \<and> char_eq (m p) ch" by (intro Suc.IH) (simp_all add: add.assoc)
  then show ?case by (cases "char_eq (m a) ch") (subst strchr_loop.simps, simp add: Suc.prems(1))+
qed

lemma strchr_loop_None:
  assumes "\<forall>b. m b \<noteq> 0" and "\<nexists>b. char_eq (m b) ch"
  shows "strchr_loop a ch m = None"
proof (cases "strchr_loop a ch m")
  case (Some r)
  have "\<exists>b. m b = 0 \<or> char_eq (m b) ch"
    by (rule strchr_loop.raw_induct [of "\<lambda>a ch m r. \<exists>b. m b = 0 \<or> char_eq (m b) ch", OF _ Some]) (auto split: if_splits)
  with assms show ?thesis by blast
qed simp

text \<open>A string copied to itself is left as it is; so is an empty string appended to itself.\<close>

lemma strcpy_loop_self: "cstr m a cs \<Longrightarrow> strcpy_loop a a m = Some m"
proof (induction cs arbitrary: a)
  case Nil
  then show ?case by (subst strcpy_loop.simps) simp
next
  case (Cons c cs)
  then show ?case by (subst strcpy_loop.simps) (simp add: fun_upd_idem)
qed

lemma strcat_self_empty: "m a = 0 \<Longrightarrow> strcat_end a m = Some a" "m a = 0 \<Longrightarrow> strcat_copy a a m = Some m"
  by (subst strcat_end.simps, simp) (subst strcat_copy.simps, simp add: fun_upd_idem)

text \<open>A copy to \<open>k\<close> bytes behind its source overwrites the NUL before it is read.\<close>

lemma ahead_shift:
  fixes a :: addr
  assumes "\<forall>i < k. m (a + of_nat i) \<noteq> 0" and "0 < k"
  shows "\<forall>i < k. (m(a + of_nat k := m a)) (a + 1 + of_nat i) \<noteq> (0 :: u8)"
proof (intro allI impI)
  fix i
  assume "i < k"
  then consider "Suc i = k" | "Suc i < k" by linarith
  then show "(m(a + of_nat k := m a)) (a + 1 + of_nat i) \<noteq> 0"
  proof cases
    case 1
    then show ?thesis using assms(1) [rule_format, of 0] by (auto simp: algebra_simps)
  next
    case 2
    then show ?thesis using assms(1) [rule_format, of "Suc i"] assms(1) [rule_format, of 0] by (auto simp: algebra_simps)
  qed
qed

definition ahead :: "nat \<Rightarrow> addr \<Rightarrow> addr \<Rightarrow> mem \<Rightarrow> bool" where
  "ahead k dst src m \<longleftrightarrow> 0 < k \<and> dst = src + of_nat k \<and> (\<forall>i < k. m (src + of_nat i) \<noteq> 0)"

lemma ahead_byte: "ahead k dst src m \<Longrightarrow> m src \<noteq> 0"
  using spec [of "\<lambda>i. i < k \<longrightarrow> m (src + of_nat i) \<noteq> 0" 0] by (simp add: ahead_def)

lemma ahead_step: "ahead k dst src m \<Longrightarrow> ahead k (dst + 1) (src + 1) (m(dst := m src))"
proof -
  assume a: "ahead k dst src m"
  then have dst: "dst = src + of_nat k" and k: "0 < k" and nz: "\<forall>i < k. m (src + of_nat i) \<noteq> 0" by (simp_all add: ahead_def)
  have "dst + 1 = src + 1 + of_nat k" by (simp add: dst)
  then show ?thesis unfolding ahead_def using k ahead_shift [OF nz k, folded dst] by blast
qed

lemma copy_not_ahead:
  "strcpy_loop dst src m = Some r \<Longrightarrow> \<not> ahead k dst src m" "strcat_copy dst src m = Some r \<Longrightarrow> \<not> ahead k dst src m"
proof -
  show "\<not> ahead k dst src m" if "strcpy_loop dst src m = Some r"
    by (rule strcpy_loop.raw_induct [of "\<lambda>d s m r. \<not> ahead k d s m", OF _ that]) (use ahead_step ahead_byte in \<open>fastforce split: if_splits\<close>)
  show "\<not> ahead k dst src m" if "strcat_copy dst src m = Some r"
    by (rule strcat_copy.raw_induct [of "\<lambda>d s m r. \<not> ahead k d s m", OF _ that]) (use ahead_step ahead_byte in \<open>fastforce split: if_splits\<close>)
qed

lemma copy_ahead_None:
  assumes "\<forall>i < k. m (src + of_nat i) \<noteq> 0" and "0 < k"
  shows "strcpy_loop (src + of_nat k) src m = None" and "strcat_copy (src + of_nat k) src m = None"
proof -
  have "ahead k (src + of_nat k) src m" using assms by (simp add: ahead_def)
  then show "strcpy_loop (src + of_nat k) src m = None" "strcat_copy (src + of_nat k) src m = None"
    using copy_not_ahead by (meson option.exhaust)+
qed

section \<open>Properties\<close>

text \<open>\<open>memcpy\<close> copies \<open>n\<close> bytes and touches nothing else, whenever no source byte is overwritten
  before it is read (in particular for \<open>dst\<close> below \<open>src\<close> and for disjoint blocks).\<close>

theorem memcpy_copies:
  assumes "dst \<noteq> NULL" and "src \<noteq> NULL" and "\<And>i j. i < j \<Longrightarrow> j < n \<Longrightarrow> dst + i \<noteq> src + j"
  shows "\<exists>m'. memcpy dst src n m = Inr m' \<and> (\<forall>i. i < n \<longrightarrow> m' (dst + i) = m (src + i)) \<and>
    (\<forall>a. \<not> a - dst < n \<longrightarrow> m' a = m a)"
  using assms by (simp add: memcpy_def memcpy_loop_apply)

theorem memcpy_copies_witness:
  "\<exists>m'. memcpy 0x1000 0x2000 4 (\<lambda>a. ucast a) = Inr m' \<and> (\<forall>i. i < 4 \<longrightarrow> m' (0x1000 + i) = (ucast (0x2000 + i) :: u8)) \<and>
    (\<forall>a. \<not> a - 0x1000 < 4 \<longrightarrow> m' a = ucast a)"
proof (rule memcpy_copies)
  show "(0x1000 :: u32) + i \<noteq> 0x2000 + j" if "i < j" "j < 4" for i j :: u32
    using that by (simp add: word_less_nat_alt word_unat_eq_iff unat_word_ariths)
qed simp_all

text \<open>\<open>strcmp\<close> on two C strings returns 0 exactly for equal strings, -1 exactly when the first is smaller
  in the lexicographic order on signed bytes, and the negated result for swapped arguments.\<close>

theorem strcmp_order:
  assumes "cstr m a xs" and "cstr m b ys" and "a \<noteq> NULL" and "b \<noteq> NULL"
  shows "\<exists>r. strcmp a b m = Inr r \<and> strcmp b a m = Inr (- r) \<and> (r = 0 \<longleftrightarrow> xs = ys) \<and>
    (r = -1 \<longleftrightarrow> (xs, ys) \<in> lexord {(x, y). x <s y}) \<and> r \<in> {-1, 0, 1}"
proof -
  have "strcmp a b m = Inr (strcmp_spec xs ys)" "strcmp b a m = Inr (strcmp_spec ys xs)"
    using assms by (simp_all add: strcmp_def of_loop_def strcmp_loop_cstr)
  moreover have "strcmp_spec xs ys \<in> {-1, 0, 1}"
    by (induction xs ys rule: strcmp_spec.induct) auto
  ultimately show ?thesis
    using strcmp_spec_sym [of ys xs]
    by (intro exI [of _ "strcmp_spec xs ys"]) (simp only: strcmp_spec_eq_0 strcmp_spec_lexord simp_thms)
qed

theorem strcmp_order_witness:
  "strcmp 1 4 ((\<lambda>_. 0)(1 := 0x61, 2 := 0x62, 4 := 0x61, 5 := 0x63)) = Inr (-1)"
proof -
  let ?m = "(\<lambda>_. 0)(1 := 0x61, 2 := 0x62, 4 := 0x61, 5 := 0x63) :: mem"
  have "([0x61, 0x62], [0x61, 0x63 :: u8]) \<in> lexord {(x, y). x <s y}" by (simp add: word_sless_alt)
  moreover have c: "cstr ?m 1 [0x61, 0x62]" "cstr ?m 4 [0x61, 0x63]" "(1 :: u32) \<noteq> 0" "(4 :: u32) \<noteq> 0" by simp_all
  ultimately obtain r where "strcmp 1 4 ?m = Inr r" "r = -1"
    using strcmp_order [OF c] by blast
  then show ?thesis by (simp only:)
qed

text \<open>\<open>strcat\<close> appends: after it the destination holds the concatenated string, for a source that lies
  outside the destination's bytes, old and new.\<close>

theorem strcat_concat:
  assumes "cstr m dst xs" and "cstr m src ys" and "dst \<noteq> NULL" and "src \<noteq> NULL"
    and "length xs + length ys < 2 ^ 32 - 1" and "apart (dst + of_nat (length xs)) src (length ys)"
  shows "\<exists>m'. strcat dst src m = Inr (dst, m') \<and> cstr m' dst (xs @ ys)"
proof -
  let ?e = "dst + of_nat (length xs)"
  let ?m = "put_bytes ?e (ys @ [0]) m"
  have run: "strcat dst src m = Inr (dst, ?m)"
    using assms by (simp add: strcat_def of_loop_def strcat_end_cstr strcat_copy_cstr)
  have low: "?m (dst + of_nat i) = m (dst + of_nat i)" if "i < length xs" for i
  proof -
    have "of_nat (2 ^ 32 - (length xs - i)) = - (of_nat (length xs - i) :: u32)"
      using that assms(5) by (subst of_nat_diff) simp_all
    then have "dst + of_nat i = ?e + of_nat (2 ^ 32 - (length xs - i))"
      using that by (simp add: of_nat_diff)
    moreover have "?m (?e + of_nat (2 ^ 32 - (length xs - i))) = m (?e + of_nat (2 ^ 32 - (length xs - i)))"
      using that assms(5) by (intro put_bytes_beyond) simp_all
    ultimately show ?thesis by (simp only:)
  qed
  have high: "?m (?e + of_nat i) = (ys @ [0]) ! i" if "i \<le> length ys" for i
    using that assms(5) by (intro put_bytes_at) simp_all
  have "cstr ?m dst (xs @ ys)"
    unfolding cstr_iff
  proof (intro conjI allI impI)
    show "?m (dst + of_nat (length (xs @ ys))) = 0" using high [of "length ys"] by (simp add: add.assoc)
    fix i
    assume i: "i < length (xs @ ys)"
    have "?m (dst + of_nat i) = (xs @ ys) ! i \<and> (xs @ ys) ! i \<noteq> 0"
    proof (cases "i < length xs")
      case True
      then show ?thesis using low cstr_nth [OF assms(1)] by (simp only: nth_append if_True) blast
    next
      case False
      define j where "j = i - length xs"
      have j: "i = length xs + j" "j < length ys" using False i by (auto simp: j_def)
      then have "?m (?e + of_nat j) = ys ! j" using high [of j] by (simp add: nth_append)
      moreover have "ys ! j \<noteq> 0" using cstr_nth [OF assms(2) j(2)] by simp
      ultimately show ?thesis using j by (simp add: nth_append add.assoc)
    qed
    then show "?m (dst + of_nat i) = (xs @ ys) ! i" "(xs @ ys) ! i \<noteq> 0" by blast+
  qed
  with run show ?thesis by blast
qed

theorem strcat_concat_witness:
  "\<exists>m'. strcat 1 8 ((\<lambda>_. 0)(1 := 0x61, 8 := 0x62)) = Inr (1, m') \<and> cstr m' 1 [0x61, 0x62]"
  using strcat_concat [of "(\<lambda>_. 0)(1 := 0x61, 8 := 0x62)" 1 "[0x61]" 8 "[0x62]"]
  by (simp add: apart_1)

text \<open>C40. The loops of \<open>string.c\<close> that run to a NUL byte.  When memory holds a NUL byte anywhere, the string at every
  address has fewer than 2^32 characters; \<open>strlen\<close> counts them, and \<open>strchr\<close>, \<open>strrchr\<close> and \<open>strchrs\<close> return.  \<open>strcpy\<close> of the string to its
  own address changes nothing, but to any later address up to its end it never returns; \<open>strcat\<close> of the string to itself returns only when
  the string is empty.  When memory holds no NUL byte, \<open>strlen\<close>, \<open>strrchr\<close> and \<open>strchrs\<close> never return, and \<open>strchr\<close> returns a
  match if there is one and otherwise never returns.\<close>

theorem string_loops_end:
  assumes "a \<noteq> NULL"
  shows "if \<exists>b. m b = 0
    then \<exists>cs. cstr m a cs \<and> length cs < 2 ^ 32 \<and> strlen a m = Inr (of_nat (length cs)) \<and>
      (\<exists>p q n. strchr a ch m = Inr p \<and> strrchr a ch m = Inr q \<and> strchrs a ch m = Inr n) \<and>
      strcpy a a m = Inr (a, m) \<and> (\<forall>k. 0 < k \<and> k \<le> length cs \<longrightarrow> strcpy (a + of_nat k) a m = Inl Diverge) \<and>
      strcat a a m = (if cs = [] then Inr (a, m) else Inl Diverge)
    else strlen a m = Inl Diverge \<and> strrchr a ch m = Inl Diverge \<and> strchrs a ch m = Inl Diverge \<and>
      (if \<exists>b. char_eq (m b) ch then \<exists>p. strchr a ch m = Inr p \<and> char_eq (m p) ch else strchr a ch m = Inl Diverge)"
proof (cases "\<exists>b. m b = 0")
  case True
  then obtain cs where cs: "cstr m a cs" "length cs < 2 ^ 32" using cstr_exists [of m] by metis
  have nz: "\<forall>i < k. m (a + of_nat i) \<noteq> 0" if "k \<le> length cs" for k using cstr_nth [OF cs(1)] that by fastforce
  have "strcpy (a + of_nat k) a m = Inl Diverge" if "0 < k" "k \<le> length cs" for k
    using copy_ahead_None(1) [OF nz [OF that(2)] that(1)] by (simp add: strcpy_def of_loop_def)
  moreover have "strcat a a m = (if cs = [] then Inr (a, m) else Inl Diverge)"
  proof (cases "cs = []")
    case True
    then show ?thesis using cs(1) assms by (simp add: strcat_def strcat_self_empty)
  next
    case False
    then show ?thesis
      using copy_ahead_None(2) [OF nz [OF order_refl]] assms by (simp add: strcat_def of_loop_def strcat_end_cstr [OF cs(1)])
  qed
  moreover have "strcpy a a m = Inr (a, m)" by (simp add: strcpy_def strcpy_loop_self [OF cs(1)])
  moreover have "\<exists>p q n. strchr a ch m = Inr p \<and> strrchr a ch m = Inr q \<and> strchrs a ch m = Inr n" "strlen a m = Inr (of_nat (length cs))"
    using cs(1) assms by (simp_all add: strlen_def strchr_def strrchr_def strchrs_def of_loop_def strlen_loop_cstr strchr_loop_cstr
        strrchr_loop_cstr strchrs_loop_cstr)
  ultimately show ?thesis unfolding if_P [OF True] using cs by blast
next
  case False
  then have nz: "\<forall>b. m b \<noteq> 0" by simp
  have "if \<exists>b. char_eq (m b) ch then \<exists>p. strchr a ch m = Inr p \<and> char_eq (m p) ch else strchr a ch m = Inl Diverge"
  proof (cases "\<exists>b. char_eq (m b) ch")
    case True
    then obtain b where "char_eq (m (a + of_nat (unat (b - a)))) ch" by auto
    from strchr_loop_match [OF nz this] True show ?thesis using assms by (auto simp: strchr_def)
  next
    case none: False
    then show ?thesis using strchr_loop_None [OF nz none] assms by (simp add: strchr_def)
  qed
  with False show ?thesis using assms string_loops_None [of m] by (simp add: strlen_def strrchr_def strchrs_def of_loop_def)
qed

theorem string_loops_end_witness:
  "strlen 1 (\<lambda>_. 7) = Inl Diverge \<and> (\<exists>p. strchr 1 7 (\<lambda>_. 7) = Inr p) \<and> strcpy 9 8 ((\<lambda>_. 7)(9 := 0)) = Inl Diverge \<and> strcat 8 8 ((\<lambda>_. 7)(9 := 0)) = Inl Diverge"
proof -
  let ?m = "(\<lambda>_. 7)(9 := 0) :: mem"
  have c: "cstr ?m 8 [7]" by simp
  have nul: "\<exists>b. ?m b = 0" by (rule exI [of _ 9]) simp
  obtain cs where cs: "cstr ?m 8 cs" "\<forall>k. 0 < k \<and> k \<le> length cs \<longrightarrow> strcpy (8 + of_nat k) 8 ?m = Inl Diverge"
    "strcat 8 8 ?m = (if cs = [] then Inr (8, ?m) else Inl Diverge)"
    using string_loops_end [of 8 ?m] unfolding if_P [OF nul] by auto
  have "cs = [7]" by (rule cstr_unique [OF cs(1) c])
  moreover have "char_eq 7 7" by (simp add: char_eq_def)
  ultimately show ?thesis using cs(2) [rule_format, of 1] cs(3) string_loops_end [of 1 "\<lambda>_. 7" 7] by simp
qed

text \<open>\<open>strcpy\<close> copies the characters of the source and nothing more: the byte behind them, where a C
  string would end, keeps its old value, so the copy is terminated only if that byte was already 0.\<close>

theorem strcpy_unterminated:
  assumes "cstr m src cs" and "apart dst src (length cs)" and "length cs < 2 ^ 32 - 1"
  shows "\<exists>m'. strcpy dst src m = Inr (dst, m') \<and> (\<forall>i. i < length cs \<longrightarrow> m' (dst + of_nat i) = cs ! i) \<and>
    m' (dst + of_nat (length cs)) = m (dst + of_nat (length cs)) \<and>
    (cstr m' dst cs \<longleftrightarrow> m (dst + of_nat (length cs)) = 0)"
proof -
  let ?m = "put_bytes dst cs m"
  have "strcpy dst src m = Inr (dst, ?m)"
    using assms by (simp add: strcpy_def of_loop_def strcpy_loop_cstr)
  moreover have at: "?m (dst + of_nat i) = cs ! i" if "i < length cs" for i
    using that assms(3) by (intro put_bytes_at) simp_all
  moreover have fin: "?m (dst + of_nat (length cs)) = m (dst + of_nat (length cs))"
    using assms(3) by (intro put_bytes_beyond) simp_all
  moreover have "cstr ?m dst cs \<longleftrightarrow> m (dst + of_nat (length cs)) = 0"
    unfolding cstr_iff using at fin cstr_nth [OF assms(1)] by auto
  ultimately show ?thesis by blast
qed

theorem strcpy_unterminated_witness:
  "\<exists>m'. strcpy 1 8 ((\<lambda>_. 7)(8 := 0x62, 9 := 0)) = Inr (1, m') \<and> m' 1 = 0x62 \<and> \<not> cstr m' 1 [0x62]"
  using strcpy_unterminated [of "(\<lambda>_. 7)(8 := 0x62, 9 := 0)" 8 "[0x62]" 1]
  by (auto simp: apart_1)

text \<open>\<open>strchr\<close>, \<open>strrchr\<close> and \<open>strchrs\<close> find an ASCII character: its first address, its last
  address, and how often it occurs.  A character of 128 or more is never found, even when
  the string holds it: the \<open>char\<close> of the string is sign-extended, the argument is not.\<close>

theorem string_search:
  assumes "cstr m a cs" and "a \<noteq> NULL"
  shows "strchrs a ch m = Inr (of_nat (if ch < 128 then count_list cs ch else 0)) \<and>
    strchr a ch m =
      Inr (if ch < 128 \<and> ch \<in> set cs then a + of_nat (length (takeWhile (\<lambda>c. c \<noteq> ch) cs)) else NULL) \<and>
    strrchr a ch m = Inr (if ch < 128 then last_match ch NULL a cs else NULL)"
proof -
  have eq: "char_eq c ch \<longleftrightarrow> ch < 128 \<and> c = ch" for c
    using char_eq_ascii [of ch c] char_eq_high [of ch c] by (cases "ch < 128") (simp_all add: not_less)
  have "last_match ch l b cs = l" if "\<not> ch < 128" for l b
    using that by (induction cs arbitrary: l b) (simp_all add: eq)
  moreover have "length (filter (\<lambda>c. ch < 128 \<and> c = ch) cs) = (if ch < 128 then count_list cs ch else 0)"
    by (induction cs) auto
  ultimately show ?thesis
    using assms by (auto simp: strchrs_def strchr_def strrchr_def of_loop_def strchrs_loop_cstr strchr_loop_cstr
        strrchr_loop_cstr eq)
qed

theorem string_search_witness:
  "strchr 1 0x62 ((\<lambda>_. 0)(1 := 0x61, 2 := 0x62, 3 := 0x90)) = Inr 2 \<and>
   strchr 1 0x90 ((\<lambda>_. 0)(1 := 0x61, 2 := 0x62, 3 := 0x90)) = Inr NULL"
  using string_search [of "(\<lambda>_. 0)(1 := 0x61, 2 := 0x62, 3 := 0x90)" 1 "[0x61, 0x62, 0x90]"]
  by simp

end
