(* ===== verification/Bitmap.thy ===== *)
theory Bitmap
  imports KString
begin

text \<open>
  \<open>src/lib/kernel/bitmap.c\<close>: a bit array in byte memory.  The operations take the descriptor
  (\<open>struct bitmap\<close>) and the memory; \<open>bitmap_set\<close> and \<open>bitmap_init\<close> return the new memory.  The
  \<open>int\<close> that \<open>bitmap_scan\<close> returns is a 32-bit word, \<open>-1\<close> for failure.

  \<open>bit_free b m i\<close> reads bit \<open>i\<close> as a natural number; \<open>first_fit\<close> is the search the scan
  implements.
\<close>

section \<open>Model\<close>

record bitmap =
  btmp_bytes_len :: u32
  bits :: addr

definition bitmap_init :: "bitmap \<Rightarrow> mem \<Rightarrow> mem res" where
  "bitmap_init btmp m = memset (bits btmp) 0 (btmp_bytes_len btmp) m"

definition bitmap_scan_test :: "bitmap \<Rightarrow> u32 \<Rightarrow> mem \<Rightarrow> bool" where
  "bitmap_scan_test btmp bit_idx m =
     (let byte_idx = bit_idx div 8; bit_odd = bit_idx mod 8
      in m (bits btmp + byte_idx) AND push_bit (unat bit_odd) 1 \<noteq> 0)"

text \<open>The first loop: skip the bytes that are \<open>0xff\<close>.\<close>

function scan_byte :: "bitmap \<Rightarrow> mem \<Rightarrow> u32 \<Rightarrow> u32" where
  "scan_byte btmp m idx_byte =
     (if m (bits btmp + idx_byte) = 0xff \<and> idx_byte < btmp_bytes_len btmp
      then scan_byte btmp m (idx_byte + 1) else idx_byte)"
  by pat_completeness auto
termination
  by (relation "measure (\<lambda>(b, m, i). unat (btmp_bytes_len b) - unat i)")
    (auto simp: unat_inc_less word_less_nat_alt)

text \<open>The second loop: the first clear bit of that byte; \<open>(uint8_t)(1 << 8)\<close> is 0, so it ends.\<close>

function scan_bit :: "u8 \<Rightarrow> nat \<Rightarrow> nat" where
  "scan_bit byte idx_bit =
     (if push_bit idx_bit 1 AND byte \<noteq> 0 then scan_bit byte (Suc idx_bit) else idx_bit)"
  by pat_completeness auto
termination
proof (relation "measure (\<lambda>(b, i). 8 - i)", goal_cases)
  case (2 byte i)
  have "(2 :: u8) ^ i = 0" if "8 \<le> i" using that by (simp add: exp_eq_zero_iff)
  with 2 have "i < 8" by (cases "i < 8") (auto simp: push_bit_of_1)
  then show ?case by simp
qed simp

text \<open>The third loop: count consecutive clear bits.\<close>

function scan_run :: "bitmap \<Rightarrow> mem \<Rightarrow> u32 \<Rightarrow> u32 \<Rightarrow> u32 \<Rightarrow> u32 \<Rightarrow> u32" where
  "scan_run btmp m cnt bit_left next_bit n =
     (if bit_left > 0 then
        let n' = (if \<not> bitmap_scan_test btmp next_bit m then n + 1 else 0)
        in if cnt = n' then next_bit - cnt + 1
           else scan_run btmp m cnt (bit_left - 1) (next_bit + 1) n'
      else -1)"
  by pat_completeness auto
termination
  by (relation "measure (\<lambda>(b, m, cnt, bit_left, p, n). unat bit_left)") (auto simp: word_gt_0)

definition bitmap_scan :: "bitmap \<Rightarrow> u32 \<Rightarrow> mem \<Rightarrow> u32 res" where
  "bitmap_scan btmp cnt m =
     (let idx_byte = scan_byte btmp m 0 in
      ASSERT (idx_byte < btmp_bytes_len btmp) ''bitmap_scan'' ''idx_byte < btmp->btmp_bytes_len''
       (if idx_byte = btmp_bytes_len btmp then Inr (-1)
        else
          let idx_bit = scan_bit (m (bits btmp + idx_byte)) 0;
              bit_idx_start = idx_byte * 8 + of_nat idx_bit
          in if cnt = 1 then Inr bit_idx_start
             else
               let bit_left = btmp_bytes_len btmp * 8 - bit_idx_start;
                   next_bit = bit_idx_start + 1
               in Inr (scan_run btmp m cnt bit_left next_bit 1)))"

definition bitmap_set :: "bitmap \<Rightarrow> u32 \<Rightarrow> u8 \<Rightarrow> mem \<Rightarrow> mem res" where
  "bitmap_set btmp bit_idx v m =
     ASSERT (0 = v \<or> 1 = v) ''bitmap_set'' ''0 == value || 1 == value''
      (let byte_idx = bit_idx div 8; bit_odd = bit_idx mod 8; a = bits btmp + byte_idx
       in Inr (if v \<noteq> 0 then m(a := m a OR push_bit (unat bit_odd) 1)
               else m(a := m a AND NOT (push_bit (unat bit_odd) 1))))"

declare scan_byte.simps [simp del] scan_bit.simps [simp del] scan_run.simps [simp del]

section \<open>Reference view\<close>

definition bit_free :: "bitmap \<Rightarrow> mem \<Rightarrow> nat \<Rightarrow> bool" where
  "bit_free b m i \<longleftrightarrow> \<not> bit (m (bits b + of_nat (i div 8))) (i mod 8)"

definition run_free :: "(nat \<Rightarrow> bool) \<Rightarrow> nat \<Rightarrow> nat \<Rightarrow> bool" where
  "run_free free cnt r \<longleftrightarrow> (\<forall>i \<in> {r..<r + cnt}. free i)"

text \<open>The least start of a run of \<open>cnt\<close> free bits inside the first \<open>n\<close> bits.\<close>

definition first_fit :: "(nat \<Rightarrow> bool) \<Rightarrow> nat \<Rightarrow> nat \<Rightarrow> nat option" where
  "first_fit free n cnt = List.find (run_free free cnt) [0..<Suc n - cnt]"

lemma find_upt_Some:
  "List.find P [0..<n] = Some r \<longleftrightarrow> r < n \<and> P r \<and> (\<forall>i < r. \<not> P i)"
  by (auto simp: find_Some_iff)

lemma first_fit_SomeI:
  assumes "run_free free cnt r" and "r + cnt \<le> n" and "\<And>r'. r' < r \<Longrightarrow> \<not> run_free free cnt r'"
  shows "first_fit free n cnt = Some r"
  using assms by (auto simp: first_fit_def find_upt_Some)

lemma first_fit_NoneI:
  assumes "\<And>r. r + cnt \<le> n \<Longrightarrow> \<not> run_free free cnt r"
  shows "first_fit free n cnt = None"
  using assms by (auto simp: first_fit_def find_None_iff)

lemma first_fit_SomeD:
  assumes "first_fit free n cnt = Some r"
  shows "run_free free cnt r" and "r + cnt \<le> n"
  using assms by (auto simp: first_fit_def find_upt_Some)

section \<open>Bits\<close>

lemma of_nat_div8: "p < 2 ^ 32 \<Longrightarrow> (of_nat p :: u32) div 8 = of_nat (p div 8)"
  by (simp add: word_unat_eq_iff unat_div unat_of_nat)

lemma unat_of_nat_mod8: "p < 2 ^ 32 \<Longrightarrow> unat ((of_nat p :: u32) mod 8) = p mod 8"
  by (simp add: unat_mod unat_of_nat)

lemma bitmap_scan_test_of_nat: "p < 2 ^ 32 \<Longrightarrow> bitmap_scan_test b (of_nat p) m \<longleftrightarrow> \<not> bit_free b m p"
  by (simp add: bitmap_scan_test_def bit_free_def of_nat_div8 unat_of_nat_mod8 push_bit_of_1
      and_exp_eq_0_iff_not_bit)

lemma bitmap_set_Inr:
  "v = 0 \<or> v = 1 \<Longrightarrow> \<exists>m'. bitmap_set b i v m = Inr m'"
  by (auto simp: bitmap_set_def Let_def)

lemma div8_inj: "i \<noteq> j \<Longrightarrow> i div 8 = j div 8 \<Longrightarrow> i mod 8 \<noteq> j mod 8" for i j :: nat
  by (metis div_mult_mod_eq)

lemma of_nat_u32_inj: "i < 2 ^ 32 \<Longrightarrow> j < 2 ^ 32 \<Longrightarrow> (of_nat i :: u32) = of_nat j \<longleftrightarrow> i = j"
  by (simp add: word_of_nat_eq_iff take_bit_nat_eq_self)

text \<open>\<open>bitmap_set\<close> changes exactly the bit it is given.\<close>

lemma bit_free_bitmap_set:
  assumes "i < 2 ^ 32" and "j < 2 ^ 32" and "v = 0 \<or> v = 1"
    and "bitmap_set b (of_nat i) v m = Inr m'"
  shows "bit_free b m' j = (if j = i then v = 0 else bit_free b m j)"
proof -
  let ?a = "bits b + of_nat (i div 8)"
  have m': "m' = (if v \<noteq> 0 then m(?a := m ?a OR push_bit (i mod 8) 1)
                  else m(?a := m ?a AND NOT (push_bit (i mod 8) 1)))"
    using assms by (auto simp: bitmap_set_def Let_def of_nat_div8 unat_of_nat_mod8)
  have same: "(of_nat (j div 8) :: u32) = of_nat (i div 8) \<longleftrightarrow> j div 8 = i div 8"
    using assms by (intro of_nat_u32_inj) auto
  show ?thesis
    using assms(3) div8_inj [of j i]
    by (auto simp: m' bit_free_def same push_bit_of_1 bit_or_iff bit_and_iff bit_not_iff bit_exp_iff)
qed

lemma bit_0xff:
  assumes "n < 8"
  shows "bit (0xff :: u8) n"
proof -
  have "bit (-1 :: u8) n" using assms by (simp only: bit_minus_1_iff) simp
  moreover have "(-1 :: u8) = 0xff" by simp
  ultimately show ?thesis by (simp only:)
qed

lemma eq_0xff: "(\<And>n. n < 8 \<Longrightarrow> bit byte n) \<Longrightarrow> byte = 0xff" for byte :: u8
  by (rule bit_word_eqI) (simp only: len_num0 len_num1 len_bit0 bit_0xff)

lemma bit_free_0xff: "m (bits b + of_nat (i div 8)) = 0xff \<Longrightarrow> \<not> bit_free b m i"
  by (simp only: bit_free_def) (simp only: bit_0xff not_not pos_mod_bound)

section \<open>The loops of the scan\<close>

lemma scan_byte_spec:
  "i \<le> btmp_bytes_len b \<Longrightarrow>
   i \<le> scan_byte b m i \<and> scan_byte b m i \<le> btmp_bytes_len b \<and>
   (\<forall>k. i \<le> k \<and> k < scan_byte b m i \<longrightarrow> m (bits b + k) = 0xff) \<and>
   (scan_byte b m i < btmp_bytes_len b \<longrightarrow> m (bits b + scan_byte b m i) \<noteq> 0xff)"
proof (induction b m i rule: scan_byte.induct)
  case (1 b m i)
  show ?case
  proof (cases "m (bits b + i) = 0xff \<and> i < btmp_bytes_len b")
    case True
    then have next_le: "i + 1 \<le> btmp_bytes_len b" by (simp add: inc_le)
    have step: "i \<le> k \<longleftrightarrow> k = i \<or> i + 1 \<le> k" for k
      using True unat_inc_less [of i "btmp_bytes_len b"]
      by (auto simp: word_le_nat_alt word_unat_eq_iff)
    have eq: "scan_byte b m i = scan_byte b m (i + 1)"
      using True by (subst scan_byte.simps) simp
    show ?thesis
      using "1.IH" [OF True next_le] True unfolding eq step by blast
  next
    case False
    then have "scan_byte b m i = i" by (subst scan_byte.simps) auto
    with False "1.prems" show ?thesis by auto
  qed
qed

lemma scan_bit_spec:
  "byte \<noteq> 0xff \<Longrightarrow> (\<forall>k < i. bit byte k) \<Longrightarrow> i < 8 \<Longrightarrow>
   scan_bit byte i < 8 \<and> \<not> bit byte (scan_bit byte i) \<and> (\<forall>k < scan_bit byte i. bit byte k)"
proof (induction byte i rule: scan_bit.induct)
  case (1 byte i)
  have set: "push_bit i 1 AND byte \<noteq> 0 \<longleftrightarrow> bit byte i"
    by (simp add: push_bit_of_1 and.commute and_exp_eq_0_iff_not_bit)
  show ?case
  proof (cases "bit byte i")
    case True
    with "1.prems" have upto: "\<forall>k < Suc i. bit byte k" by (auto simp: less_Suc_eq)
    with "1.prems" have "Suc i < 8"
      using eq_0xff [of byte] by (metis Suc_lessI)
    with "1.IH" set True "1.prems"(1) upto show ?thesis
      by (subst (1 2 3) scan_bit.simps) simp
  next
    case False
    with "1.prems" set show ?thesis
      by (subst (1 2 3) scan_bit.simps) simp
  qed
qed

text \<open>
  What the counting loop keeps true when it looks at bit \<open>p\<close> with the counter at \<open>c\<close>: the last
  \<open>c\<close> bits are free, the bit before them is not, and no run of \<open>k\<close> free bits ends before \<open>p\<close>.
\<close>

definition run_inv :: "(nat \<Rightarrow> bool) \<Rightarrow> nat \<Rightarrow> nat \<Rightarrow> nat \<Rightarrow> bool" where
  "run_inv free k p c \<longleftrightarrow> c \<le> p \<and> c < k \<and> (\<forall>i \<in> {p - c..<p}. free i) \<and>
     (p = c \<or> \<not> free (p - c - 1)) \<and> (\<forall>r. r + k \<le> p \<longrightarrow> \<not> run_free free k r)"

lemma run_inv_used: "run_inv free k p c \<Longrightarrow> \<not> free p \<Longrightarrow> run_inv free k (Suc p) 0"
  by (auto simp: run_inv_def run_free_def le_Suc_eq)

lemma run_inv_free:
  assumes "run_inv free k p c" and "free p" and "Suc c \<noteq> k"
  shows "run_inv free k (Suc p) (Suc c)"
proof -
  have "\<not> run_free free k r" if "r + k = Suc p" for r
  proof -
    from assms that have "p \<noteq> c" "p - c - 1 \<in> {r..<r + k}" by (auto simp: run_inv_def)
    with assms(1) show ?thesis by (auto simp: run_inv_def run_free_def)
  qed
  with assms show ?thesis by (auto simp: run_inv_def le_Suc_eq less_Suc_eq)
qed

lemma run_inv_found:
  assumes "run_inv free k p c" and "free p" and "Suc c = k" and "p < n"
  shows "first_fit free n k = Some (p - c)"
proof (rule first_fit_SomeI)
  from assms show "run_free free k (p - c)" "p - c + k \<le> n"
    by (auto simp: run_inv_def run_free_def less_Suc_eq)
  fix r'
  assume "r' < p - c"
  with assms have "r' + k \<le> p" by (auto simp: run_inv_def)
  with assms(1) show "\<not> run_free free k r'" by (simp add: run_inv_def)
qed

definition scan_result :: "nat option \<Rightarrow> u32" where
  "scan_result x = (case x of None \<Rightarrow> -1 | Some r \<Rightarrow> of_nat r)"

lemma scan_run_first_fit:
  "run_inv (bit_free b m) k p c \<Longrightarrow> p + l < 2 ^ 32 \<Longrightarrow> k < 2 ^ 32 \<Longrightarrow>
   scan_run b m (of_nat k) (of_nat l) (of_nat p) (of_nat c) =
     scan_result (first_fit (bit_free b m) (p + l) k)"
proof (induction l arbitrary: p c)
  case 0
  then have "first_fit (bit_free b m) p k = None"
    by (intro first_fit_NoneI) (auto simp: run_inv_def)
  then show ?case by (subst scan_run.simps) (simp add: scan_result_def)
next
  case (Suc l)
  let ?free = "bit_free b m"
  have pos: "(of_nat (Suc l) :: u32) > 0"
    using Suc.prems by (simp add: word_gt_0 word_unat_eq_iff unat_of_nat del: of_nat_Suc)
  have test: "bitmap_scan_test b (of_nat p) m \<longleftrightarrow> \<not> ?free p"
    using Suc.prems by (intro bitmap_scan_test_of_nat) simp
  have ck: "c < k" using Suc.prems by (simp add: run_inv_def)
  have cnt: "(of_nat k :: u32) = of_nat j \<longleftrightarrow> k = j" if "j \<le> k" for j
    using Suc.prems that by (intro of_nat_u32_inj) auto
  have unfold: "scan_run b m (of_nat k) (of_nat (Suc l)) (of_nat p) (of_nat c) =
      (let c' = (if ?free p then Suc c else 0)
       in if k = c' then of_nat p - of_nat k + 1
          else scan_run b m (of_nat k) (of_nat l) (of_nat (Suc p)) (of_nat c'))"
    using pos ck cnt [of "Suc c"] cnt [of 0]
    by (subst scan_run.simps) (simp add: test Let_def algebra_simps)
  show ?case
  proof (cases "?free p")
    case False
    with Suc.prems have "run_inv ?free k (Suc p) 0" by (blast intro: run_inv_used)
    from Suc.IH [OF this] False ck Suc.prems show ?thesis
      unfolding unfold by (simp add: Let_def)
  next
    case True
    show ?thesis
    proof (cases "k = Suc c")
      case True
      with Suc.prems(1) \<open>?free p\<close> have ff: "first_fit ?free (p + Suc l) k = Some (p - c)"
        by (intro run_inv_found) auto
      have "c \<le> p" using Suc.prems by (simp add: run_inv_def)
      then show ?thesis
        unfolding unfold ff using True \<open>?free p\<close> by (simp add: scan_result_def of_nat_diff)
    next
      case False
      with Suc.prems True have "run_inv ?free k (Suc p) (Suc c)" by (blast intro: run_inv_free)
      from Suc.IH [OF this] False True Suc.prems show ?thesis
        unfolding unfold by (simp add: Let_def)
    qed
  qed
qed

section \<open>The scan\<close>

definition bitmap_bits :: "bitmap \<Rightarrow> nat" where
  "bitmap_bits b = 8 * unat (btmp_bytes_len b)"

text \<open>The bit numbers of the bitmap are \<open>int\<close> values.\<close>

definition bitmap_wf :: "bitmap \<Rightarrow> bool" where
  "bitmap_wf b \<longleftrightarrow> bitmap_bits b < 2 ^ 31"

definition bitmap_full :: "bitmap \<Rightarrow> mem \<Rightarrow> bool" where
  "bitmap_full b m \<longleftrightarrow> (\<forall>i < bitmap_bits b. \<not> bit_free b m i)"

text \<open>The bit at which the first two loops stop: the least free bit.\<close>

definition first_free :: "bitmap \<Rightarrow> mem \<Rightarrow> nat" where
  "first_free b m = 8 * unat (scan_byte b m 0) + scan_bit (m (bits b + scan_byte b m 0)) 0"

lemma scan_byte_full:
  assumes "bitmap_full b m"
  shows "scan_byte b m 0 = btmp_bytes_len b"
proof (rule ccontr)
  let ?i = "scan_byte b m 0"
  assume "?i \<noteq> btmp_bytes_len b"
  then have i: "?i < btmp_bytes_len b" "m (bits b + ?i) \<noteq> 0xff"
    using scan_byte_spec [of 0 b m] by auto
  have "bit (m (bits b + ?i)) n" if "n < 8" for n
  proof -
    from i(1) that have "8 * unat ?i + n < bitmap_bits b"
      by (simp add: bitmap_bits_def word_less_nat_alt)
    with assms have "\<not> bit_free b m (8 * unat ?i + n)" by (simp add: bitmap_full_def)
    with that show ?thesis by (simp add: bit_free_def)
  qed
  with i(2) show False using eq_0xff by blast
qed

lemma first_free_spec:
  assumes "\<not> bitmap_full b m"
  shows "scan_byte b m 0 < btmp_bytes_len b" and "first_free b m < bitmap_bits b"
    and "bit_free b m (first_free b m)" and "i < first_free b m \<Longrightarrow> \<not> bit_free b m i"
proof -
  let ?k = "scan_byte b m 0"
  let ?byte = "m (bits b + ?k)"
  have skip: "m (bits b + k) = 0xff" if "k < ?k" for k
    using scan_byte_spec [of 0 b m] that by simp
  show k: "?k < btmp_bytes_len b"
  proof (rule ccontr)
    assume "\<not> ?k < btmp_bytes_len b"
    then have k_len: "?k = btmp_bytes_len b" using scan_byte_spec [of 0 b m] by auto
    have "\<not> bit_free b m i" if "i < bitmap_bits b" for i
    proof (rule bit_free_0xff, rule skip)
      from that have "i div 8 < unat (btmp_bytes_len b)" by (auto simp: bitmap_bits_def)
      then show "of_nat (i div 8) < ?k"
        unfolding k_len word_less_nat_alt
        using order_less_trans [OF _ unsigned_less [of "btmp_bytes_len b"]] by (simp add: unat_of_nat)
    qed
    with assms show False by (simp add: bitmap_full_def)
  qed
  then have "?byte \<noteq> 0xff" using scan_byte_spec [of 0 b m] by auto
  then have s: "scan_bit ?byte 0 < 8" "\<not> bit ?byte (scan_bit ?byte 0)"
      "\<And>n. n < scan_bit ?byte 0 \<Longrightarrow> bit ?byte n"
    using scan_bit_spec [of ?byte 0] by auto
  from k s(1) show "first_free b m < bitmap_bits b"
    by (simp add: first_free_def bitmap_bits_def word_less_nat_alt)
  from s(1,2) show "bit_free b m (first_free b m)" by (simp add: bit_free_def first_free_def)
  show "\<not> bit_free b m i" if i: "i < first_free b m"
  proof (cases "i div 8 < unat ?k")
    case True
    then show ?thesis
      using order_less_trans [OF _ unsigned_less [of ?k]]
      by (intro bit_free_0xff skip) (simp add: word_less_nat_alt unat_of_nat)
  next
    case False
    with i s(1) have "i div 8 = unat ?k" "i mod 8 < scan_bit ?byte 0"
      by (auto simp: first_free_def) presburger+
    with s(3) show ?thesis by (simp add: bit_free_def)
  qed
qed

lemma run_inv_first_free:
  assumes "\<not> bitmap_full b m" and "1 < k"
  shows "run_inv (bit_free b m) k (Suc (first_free b m)) 1"
  unfolding run_inv_def
proof (intro conjI allI impI)
  note ff = first_free_spec [OF assms(1)]
  show "Suc (first_free b m) = 1 \<or> \<not> bit_free b m (Suc (first_free b m) - 1 - 1)"
    using ff(4) [of "first_free b m - 1"] by (cases "first_free b m") auto
  fix r
  assume "r + k \<le> Suc (first_free b m)"
  with assms(2) have "r < first_free b m" by simp
  with ff(4) [of r] assms(2) show "\<not> run_free (bit_free b m) k r"
    by (auto simp: run_free_def intro!: bexI [of _ r])
qed (use assms first_free_spec(3) [OF assms(1)] in \<open>auto simp: less_Suc_eq\<close>)

lemma first_fit_1:
  assumes "\<not> bitmap_full b m"
  shows "first_fit (bit_free b m) (bitmap_bits b) 1 = Some (first_free b m)"
  using first_free_spec [OF assms] by (intro first_fit_SomeI) (auto simp: run_free_def)

lemma bitmap_scan_full:
  "bitmap_full b m \<Longrightarrow>
   bitmap_scan b cnt m = Inl (Panic ''bitmap_scan'' ''idx_byte < btmp->btmp_bytes_len'')"
  by (simp add: bitmap_scan_def scan_byte_full)

lemma bitmap_scan_fit:
  assumes wf: "bitmap_wf b" and nf: "\<not> bitmap_full b m" and cnt: "cnt \<noteq> 0"
  shows "bitmap_scan b cnt m = Inr (scan_result (first_fit (bit_free b m)
           (if cnt = 1 then bitmap_bits b else Suc (bitmap_bits b)) (unat cnt)))"
proof -
  let ?f = "first_free b m"
  note ff = first_free_spec [OF nf]
  have start: "scan_byte b m 0 * 8 + of_nat (scan_bit (m (bits b + scan_byte b m 0)) 0) = (of_nat ?f :: u32)"
    by (simp add: first_free_def)
  have left: "btmp_bytes_len b * 8 - of_nat ?f = (of_nat (bitmap_bits b - ?f) :: u32)"
    using ff(2) by (simp add: bitmap_bits_def of_nat_diff)
  have body: "bitmap_scan b cnt m = Inr (if cnt = 1 then of_nat ?f
      else scan_run b m cnt (of_nat (bitmap_bits b - ?f)) (of_nat (Suc ?f)) 1)"
    using ff(1) by (auto simp: bitmap_scan_def Let_def start left add.commute)
  show ?thesis
  proof (cases "cnt = 1")
    case True
    then show ?thesis
      unfolding body using first_fit_1 [OF nf] by (simp add: scan_result_def)
  next
    case False
    with cnt have k: "1 < unat cnt" by (metis One_nat_def Suc_lessI unat_1 unat_gt_0 word_unat_eq_iff)
    have "scan_run b m (of_nat (unat cnt)) (of_nat (bitmap_bits b - ?f)) (of_nat (Suc ?f)) (of_nat 1) =
        scan_result (first_fit (bit_free b m) (Suc ?f + (bitmap_bits b - ?f)) (unat cnt))"
      using wf ff(2) unsigned_less [of cnt, where 'a = nat]
      by (intro scan_run_first_fit run_inv_first_free [OF nf k]) (auto simp: bitmap_wf_def)
    with False ff(2) show ?thesis by (simp add: body)
  qed
qed

section \<open>Runs of bits\<close>

text \<open>
  The interface the allocators rely on: marking bit \<open>i\<close> makes it used and changes no other bit.
  From it: what marking a whole run does, and that two searches around it return disjoint runs.
\<close>

locale bit_array =
  fixes free :: "'m \<Rightarrow> nat \<Rightarrow> bool"
    and mark :: "nat \<Rightarrow> 'm \<Rightarrow> 'm"
    and bound :: nat
  assumes free_mark: "i < bound \<Longrightarrow> j < bound \<Longrightarrow> free (mark i m) j \<longleftrightarrow> j \<noteq> i \<and> free m j"
begin

lemma free_mark_run:
  assumes "r + n \<le> bound" and "j < bound"
  shows "free (fold mark [r..<r + n] m) j \<longleftrightarrow> free m j \<and> j \<notin> {r..<r + n}"
  using assms by (induction n) (auto simp: free_mark)

lemma runs_disjoint:
  assumes "first_fit (free m) k n = Some r" and "k \<le> bound"
    and "first_fit (free (fold mark [r..<r + n] m)) k n' = Some r'"
  shows "{r..<r + n} \<inter> {r'..<r' + n'} = {}"
proof (rule ccontr)
  assume "{r..<r + n} \<inter> {r'..<r' + n'} \<noteq> {}"
  then obtain j where j: "j \<in> {r..<r + n}" "j \<in> {r'..<r' + n'}" by blast
  have "r + n \<le> bound" using first_fit_SomeD(2) [OF assms(1)] assms(2) by simp
  then have "\<not> free (fold mark [r..<r + n] m) j" using j(1) free_mark_run [of r n j m] by auto
  moreover have "free (fold mark [r..<r + n] m) j"
    using first_fit_SomeD(1) [OF assms(3)] j(2) by (simp add: run_free_def)
  ultimately show False by contradiction
qed

end

definition mark_bit :: "bitmap \<Rightarrow> nat \<Rightarrow> mem \<Rightarrow> mem" where
  "mark_bit b i m = projr (bitmap_set b (of_nat i) 1 m)"

lemma bitmap_set_mark: "bitmap_set b (of_nat i) 1 m = Inr (mark_bit b i m)"
  by (simp add: mark_bit_def bitmap_set_def Let_def)

interpretation bm: bit_array "bit_free b" "mark_bit b" "2 ^ 32" for b
  using bit_free_bitmap_set [of _ _ 1 b] bitmap_set_mark by unfold_locales auto

section \<open>Properties\<close>

text \<open>C36. \<open>bitmap_scan\<close> on a bitmap with a free bit returns the start of the first run of \<open>cnt\<close> free bits, and
  -1 when there is none.  For one bit the search covers the bitmap; for longer runs it covers one
  bit more than the bitmap has.\<close>

theorem bitmap_scan_first_fit:
  assumes "bitmap_wf b" and "\<not> bitmap_full b m" and "cnt \<noteq> 0"
  shows "bitmap_scan b cnt m = Inr (case first_fit (bit_free b m)
      (if cnt = 1 then bitmap_bits b else Suc (bitmap_bits b)) (unat cnt) of None \<Rightarrow> -1 | Some r \<Rightarrow> of_nat r)"
  using bitmap_scan_fit [OF assms] by (simp only: scan_result_def)

theorem bitmap_scan_first_fit_witness:
  "bitmap_scan \<lparr>btmp_bytes_len = 1, bits = 0\<rparr> 2 ((\<lambda>_. 0)(0 := 0x7f)) = Inr 7"
proof -
  let ?b = "\<lparr>btmp_bytes_len = 1, bits = 0\<rparr>"
  let ?m = "(\<lambda>_. 0)(0 := 0x7f) :: mem"
  have wf: "bitmap_wf ?b" by (simp add: bitmap_wf_def bitmap_bits_def)
  have bits: "bit_free ?b ?m i \<longleftrightarrow> 7 \<le> i" if "i < 9" for i
  proof -
    have "i \<in> {0, 1, 2, 3, 4, 5, 6, 7, 8}" using that by auto
    then show ?thesis by (auto simp: bit_free_def bit_numeral_rec)
  qed
  have nf: "\<not> bitmap_full ?b ?m" using bits [of 7] by (auto simp: bitmap_full_def bitmap_bits_def intro!: exI [of _ 7])
  have "\<not> run_free (bit_free ?b ?m) 2 r" if "r < 7" for r
    using that by (auto simp: run_free_def bits intro!: bexI [of _ r])
  then have "first_fit (bit_free ?b ?m) 9 2 = Some 7"
    by (intro first_fit_SomeI) (auto simp: run_free_def bits)
  then show ?thesis
    using bitmap_scan_first_fit [OF wf nf, of 2] by (simp add: bitmap_bits_def)
qed

text \<open>On a bitmap with no free bit \<open>bitmap_scan\<close> does not return -1: its assertion fails.\<close>

theorem bitmap_scan_full_panics:
  assumes "bitmap_full b m"
  shows "bitmap_scan b cnt m = Inl (Panic ''bitmap_scan'' ''idx_byte < btmp->btmp_bytes_len'')"
  using assms by (rule bitmap_scan_full)

theorem bitmap_scan_full_panics_witness:
  "bitmap_scan \<lparr>btmp_bytes_len = 1, bits = 0\<rparr> 1 (\<lambda>_. 0xff) =
     Inl (Panic ''bitmap_scan'' ''idx_byte < btmp->btmp_bytes_len'')"
  by (rule bitmap_scan_full_panics) (simp add: bitmap_full_def bit_free_0xff)

text \<open>\<open>bitmap_set\<close> sets the bit it is given to the value it is given and changes no other bit of the
  bitmap; a value other than 0 and 1 fails its assertion.\<close>

theorem bitmap_set_one_bit:
  assumes "i < 2 ^ 32"
  shows "if v = 0 \<or> v = 1
    then \<exists>m'. bitmap_set b (of_nat i) v m = Inr m' \<and>
      (\<forall>j. j < 2 ^ 32 \<longrightarrow> bit_free b m' j = (if j = i then v = 0 else bit_free b m j))
    else bitmap_set b (of_nat i) v m = Inl (Panic ''bitmap_set'' ''0 == value || 1 == value'')"
proof (cases "v = 0 \<or> v = 1")
  case True
  then have "\<exists>m'. bitmap_set b (of_nat i) v m = Inr m' \<and>
      (\<forall>j. j < 2 ^ 32 \<longrightarrow> bit_free b m' j = (if j = i then v = 0 else bit_free b m j))"
    using bitmap_set_Inr [of v b "of_nat i" m] bit_free_bitmap_set [OF assms, of _ v b m] by blast
  with True show ?thesis by (simp only: if_True)
next
  case False
  then show ?thesis by (auto simp: bitmap_set_def)
qed

theorem bitmap_set_one_bit_witness:
  "\<exists>m'. bitmap_set \<lparr>btmp_bytes_len = 1, bits = 0\<rparr> (of_nat 3) 1 (\<lambda>_. 0) = Inr m' \<and>
     \<not> bit_free \<lparr>btmp_bytes_len = 1, bits = 0\<rparr> m' 3 \<and> bit_free \<lparr>btmp_bytes_len = 1, bits = 0\<rparr> m' 4"
proof -
  let ?b = "\<lparr>btmp_bytes_len = 1, bits = 0\<rparr>"
  obtain m' where m': "bitmap_set ?b (of_nat 3) 1 (\<lambda>_. 0) = Inr m'"
    "\<And>j. j < 2 ^ 32 \<Longrightarrow> bit_free ?b m' j = (if j = 3 then (1 :: u8) = 0 else bit_free ?b (\<lambda>_. 0) j)"
    using bitmap_set_one_bit [of 3 1 ?b "\<lambda>_. 0"] by auto
  have "\<not> bit_free ?b m' 3" "bit_free ?b m' 4"
    using m'(2) [of 3] m'(2) [of 4] by (simp_all add: bit_free_def [of ?b "\<lambda>_. 0"])
  with m'(1) show ?thesis by blast
qed

end
