(* ===== verification/Resume.thy ===== *)
theory Resume
  imports Prelude
begin

text \<open>
  Code that can be switched out.  \<open>switch_to\<close> of \<open>src/thread/switch.S\<close> leaves the current thread in the
  middle of a function and continues another one; the rest of the function runs when some later
  \<open>switch_to\<close> comes back.  A run of such code is a value of the type \<open>run\<close>:

  \<^item> \<open>Return a s\<close>: it returned \<open>a\<close> in state \<open>s\<close>, without a switch;
  \<^item> \<open>Stop e\<close>: it ended in the error \<open>e\<close>;
  \<^item> \<open>Switch s k\<close>: in state \<open>s\<close> the processor has been given to another thread; when it comes back,
    with the state then being \<open>s'\<close>, the run goes on as \<open>k s'\<close>.

  The type is coinductive: a thread may be switched out for ever.
\<close>

codatatype (dead 's, 'a) run =
    Return 'a 's
  | Stop kerror
  | Switch 's "'s \<Rightarrow> ('s, 'a) run"

primcorec bindR :: "('s, 'a) run \<Rightarrow> ('a \<Rightarrow> 's \<Rightarrow> ('s, 'b) run) \<Rightarrow> ('s, 'b) run" where
  "bindR m f =
     (case m of
        Return a s \<Rightarrow> f a s
      | Stop e \<Rightarrow> Stop e
      | Switch s k \<Rightarrow> Switch s (\<lambda>s'. bindR (k s') f))"

lemma bindR_simps [simp]:
  "bindR (Return a s) f = f a s"
  "bindR (Stop e) f = Stop e"
  "bindR (Switch s k) f = Switch s (\<lambda>s'. bindR (k s') f)"
  by (subst bindR.code; simp)+

text \<open>Code with no switch inside, as a run.\<close>

definition liftR :: "('a \<times> 's) res \<Rightarrow> ('s, 'a) run" where
  "liftR r = (case r of Inl e \<Rightarrow> Stop e | Inr (a, s) \<Rightarrow> Return a s)"

lemma liftR_simps [simp]: "liftR (Inl e) = Stop e" "liftR (Inr (a, s)) = Return a s"
  by (simp_all add: liftR_def)

definition stepR :: "'s res \<Rightarrow> ('s, unit) run" where
  "stepR r = (case r of Inl e \<Rightarrow> Stop e | Inr s \<Rightarrow> Return () s)"

lemma stepR_simps [simp]: "stepR (Inl e) = Stop e" "stepR (Inr s) = Return () s"
  by (simp_all add: stepR_def)

definition assertR :: "bool \<Rightarrow> string \<Rightarrow> string \<Rightarrow> ('s, 'a) run \<Rightarrow> ('s, 'a) run" where
  "assertR c fn txt k = (if c then k else Stop (Panic fn txt))"

lemma assertR_simps [simp]:
  "assertR True fn txt k = k" "assertR False fn txt k = Stop (Panic fn txt)"
  by (simp_all add: assertR_def)

text \<open>
  \<open>while (c) body\<close>, where every pass through the body gives the processor away at least once; the test
  may fail an assertion.  A pass that returned without a switch would spin with nothing else running:
  \<open>Diverge\<close>.
\<close>

primcorec whileR :: "('s \<Rightarrow> bool res) \<Rightarrow> ('s \<Rightarrow> ('s, unit) run) \<Rightarrow> ('s, unit) run \<Rightarrow> ('s, unit) run" where
  "whileR c body m =
     (case m of
        Return u s \<Rightarrow>
          (case c s of
             Inl e \<Rightarrow> Stop e
           | Inr b \<Rightarrow>
              (if b then
                 (case body s of
                    Return u' s' \<Rightarrow> Stop Diverge
                  | Stop e \<Rightarrow> Stop e
                  | Switch s' k \<Rightarrow> Switch s' (\<lambda>t. whileR c body (k t)))
               else Return u s))
      | Stop e \<Rightarrow> Stop e
      | Switch s k \<Rightarrow> Switch s (\<lambda>t. whileR c body (k t)))"

lemma whileR_Return_done: "c s = Inr False \<Longrightarrow> whileR c body (Return u s) = Return u s"
  by (subst whileR.code) simp

lemma whileR_Return_fail: "c s = Inl e \<Longrightarrow> whileR c body (Return u s) = Stop e"
  by (subst whileR.code) simp

lemma whileR_Return_again:
  "c s = Inr True \<Longrightarrow> body s = Switch s' k \<Longrightarrow>
   whileR c body (Return u s) = Switch s' (\<lambda>t. whileR c body (k t))"
  by (subst whileR.code) simp

lemma whileR_Return_stop:
  "c s = Inr True \<Longrightarrow> body s = Stop e \<Longrightarrow> whileR c body (Return u s) = Stop e"
  by (subst whileR.code) simp

lemma whileR_Switch [simp]: "whileR c body (Switch s k) = Switch s (\<lambda>t. whileR c body (k t))"
  by (subst whileR.code) simp

lemma whileR_Stop [simp]: "whileR c body (Stop e) = Stop e"
  by (subst whileR.code) simp

text \<open>
  \<open>may_return P m\<close>: the run \<open>m\<close> can reach a \<open>Return\<close> when each of its switches comes back in some state that
  satisfies \<open>P\<close>.  A run that is not \<open>may_return P\<close> is starved by an environment that only offers \<open>P\<close>.
\<close>

inductive may_return :: "('s \<Rightarrow> bool) \<Rightarrow> ('s, 'a) run \<Rightarrow> bool" for P where
  ret: "may_return P (Return a s)"
| resume: "P t \<Longrightarrow> may_return P (k t) \<Longrightarrow> may_return P (Switch s k)"

inductive_simps may_return_simps [simp]:
  "may_return P (Return a s)"
  "may_return P (Stop e)"
  "may_return P (Switch s k)"

end
