(* ===== verification/KState.thy ===== *)
theory KState
  imports KList Bitmap Resume
begin

text \<open>
  The data of the kernel: \<open>src/kernel/memory.h\<close>, \<open>memory.c\<close>, \<open>src/thread/thread.h\<close>, \<open>sync.h\<close>.  The
  state \<open>kstate\<close> extends the list heap with

  \<^item> \<open>bytes\<close>: byte memory at virtual addresses, where the bitmaps live;
  \<^item> \<open>pmem\<close>, \<open>cr3\<close>: the 32-bit words of physical memory that hold page directories and page tables,
    by physical address, and the page directory base register;
  \<^item> \<open>esp\<close>, \<open>tasks\<close>, \<open>tstacks\<close>, \<open>istacks\<close>: the stack pointer, the process control blocks by address and
    the frames that are built on kernel stacks;
  \<^item> \<open>sem_value\<close>, \<open>lk_holder\<close>, \<open>lk_repeat\<close>: the fields of semaphores and locks, by the address of the
    structure (the waiter list of a semaphore is a list of \<open>KList\<close>);
  \<^item> the global variables of \<open>memory.c\<close> and \<open>thread.c\<close>.  A global structure that other structures point
    into (a list, a lock) is represented by its address, which the linker fixed.

  C objects of different types do not overlap; a page that is handed out as raw memory is seen
  both as bytes and as words.
\<close>

section \<open>Memory management data\<close>

datatype pool_flags = PF_KERNEL | PF_USER

record virtual_addr =
  vaddr_bitmap :: bitmap
  vaddr_start :: u32

record pool =
  pool_bitmap :: bitmap
  phy_addr_start :: u32
  pool_size :: u32
  pool_lock :: addr

section \<open>Threads\<close>

datatype task_status =
    TASK_RUNNING | TASK_READY | TASK_BLOCKED | TASK_WAITING | TASK_HANDGING | TASK_DIED

record intr_stack =
  vec_no :: u32
  is_edi :: u32
  is_esi :: u32
  is_ebp :: u32
  esp_dummy :: u32
  is_ebx :: u32
  is_edx :: u32
  is_ecx :: u32
  is_eax :: u32
  is_gs :: u32
  is_fs :: u32
  is_es :: u32
  is_ds :: u32
  err_code :: u32
  is_eip :: u32
  is_cs :: u32
  is_eflags :: u32
  is_esp :: u32
  is_ss :: u32

record thread_stack =
  ts_ebp :: u32
  ts_ebx :: u32
  ts_edi :: u32
  ts_esi :: u32
  ts_eip :: u32
  ts_unused_retaddr :: u32
  ts_function :: u32
  ts_func_arg :: u32

record task_struct =
  self_kstack :: addr
  pid :: u16
  status :: task_status
  priority :: u8
  name :: "u8 list"
  ticks :: u8
  elapsed_ticks :: u32
  pgdir :: addr
  userprog_vaddr :: virtual_addr
  stack_magic :: u32

text \<open>The layout of \<open>struct task_struct\<close> on i386: offsets of the two list elements.\<close>

abbreviation (input) general_tag_off :: u32 where "general_tag_off \<equiv> 36"
abbreviation (input) all_list_tag_off :: u32 where "all_list_tag_off \<equiv> 44"

definition general_tag :: "addr \<Rightarrow> addr" where
  "general_tag p = p + general_tag_off"

definition all_list_tag :: "addr \<Rightarrow> addr" where
  "all_list_tag p = p + all_list_tag_off"

text \<open>The layout of \<open>struct lock\<close> and \<open>struct semaphore\<close>: \<open>lock.semaphore\<close>, \<open>semaphore.waiters\<close>.\<close>

definition lock_sema :: "addr \<Rightarrow> addr" where
  "lock_sema plock = plock + 4"

definition sema_waiters :: "addr \<Rightarrow> addr" where
  "sema_waiters psema = psema + 4"

section \<open>The state\<close>

record kstate = heap +
  bytes :: mem
  pmem :: "u32 \<Rightarrow> u32"
  cr3 :: u32
  esp :: u32
  tasks :: "addr \<Rightarrow> task_struct"
  tstacks :: "addr \<Rightarrow> thread_stack"
  istacks :: "addr \<Rightarrow> intr_stack"
  sem_value :: "addr \<Rightarrow> u8"
  lk_holder :: "addr \<Rightarrow> addr"
  lk_repeat :: "addr \<Rightarrow> u32"
  kernel_pool :: pool
  user_pool :: pool
  kernel_vaddr :: virtual_addr
  main_thread :: addr
  thread_ready_list :: addr
  thread_all_list :: addr
  thread_tag :: addr
  pid_lock :: addr
  next_pid :: u16

definition running_thread :: "'a kstate_scheme \<Rightarrow> addr" where
  "running_thread s = esp s AND 0xfffff000"

definition upd_task :: "addr \<Rightarrow> (task_struct \<Rightarrow> task_struct) \<Rightarrow> 'a kstate_scheme \<Rightarrow> 'a kstate_scheme" where
  "upd_task p f s = s\<lparr>tasks := (tasks s)(p := f (tasks s p))\<rparr>"

lemma running_thread_fields [simp]:
  "running_thread (s\<lparr>eflags := a\<rparr>) = running_thread s"
  "running_thread (s\<lparr>scr := b\<rparr>) = running_thread s"
  "running_thread (s\<lparr>lprev := c\<rparr>) = running_thread s"
  "running_thread (s\<lparr>lnext := d\<rparr>) = running_thread s"
  "running_thread (s\<lparr>tasks := e\<rparr>) = running_thread s"
  "running_thread (s\<lparr>bytes := f\<rparr>) = running_thread s"
  "running_thread (s\<lparr>pmem := g\<rparr>) = running_thread s"
  "running_thread (s\<lparr>sem_value := h\<rparr>) = running_thread s"
  "running_thread (s\<lparr>lk_holder := i\<rparr>) = running_thread s"
  "running_thread (s\<lparr>lk_repeat := j\<rparr>) = running_thread s"
  by (simp_all add: running_thread_def)

end
