(* ===== verification/Paging.thy ===== *)
theory Paging
  imports KState
begin

text \<open>
  Two-level paging.  \<open>translate\<close> is the page walk of the i386 processor; \<open>vload32\<close> and \<open>vstore32\<close> are word
  accesses at virtual addresses through it.  \<open>pte_ptr\<close>, \<open>pde_ptr\<close> and \<open>addr_v2p\<close> are the functions of
  \<open>src/kernel/memory.c\<close> that reach page tables through the last entry of the page directory, which
  points to the directory itself (\<open>src/boot/loader.S\<close>, \<open>setup_page\<close>).
\<close>

section \<open>The page walk\<close>

definition frame :: "u32 \<Rightarrow> u32" where
  "frame x = x AND 0xfffff000"

definition pdi :: "addr \<Rightarrow> u32" where
  "pdi va = drop_bit 22 va"

definition pti :: "addr \<Rightarrow> u32" where
  "pti va = drop_bit 12 va AND 0x3ff"

definition pgoff :: "addr \<Rightarrow> u32" where
  "pgoff va = va AND 0xfff"

definition pde_pa :: "u32 \<Rightarrow> addr \<Rightarrow> u32" where
  "pde_pa dir va = frame dir + 4 * pdi va"

definition pte_pa :: "(u32 \<Rightarrow> u32) \<Rightarrow> u32 \<Rightarrow> addr \<Rightarrow> u32" where
  "pte_pa pm dir va = frame (pm (pde_pa dir va)) + 4 * pti va"

definition translate :: "(u32 \<Rightarrow> u32) \<Rightarrow> u32 \<Rightarrow> addr \<Rightarrow> u32 option" where
  "translate pm dir va =
     (let pde = pm (pde_pa dir va) in
      if \<not> bit pde 0 then None
      else let pte = pm (pte_pa pm dir va) in
        if \<not> bit pte 0 then None else Some (frame pte + pgoff va))"

definition vload32 :: "addr \<Rightarrow> 'a kstate_scheme \<Rightarrow> u32 res" where
  "vload32 va s = (case translate (pmem s) (cr3 s) va of
     None \<Rightarrow> Inl (Fault va) | Some pa \<Rightarrow> Inr (pmem s pa))"

definition vstore32 :: "addr \<Rightarrow> u32 \<Rightarrow> 'a kstate_scheme \<Rightarrow> 'a kstate_scheme res" where
  "vstore32 va v s = (case translate (pmem s) (cr3 s) va of
     None \<Rightarrow> Inl (Fault va) | Some pa \<Rightarrow> Inr (s\<lparr>pmem := (pmem s)(pa := v)\<rparr>))"

text \<open>\<open>memset(va, 0, 4 * n)\<close> as \<open>n\<close> word stores.\<close>

fun vzero :: "nat \<Rightarrow> addr \<Rightarrow> 'a kstate_scheme \<Rightarrow> 'a kstate_scheme res" where
  "vzero 0 va s = Inr s"
| "vzero (Suc n) va s = bindE (vstore32 va 0 s) (\<lambda>s. vzero n (va + 4) s)"

section \<open>Model\<close>

definition PDE_IDX :: "u32 \<Rightarrow> u32" where
  "PDE_IDX a = drop_bit 22 (a AND 0xffc00000)"

definition PTE_IDX :: "u32 \<Rightarrow> u32" where
  "PTE_IDX a = drop_bit 12 (a AND 0x003ff000)"

definition pte_ptr :: "u32 \<Rightarrow> addr" where
  "pte_ptr vaddr = 0xffc00000 OR drop_bit 10 (vaddr AND 0xffc00000) OR PTE_IDX vaddr * 4"

definition pde_ptr :: "u32 \<Rightarrow> addr" where
  "pde_ptr vaddr = 0xfffff000 OR PDE_IDX vaddr * 4"

definition addr_v2p :: "u32 \<Rightarrow> 'a kstate_scheme \<Rightarrow> u32 res" where
  "addr_v2p vaddr s =
     bindE (vload32 (pte_ptr vaddr) s) (\<lambda>pte. Inr ((pte AND 0xfffff000) + (vaddr AND 0xfff)))"

section \<open>Bit fields of addresses\<close>

lemma mask_consts:
  "(0xfffff000 :: u32) = push_bit 12 (mask 20)" "(0xffc00000 :: u32) = push_bit 22 (mask 10)"
  "(0x003ff000 :: u32) = push_bit 12 (mask 10)" "(0x3ff :: u32) = mask 10" "(0xfff :: u32) = mask 12"
  by (simp_all add: mask_eq_exp_minus_1)

lemma frame_bit: "bit (frame x) n \<longleftrightarrow> 12 \<le> n \<and> n < 32 \<and> bit x n"
  unfolding frame_def mask_consts by (auto simp: bit_simps)

lemma pdi_bit: "bit (pdi x) n \<longleftrightarrow> n < 10 \<and> bit x (22 + n)"
  unfolding pdi_def using bit_imp_possible_bit [of x "22 + n"]
  by (auto simp: bit_simps ac_simps)

lemma pti_bit: "bit (pti x) n \<longleftrightarrow> n < 10 \<and> bit x (12 + n)"
  unfolding pti_def mask_consts by (auto simp: bit_simps ac_simps)

lemma pgoff_bit: "bit (pgoff x) n \<longleftrightarrow> n < 12 \<and> bit x n"
  unfolding pgoff_def mask_consts by (auto simp: bit_simps)

text \<open>Sums of a page frame and an offset inside the page are disjunctions.\<close>

lemma frame_plus: "(\<And>n. bit k n \<Longrightarrow> n < 12) \<Longrightarrow> frame x + k = frame x OR k" for k :: u32
  by (rule disjunctive_add) (force simp: frame_bit)

lemma times4_bit: "bit (4 * x) n \<longleftrightarrow> 2 \<le> n \<and> n < 32 \<and> bit x (n - 2)" for x :: u32
proof -
  have "4 * x = push_bit 2 x" by (simp add: push_bit_eq_mult)
  then show ?thesis by (auto simp: bit_simps)
qed

lemma pde_pa_bit: "bit (pde_pa dir va) n \<longleftrightarrow> 12 \<le> n \<and> n < 32 \<and> bit dir n \<or> 2 \<le> n \<and> n < 12 \<and> bit va (20 + n)"
proof -
  have "pde_pa dir va = frame dir OR 4 * pdi va"
    unfolding pde_pa_def by (rule frame_plus) (auto simp: times4_bit pdi_bit)
  then show ?thesis
    by (auto simp: bit_simps frame_bit times4_bit pdi_bit)
qed

lemma pte_pa_bit:
  "bit (pte_pa pm dir va) n \<longleftrightarrow>
     12 \<le> n \<and> n < 32 \<and> bit (pm (pde_pa dir va)) n \<or> 2 \<le> n \<and> n < 12 \<and> bit va (10 + n)"
proof -
  have "pte_pa pm dir va = frame (pm (pde_pa dir va)) OR 4 * pti va"
    unfolding pte_pa_def by (rule frame_plus) (auto simp: times4_bit pti_bit)
  then show ?thesis
    by (auto simp: bit_simps frame_bit times4_bit pti_bit)
qed

lemma frame_pgoff_bit: "bit (frame x + pgoff va) n \<longleftrightarrow> 12 \<le> n \<and> n < 32 \<and> bit x n \<or> n < 12 \<and> bit va n"
proof -
  have "frame x + pgoff va = frame x OR pgoff va"
    by (rule frame_plus) (simp add: pgoff_bit)
  then show ?thesis by (auto simp: bit_simps frame_bit pgoff_bit)
qed

lemma pde_ptr_bit: "bit (pde_ptr va) n \<longleftrightarrow> 12 \<le> n \<and> n < 32 \<or> 2 \<le> n \<and> n < 12 \<and> bit va (20 + n)"
  unfolding pde_ptr_def PDE_IDX_def mult.commute [of _ 4] mask_consts
  by (auto simp: bit_simps times4_bit)

lemma pte_ptr_bit:
  "bit (pte_ptr va) n \<longleftrightarrow> 22 \<le> n \<and> n < 32 \<or> 12 \<le> n \<and> n < 22 \<and> bit va (10 + n) \<or> 2 \<le> n \<and> n < 12 \<and> bit va (10 + n)"
  unfolding pte_ptr_def PTE_IDX_def mult.commute [of _ 4] mask_consts
  by (auto simp: bit_simps times4_bit)

section \<open>The window onto the page tables\<close>

text \<open>The last entry of the directory \<open>dir\<close> is present and points to \<open>dir\<close> itself.\<close>

definition self_pa :: "u32 \<Rightarrow> u32" where
  "self_pa dir = frame dir + 4092"

definition self_mapped :: "(u32 \<Rightarrow> u32) \<Rightarrow> u32 \<Rightarrow> bool" where
  "self_mapped pm dir \<longleftrightarrow> bit (pm (self_pa dir)) 0 \<and> frame (pm (self_pa dir)) = frame dir"

lemma bit_4092: "bit (4092 :: u32) n \<longleftrightarrow> 2 \<le> n \<and> n < 12"
proof -
  have "(4092 :: u32) = push_bit 2 (mask 10)" by (simp add: mask_eq_exp_minus_1)
  then show ?thesis by (simp only: bit_push_bit_iff bit_mask_iff possible_bit_word) auto
qed

lemma self_pa_bit: "bit (self_pa dir) n \<longleftrightarrow> 12 \<le> n \<and> n < 32 \<and> bit dir n \<or> 2 \<le> n \<and> n < 12"
proof -
  have "self_pa dir = frame dir OR 4092"
    unfolding self_pa_def by (rule frame_plus) (simp only: bit_4092)
  then show ?thesis by (simp only: bit_or_iff frame_bit bit_4092)
qed

lemma frame_eq_iff: "frame x = frame y \<longleftrightarrow> (\<forall>n. 12 \<le> n \<and> n < 32 \<longrightarrow> bit x n = bit y n)"
  by (auto simp: bit_eq_iff frame_bit)

lemma pde_pa_window: "pde_pa dir (pde_ptr va) = self_pa dir" "pde_pa dir (pte_ptr va) = self_pa dir"
  by (rule bit_word_eqI; auto simp: pde_pa_bit pde_ptr_bit pte_ptr_bit self_pa_bit)+

lemma pte_pa_window:
  assumes "self_mapped pm dir"
  shows "pte_pa pm dir (pde_ptr va) = self_pa dir" and "pte_pa pm dir (pte_ptr va) = pde_pa dir va"
proof -
  have "bit (pm (self_pa dir)) n = bit dir n" if "12 \<le> n" "n < 32" for n
    using assms that by (simp add: self_mapped_def frame_eq_iff)
  then show "pte_pa pm dir (pde_ptr va) = self_pa dir" "pte_pa pm dir (pte_ptr va) = pde_pa dir va"
    by (rule_tac [!] bit_word_eqI)
      (auto simp: pte_pa_bit pde_pa_window pde_ptr_bit pte_ptr_bit self_pa_bit pde_pa_bit)
qed

lemma translate_pde_ptr:
  assumes "self_mapped pm dir"
  shows "translate pm dir (pde_ptr va) = Some (pde_pa dir va)"
proof -
  have fr: "bit (pm (self_pa dir)) n = bit dir n" if "12 \<le> n" "n < 32" for n
    using assms that by (simp add: self_mapped_def frame_eq_iff)
  have "frame (pm (self_pa dir)) + pgoff (pde_ptr va) = pde_pa dir va"
    by (rule bit_word_eqI) (auto simp: frame_pgoff_bit fr pde_ptr_bit pde_pa_bit)
  with assms show ?thesis
    by (simp add: translate_def Let_def pde_pa_window pte_pa_window self_mapped_def)
qed

lemma translate_pte_ptr:
  assumes "self_mapped pm dir"
  shows "translate pm dir (pte_ptr va) =
    (if bit (pm (pde_pa dir va)) 0 then Some (pte_pa pm dir va) else None)"
proof -
  have "frame (pm (pde_pa dir va)) + pgoff (pte_ptr va) = pte_pa pm dir va"
    by (rule bit_word_eqI) (auto simp: frame_pgoff_bit pte_ptr_bit pte_pa_bit)
  with assms show ?thesis
    by (simp add: translate_def Let_def pde_pa_window pte_pa_window self_mapped_def)
qed

lemma vload_pde_ptr: "self_mapped (pmem s) (cr3 s) \<Longrightarrow> vload32 (pde_ptr va) s = Inr (pmem s (pde_pa (cr3 s) va))"
  by (simp add: vload32_def translate_pde_ptr)

lemma vstore_pde_ptr:
  "self_mapped (pmem s) (cr3 s) \<Longrightarrow>
   vstore32 (pde_ptr va) v s = Inr (s\<lparr>pmem := (pmem s)(pde_pa (cr3 s) va := v)\<rparr>)"
  by (simp add: vstore32_def translate_pde_ptr)

lemma vload_pte_ptr:
  "self_mapped (pmem s) (cr3 s) \<Longrightarrow> vload32 (pte_ptr va) s =
     (if bit (pmem s (pde_pa (cr3 s) va)) 0 then Inr (pmem s (pte_pa (pmem s) (cr3 s) va))
      else Inl (Fault (pte_ptr va)))"
  by (simp add: vload32_def translate_pte_ptr)

lemma vstore_pte_ptr:
  "self_mapped (pmem s) (cr3 s) \<Longrightarrow> vstore32 (pte_ptr va) v s =
     (if bit (pmem s (pde_pa (cr3 s) va)) 0
      then Inr (s\<lparr>pmem := (pmem s)(pte_pa (pmem s) (cr3 s) va := v)\<rparr>) else Inl (Fault (pte_ptr va)))"
  by (simp add: vstore32_def translate_pte_ptr)

lemma addr_v2p_translate:
  assumes "self_mapped (pmem s) (cr3 s)" and "translate (pmem s) (cr3 s) va = Some pa"
  shows "addr_v2p va s = Inr pa"
  using assms by (auto simp: addr_v2p_def vload_pte_ptr translate_def Let_def frame_def pgoff_def split: if_splits)

section \<open>Page numbers\<close>

definition page_aligned :: "u32 \<Rightarrow> bool" where
  "page_aligned x \<longleftrightarrow> pgoff x = 0"

lemma page_alignedD: "page_aligned x \<Longrightarrow> bit x n \<Longrightarrow> 12 \<le> n"
  using bit_imp_possible_bit [of x n] by (force simp: page_aligned_def bit_eq_iff pgoff_bit)

lemma frame_aligned [simp]: "page_aligned x \<Longrightarrow> frame x = x"
  by (rule bit_word_eqI) (auto simp: frame_bit dest: page_alignedD)

lemma aligned_frame [simp]: "page_aligned (frame x)"
  by (auto simp: page_aligned_def bit_eq_iff pgoff_bit frame_bit)

text \<open>\<open>PG_US_U | PG_RW_W | PG_P_1\<close> is 7.\<close>

lemma bit_7: "bit (7 :: u32) n \<longleftrightarrow> n < 3"
proof -
  have "(7 :: u32) = mask 3" by (simp add: mask_eq_exp_minus_1)
  then show ?thesis by (simp only: bit_mask_iff possible_bit_word) auto
qed

lemma frame_or_7: "page_aligned x \<Longrightarrow> frame (x OR 7) = x"
proof (rule bit_word_eqI)
  fix n
  assume "page_aligned x" "n < LENGTH(32)"
  then show "bit (frame (x OR 7)) n \<longleftrightarrow> bit x n"
    unfolding frame_bit bit_or_iff bit_7 using page_alignedD [of x n] by auto
qed

lemma present_or_7: "bit (x OR 7 :: u32) 0"
  by (simp only: bit_or_iff bit_7) simp

section \<open>Properties\<close>

text \<open>C2. With a directory whose last entry points to itself, the address \<open>pde_ptr\<close> computes is where the
  directory entry of \<open>va\<close> is mapped, and the address \<open>pte_ptr\<close> computes is where the page table entry of
  \<open>va\<close> is mapped; the latter faults exactly when there is no page table.\<close>

theorem page_table_window:
  assumes "self_mapped pm dir"
  shows "translate pm dir (pde_ptr va) = Some (pde_pa dir va) \<and>
    translate pm dir (pte_ptr va) = (if bit (pm (pde_pa dir va)) 0 then Some (pte_pa pm dir va) else None)"
  using translate_pde_ptr [OF assms] translate_pte_ptr [OF assms] by blast

theorem page_table_window_witness:
  "translate ((\<lambda>_. 0)(0x100ffc := 0x100007)) 0x100000 (pde_ptr 0xc0100000) = Some 0x100c00 \<and>
   translate ((\<lambda>_. 0)(0x100ffc := 0x100007)) 0x100000 (pte_ptr 0xc0100000) = None"
proof -
  have "self_mapped ((\<lambda>_. 0)(0x100ffc := 0x100007)) 0x100000"
    by (simp add: self_mapped_def self_pa_def frame_def)
  from page_table_window [OF this, of "0xc0100000"] show ?thesis
    by (simp add: pde_pa_def pdi_def frame_def drop_bit_eq_div word_div_def)
qed

text \<open>C3. \<open>addr_v2p\<close> returns the physical address to which the processor translates the virtual address,
  and faults on the page table window when the directory entry is not present.\<close>

theorem addr_v2p_is_translate:
  assumes "self_mapped (pmem s) (cr3 s)"
  shows "(translate (pmem s) (cr3 s) va = Some pa \<longrightarrow> addr_v2p va s = Inr pa) \<and>
    (\<not> bit (pmem s (pde_pa (cr3 s) va)) 0 \<longrightarrow> addr_v2p va s = Inl (Fault (pte_ptr va)))"
  using addr_v2p_translate [OF assms, of va pa] by (simp add: addr_v2p_def vload_pte_ptr [OF assms])

theorem addr_v2p_is_translate_witness:
  "\<forall>s :: kstate. addr_v2p 0xc0000123 (s\<lparr>cr3 := 0x100000,
     pmem := (\<lambda>_. 0)(0x100ffc := 0x100007, 0x100c00 := 0x101007, 0x101000 := 0x7)\<rparr>) = Inr 0x123"
proof
  fix s :: kstate
  let ?s = "s\<lparr>cr3 := 0x100000, pmem := (\<lambda>_. 0)(0x100ffc := 0x100007, 0x100c00 := 0x101007, 0x101000 := 0x7)\<rparr>"
  have "self_mapped (pmem ?s) (cr3 ?s)" by (simp add: self_mapped_def self_pa_def frame_def)
  moreover have "translate (pmem ?s) (cr3 ?s) 0xc0000123 = Some 0x123"
    by (simp add: translate_def pde_pa_def pte_pa_def pdi_def pti_def pgoff_def frame_def drop_bit_eq_div word_div_def)
  ultimately show "addr_v2p 0xc0000123 ?s = Inr 0x123" using addr_v2p_is_translate by blast
qed

end
