(* ===== verification/Sched.thy ===== *)
theory Sched
  imports Paging
begin

text \<open>
  The scheduler: \<open>schedule\<close>, \<open>thread_block\<close> and \<open>thread_unblock\<close> of \<open>src/thread/thread.c\<close>, and \<open>switch_to\<close> of
  \<open>src/thread/switch.S\<close>.  The stack pointer is tracked across \<open>switch_to\<close>: its caller pushes two
  arguments and a return address (12 bytes), it pushes four registers (16 bytes), and its \<open>ret\<close> and
  the caller's clean-up take them off again.

  \<open>ready_queue s ps\<close> says that the ready list holds the tags of the threads \<open>ps\<close>, in order;
  \<open>sched_inv\<close> is the invariant the scheduler keeps.
\<close>

section \<open>Model\<close>

definition switch_to :: "addr \<Rightarrow> addr \<Rightarrow> 'a kstate_scheme \<Rightarrow> 'a kstate_scheme" where
  "switch_to cur nxt s =
     (let s = upd_task cur (\<lambda>t. t\<lparr>self_kstack := esp s - 16\<rparr>) s
      in s\<lparr>esp := self_kstack (tasks s nxt) + 20\<rparr>)"

text \<open>The part of \<open>schedule\<close> up to \<open>switch_to\<close>, and what is left when \<open>switch_to\<close> comes back.\<close>

definition schedule_requeue :: "'a kstate_scheme \<Rightarrow> 'a kstate_scheme res" where
  "schedule_requeue s =
     (let cur = running_thread s in
      if TASK_RUNNING = status (tasks s cur) then
        bindE (of_loop (elem_find (thread_ready_list s) (general_tag cur) s)) (\<lambda>found.
        ASSERT (\<not> found) ''schedule'' ''!elem_find(&thread_ready_list, &cur->general_tag)''
         (let s = list_append (thread_ready_list s) (general_tag cur) s;
              s = upd_task cur (\<lambda>t. t\<lparr>ticks := priority t\<rparr>) s
          in Inr (upd_task cur (\<lambda>t. t\<lparr>status := TASK_READY\<rparr>) s)))
      else Inr s)"

definition schedule_pick :: "addr \<Rightarrow> 'a kstate_scheme \<Rightarrow> 'a kstate_scheme res" where
  "schedule_pick cur s =
     ASSERT (\<not> list_empty (thread_ready_list s) s) ''schedule'' ''!list_empty(&thread_ready_list)''
      (let (tag, s) = list_pop (thread_ready_list s) s;
           s = s\<lparr>thread_tag := tag\<rparr>;
           nxt = elem2entry general_tag_off (thread_tag s);
           s = upd_task nxt (\<lambda>t. t\<lparr>status := TASK_RUNNING\<rparr>) s;
           s = kput_str ''\<newline>'' (kput_int nxt (kput_str ''switch to :'' s))
       in Inr (switch_to cur nxt (s\<lparr>esp := esp s - 12\<rparr>)))"

definition schedule_out :: "'a kstate_scheme \<Rightarrow> 'a kstate_scheme res" where
  "schedule_out s =
     ASSERT (INTR_OFF = intr_get_status s) ''schedule'' ''INTR_OFF == intr_get_status()''
      (let cur = running_thread s
       in bindE (schedule_requeue s) (schedule_pick cur))"

definition schedule_back :: "'a kstate_scheme \<Rightarrow> 'a kstate_scheme" where
  "schedule_back s = s\<lparr>esp := esp s + 8\<rparr>"

definition schedule :: "'a kstate_scheme \<Rightarrow> ('a kstate_scheme, unit) run" where
  "schedule s = (case schedule_out s of
     Inl e \<Rightarrow> Stop e | Inr s' \<Rightarrow> Switch s' (\<lambda>t. Return () (schedule_back t)))"

text \<open>\<open>thread_block\<close> up to the switch, with the saved interrupt status.\<close>

definition thread_block_out :: "task_status \<Rightarrow> 'a kstate_scheme \<Rightarrow> (intr_status \<times> 'a kstate_scheme) res" where
  "thread_block_out stat s =
     ASSERT (TASK_BLOCKED = stat \<or> TASK_WAITING = stat \<or> TASK_HANDGING = stat) ''thread_block''
       ''TASK_BLOCKED == stat || TASK_WAITING == stat || TASK_HANDGING == stat''
      (let (old_status, s) = intr_disable s;
           cur_thread = running_thread s;
           s = upd_task cur_thread (\<lambda>t. t\<lparr>status := stat\<rparr>) s
       in bindE (schedule_out s) (\<lambda>s. Inr (old_status, s)))"

definition thread_block_back :: "intr_status \<Rightarrow> 'a kstate_scheme \<Rightarrow> 'a kstate_scheme" where
  "thread_block_back old_status s = restore_intr old_status (schedule_back s)"

definition thread_block :: "task_status \<Rightarrow> 'a kstate_scheme \<Rightarrow> ('a kstate_scheme, unit) run" where
  "thread_block stat s = (case thread_block_out stat s of
     Inl e \<Rightarrow> Stop e | Inr (old, s') \<Rightarrow> Switch s' (\<lambda>t. Return () (thread_block_back old t)))"

definition thread_unblock :: "addr \<Rightarrow> 'a kstate_scheme \<Rightarrow> 'a kstate_scheme res" where
  "thread_unblock pthread s =
     (let (old_status, s) = intr_disable s; st = status (tasks s pthread) in
      ASSERT (TASK_BLOCKED = st \<or> TASK_WAITING = st \<or> TASK_HANDGING = st) ''thread_unblock''
        ''TASK_BLOCKED == pthread->status || TASK_WAITING == pthread->status || TASK_HANDGING == pthread->status''
       (bindE
         (if TASK_READY \<noteq> st then
            bindE (of_loop (elem_find (thread_ready_list s) (general_tag pthread) s)) (\<lambda>found.
            if found then Inl (Panic ''thread_unblock'' ''thread_unblock: blocked thread in ready_list\<newline>'')
            else
              let s = list_push (thread_ready_list s) (general_tag pthread) s
              in Inr (upd_task pthread (\<lambda>t. t\<lparr>status := TASK_READY\<rparr>) s))
          else Inr s)
         (\<lambda>s. Inr (restore_intr old_status s))))"

section \<open>The ready queue\<close>

definition ready_queue :: "'a kstate_scheme \<Rightarrow> addr list \<Rightarrow> bool" where
  "ready_queue s ps \<longleftrightarrow> list_at s (thread_ready_list s) (map general_tag ps)"

lemma general_tag_inj [simp]: "general_tag p = general_tag q \<longleftrightarrow> p = q"
  by (simp add: general_tag_def)

lemma general_tag_mem [simp]: "general_tag p \<in> general_tag ` A \<longleftrightarrow> p \<in> A"
  by auto

lemma elem2entry_general_tag [simp]: "elem2entry general_tag_off (general_tag p) = p"
  by (simp add: elem2entry_def general_tag_def)

text \<open>The tag of \<open>p\<close> is not one of the two end nodes of the ready list.\<close>

definition tag_apart :: "'a kstate_scheme \<Rightarrow> addr \<Rightarrow> bool" where
  "tag_apart s p \<longleftrightarrow> general_tag p \<noteq> thread_ready_list s \<and> general_tag p \<noteq> list_tail (thread_ready_list s)"

lemma tag_fresh:
  "tag_apart s p \<Longrightarrow> p \<notin> set ps \<Longrightarrow> general_tag p \<notin> set (list_nodes (thread_ready_list s) (map general_tag ps))"
  by (auto simp: tag_apart_def list_nodes_def)

lemma upd_task_fields [simp]:
  "esp (upd_task p f s) = esp s" "lnext (upd_task p f s) = lnext s" "lprev (upd_task p f s) = lprev s"
  "thread_ready_list (upd_task p f s) = thread_ready_list s" "eflags (upd_task p f s) = eflags s"
  "running_thread (upd_task p f s) = running_thread s" "intr_get_status (upd_task p f s) = intr_get_status s"
  by (simp_all add: upd_task_def running_thread_def intr_get_status_def)

lemma tasks_upd_task [simp]: "tasks (upd_task p f s) q = (if q = p then f (tasks s p) else tasks s q)"
  by (simp add: upd_task_def)

lemma list_at_task_fields [simp]:
  "list_at (s\<lparr>tasks := a\<rparr>) l xs = list_at s l xs" "list_at (s\<lparr>thread_tag := b\<rparr>) l xs = list_at s l xs"
  "list_at (s\<lparr>esp := c\<rparr>) l xs = list_at s l xs" "list_at (upd_task p f s) l xs = list_at s l xs"
  by (simp_all add: list_at_def upd_task_def)

text \<open>The fields that list operations leave alone.\<close>

lemma list_op_fields [simp]:
  "tasks (list_insert_before b e s) = tasks s" "esp (list_insert_before b e s) = esp s"
  "thread_ready_list (list_insert_before b e s) = thread_ready_list s" "eflags (list_insert_before b e s) = eflags s"
  "tasks (list_remove e s) = tasks s" "esp (list_remove e s) = esp s"
  "thread_ready_list (list_remove e s) = thread_ready_list s" "eflags (list_remove e s) = eflags s"
  by (simp_all add: list_insert_before_eq list_remove_eq Let_def)

lemma list_op_fields' [simp]:
  "tasks (list_append l e s) = tasks s" "esp (list_append l e s) = esp s"
  "thread_ready_list (list_append l e s) = thread_ready_list s" "eflags (list_append l e s) = eflags s"
  "tasks (list_push l e s) = tasks s" "esp (list_push l e s) = esp s"
  "thread_ready_list (list_push l e s) = thread_ready_list s" "eflags (list_push l e s) = eflags s"
  "tasks (snd (list_pop l s)) = tasks s" "esp (snd (list_pop l s)) = esp s"
  "thread_ready_list (snd (list_pop l s)) = thread_ready_list s" "eflags (snd (list_pop l s)) = eflags s"
  by (simp_all add: list_append_def list_push_def list_pop_def Let_def)

section \<open>Picking the next thread\<close>

lemma schedule_pick_ready:
  assumes "ready_queue s (q # qs)"
  defines "ts \<equiv> (tasks s)(q := (tasks s q)\<lparr>status := TASK_RUNNING\<rparr>)"
  obtains s' where "schedule_pick cur s = Inr s'" and "ready_queue s' qs"
    and "tasks s' = ts(cur := (ts cur)\<lparr>self_kstack := esp s - 28\<rparr>)"
    and "esp s' = self_kstack (tasks s' q) + 20" and "eflags s' = eflags s"
    and "thread_ready_list s' = thread_ready_list s"
proof -
  let ?l = "thread_ready_list s"
  from assms(1) have q: "list_at s ?l (general_tag q # map general_tag qs)" by (simp add: ready_queue_def)
  have ne: "\<not> list_empty ?l s" using kq.is_empty_at [OF q] by simp
  have tag: "fst (list_pop ?l s) = general_tag q" using q by (rule kq.pop_fst)
  have rest: "list_at (snd (list_pop ?l s)) ?l (map general_tag qs)" using q by (rule kq.at_pop)
  show ?thesis
    by (rule that [of "projr (schedule_pick cur s)"])
      (use rest in \<open>simp_all add: schedule_pick_def ne split_beta tag Let_def switch_to_def ready_queue_def
        upd_task_def ts_def fun_eq_iff\<close>)
qed

lemma schedule_pick_empty:
  assumes "ready_queue s []"
  shows "schedule_pick cur s = Inl (Panic ''schedule'' ''!list_empty(&thread_ready_list)'')"
  using kq.is_empty_at [of s "thread_ready_list s" "[]"] assms
  by (simp add: schedule_pick_def ready_queue_def)

lemma schedule_requeue_running:
  assumes "ready_queue s ps" and "status (tasks s p) = TASK_RUNNING" and "p = running_thread s"
    and "p \<notin> set ps" and "tag_apart s p"
  obtains s' where "schedule_requeue s = Inr s'" and "ready_queue s' (ps @ [p])"
    and "tasks s' = (tasks s)(p := (tasks s p)\<lparr>ticks := priority (tasks s p), status := TASK_READY\<rparr>)"
    and "esp s' = esp s" and "eflags s' = eflags s" and "thread_ready_list s' = thread_ready_list s"
proof -
  let ?l = "thread_ready_list s"
  from assms(1) have at: "list_at s ?l (map general_tag ps)" by (simp add: ready_queue_def)
  have nf: "elem_find ?l (general_tag p) s = Some False"
    using kq.has_at [OF at] assms(4) by (simp add: image_iff)
  have at': "list_at (list_append ?l (general_tag p) s) ?l (map general_tag ps @ [general_tag p])"
    using at tag_fresh [OF assms(5,4)] by (rule kq.at_append)
  show ?thesis
    by (rule that [of "projr (schedule_requeue s)"])
      (use assms at' nf in \<open>simp_all add: schedule_requeue_def Let_def ready_queue_def upd_task_def\<close>)
qed

section \<open>The scheduler invariant\<close>

text \<open>
  \<open>sched_inv s ps\<close>: the ready list holds \<open>ps\<close>; every thread in it is \<open>TASK_READY\<close> and its saved stack
  pointer lies in its own page; the running thread is \<open>TASK_RUNNING\<close>, is not in the ready list, and
  runs on the stack in its own page, with room for the frame of \<open>switch_to\<close>.  The offsets are those
  at which \<open>switch_to\<close> and \<open>schedule\<close> leave the stack pointer.
\<close>

definition saved_ok :: "'a kstate_scheme \<Rightarrow> addr \<Rightarrow> bool" where
  "saved_ok s q \<longleftrightarrow> (let k = self_kstack (tasks s q) in frame (k + 12) = q \<and> frame (k + 20) = q \<and> frame (k + 28) = q)"

definition stack_ok :: "'a kstate_scheme \<Rightarrow> addr \<Rightarrow> bool" where
  "stack_ok s p \<longleftrightarrow> frame (esp s) = p \<and> frame (esp s - 8) = p \<and> frame (esp s - 16) = p"

definition sched_inv :: "'a kstate_scheme \<Rightarrow> addr list \<Rightarrow> bool" where
  "sched_inv s ps \<longleftrightarrow>
     ready_queue s ps \<and>
     (\<forall>q \<in> set ps. status (tasks s q) = TASK_READY \<and> saved_ok s q) \<and>
     (let p = running_thread s in
        status (tasks s p) = TASK_RUNNING \<and> p \<notin> set ps \<and> tag_apart s p \<and> stack_ok s p)"

lemma ready_queue_distinct:
  assumes "ready_queue s ps"
  shows "distinct ps" and "q \<in> set ps \<Longrightarrow> tag_apart s q"
proof -
  have d: "distinct (list_nodes (thread_ready_list s) (map general_tag ps))"
    using assms by (intro kq.at_distinct) (simp add: ready_queue_def)
  then show "distinct ps" by (auto simp: list_nodes_def distinct_map)
  show "tag_apart s q" if "q \<in> set ps"
  proof -
    have "thread_ready_list s \<notin> general_tag ` set ps" "list_tail (thread_ready_list s) \<notin> general_tag ` set ps"
      using d by (auto simp: list_nodes_def)
    then show ?thesis unfolding tag_apart_def using that by (metis imageI)
  qed
qed

lemma running_thread_frame: "running_thread s = frame (esp s)"
  by (simp add: running_thread_def frame_def)

lemma tag_apart_fields: "thread_ready_list s' = thread_ready_list s \<Longrightarrow> tag_apart s' p = tag_apart s p"
  by (simp add: tag_apart_def)

lemma schedule_back_fields [simp]:
  "esp (schedule_back s) = esp s + 8" "tasks (schedule_back s) = tasks s" "eflags (schedule_back s) = eflags s"
  "thread_ready_list (schedule_back s) = thread_ready_list s"
  "ready_queue (schedule_back s) ps = ready_queue s ps"
  by (simp_all add: schedule_back_def ready_queue_def)

text \<open>The switch to the head \<open>q\<close> of the queue \<open>q # qs\<close> establishes the invariant for \<open>qs\<close>.\<close>

lemma sched_inv_after_pick:
  assumes rq: "ready_queue s (q # qs)" and rdy: "\<forall>r \<in> set (q # qs). status (tasks s r) = TASK_READY"
    and sav: "\<forall>r \<in> set (q # qs). r \<noteq> cur \<longrightarrow> saved_ok s r" and stk: "stack_ok s cur"
  obtains s' where "schedule_pick cur s = Inr s'" and "sched_inv (schedule_back s') qs"
    and "running_thread s' = q" and "running_thread (schedule_back s') = q" and "eflags s' = eflags s"
    and "\<forall>r. r \<noteq> q \<and> r \<noteq> cur \<longrightarrow> tasks s' r = tasks s r"
    and "status (tasks s' cur) = (if cur = q then TASK_RUNNING else status (tasks s cur))"
    and "ticks (tasks s' cur) = ticks (tasks s cur)" and "self_kstack (tasks s' cur) = esp s - 28"
    and "thread_ready_list s' = thread_ready_list s" and "q \<noteq> cur \<longrightarrow> esp s' = self_kstack (tasks s q) + 20"
proof -
  let ?ts = "(tasks s)(q := (tasks s q)\<lparr>status := TASK_RUNNING\<rparr>)"
  obtain s' where s': "schedule_pick cur s = Inr s'" "ready_queue s' qs"
    "tasks s' = ?ts(cur := (?ts cur)\<lparr>self_kstack := esp s - 28\<rparr>)"
    "esp s' = self_kstack (tasks s' q) + 20" "eflags s' = eflags s" "thread_ready_list s' = thread_ready_list s"
    using schedule_pick_ready [OF rq] by blast
  have dist: "q \<notin> set qs" "tag_apart s q"
    using ready_queue_distinct [OF rq] by auto
  have saved: "saved_ok s' r" if "r \<in> set (q # qs)" for r
    using that sav stk s'(3) by (auto simp: saved_ok_def stack_ok_def Let_def algebra_simps)
  then have stk': "stack_ok (schedule_back s') q"
    by (auto simp: stack_ok_def saved_ok_def Let_def s'(4) algebra_simps)
  have run: "running_thread s' = q" "running_thread (schedule_back s') = q"
    using saved [of q] stk' by (simp_all add: running_thread_frame s'(4) saved_ok_def Let_def stack_ok_def)
  have inv: "sched_inv (schedule_back s') qs"
    using s'(2,3,6) saved rdy dist stk' run(2) tag_apart_fields [of "schedule_back s'" s q]
    by (auto simp: sched_inv_def Let_def saved_ok_def)
  show ?thesis
    by (rule that [OF s'(1) inv run s'(5)]) (simp_all add: s'(3,4,6))
qed

text \<open>The running thread gives the processor away because its time is up: round robin.\<close>

lemma schedule_out_running:
  assumes inv: "sched_inv s ps" and off: "intr_get_status s = INTR_OFF"
  defines "p \<equiv> running_thread s"
  defines "q \<equiv> hd (ps @ [p])"
  obtains s' where "schedule_out s = Inr s'" and "sched_inv (schedule_back s') (tl (ps @ [p]))"
    and "running_thread s' = q" and "running_thread (schedule_back s') = q" and "eflags s' = eflags s"
    and "ticks (tasks s' p) = priority (tasks s p)"
    and "\<forall>r. r \<noteq> p \<and> r \<noteq> q \<longrightarrow> tasks s' r = tasks s r"
    and "self_kstack (tasks s' p) = esp s - 28"
    and "status (tasks s' p) = (if q = p then TASK_RUNNING else TASK_READY)" and "q \<noteq> p \<longrightarrow> esp s' = self_kstack (tasks s q) + 20"
proof -
  have p: "status (tasks s p) = TASK_RUNNING" "p \<notin> set ps" "tag_apart s p" "stack_ok s p" "ready_queue s ps"
    using inv by (auto simp: sched_inv_def Let_def p_def)
  obtain s1 where s1: "schedule_requeue s = Inr s1" "ready_queue s1 (ps @ [p])"
    "tasks s1 = (tasks s)(p := (tasks s p)\<lparr>ticks := priority (tasks s p), status := TASK_READY\<rparr>)"
    "esp s1 = esp s" "eflags s1 = eflags s" "thread_ready_list s1 = thread_ready_list s"
    using schedule_requeue_running [OF p(5,1) _ p(2,3)] p_def by blast
  have rq: "ready_queue s1 (q # tl (ps @ [p]))" using s1(2) by (simp add: q_def)
  have mem: "set (q # tl (ps @ [p])) = insert p (set ps)" by (cases ps) (auto simp: q_def)
  have rdy: "\<forall>r \<in> set (q # tl (ps @ [p])). status (tasks s1 r) = TASK_READY"
    and sav: "\<forall>r \<in> set (q # tl (ps @ [p])). r \<noteq> p \<longrightarrow> saved_ok s1 r"
    unfolding mem using inv p(2) by (auto simp: s1(3) sched_inv_def saved_ok_def)
  have stk: "stack_ok s1 p" using p(4) by (simp add: stack_ok_def s1(4))
  obtain s' where s': "schedule_pick p s1 = Inr s'" "sched_inv (schedule_back s') (tl (ps @ [p]))"
    "running_thread s' = q" "running_thread (schedule_back s') = q" "eflags s' = eflags s1"
    "\<forall>r. r \<noteq> q \<and> r \<noteq> p \<longrightarrow> tasks s' r = tasks s1 r"
    "status (tasks s' p) = (if p = q then TASK_RUNNING else status (tasks s1 p))"
    "ticks (tasks s' p) = ticks (tasks s1 p)" "self_kstack (tasks s' p) = esp s1 - 28"
    "q \<noteq> p \<longrightarrow> esp s' = self_kstack (tasks s1 q) + 20"
    by (rule sched_inv_after_pick [OF rq rdy sav stk])
  have "schedule_out s = Inr s'"
    using off s1(1) s'(1) by (simp add: schedule_out_def p_def)
  with s' show ?thesis by (intro that [of s']) (simp_all add: s1(3,4,5))
qed

text \<open>The running thread was marked as not running: it leaves the queue rotation.\<close>

lemma schedule_out_blocked:
  assumes rq: "ready_queue s (q # qs)" and st: "status (tasks s p) \<noteq> TASK_RUNNING" and p: "p = running_thread s"
    and rdy: "\<forall>r \<in> set (q # qs). status (tasks s r) = TASK_READY \<and> saved_ok s r"
    and stk: "stack_ok s p" and off: "intr_get_status s = INTR_OFF" and np: "p \<notin> set (q # qs)"
  obtains s' where "schedule_out s = Inr s'" and "sched_inv (schedule_back s') qs"
    and "running_thread s' = q" and "running_thread (schedule_back s') = q" and "eflags s' = eflags s"
    and "status (tasks s' p) = status (tasks s p)" and "\<forall>r. r \<noteq> p \<and> r \<noteq> q \<longrightarrow> tasks s' r = tasks s r"
    and "self_kstack (tasks s' p) = esp s - 28" and "thread_ready_list s' = thread_ready_list s"
proof -
  have req: "schedule_requeue s = Inr s" using st p by (simp add: schedule_requeue_def)
  have "p \<noteq> q" using np by simp
  obtain s' where s': "schedule_pick p s = Inr s'" "sched_inv (schedule_back s') qs"
    "running_thread s' = q" "running_thread (schedule_back s') = q" "eflags s' = eflags s"
    "\<forall>r. r \<noteq> q \<and> r \<noteq> p \<longrightarrow> tasks s' r = tasks s r"
    "status (tasks s' p) = (if p = q then TASK_RUNNING else status (tasks s p))"
    "self_kstack (tasks s' p) = esp s - 28" "thread_ready_list s' = thread_ready_list s"
    by (rule sched_inv_after_pick [OF rq _ _ stk]) (use rdy in auto)
  have "schedule_out s = Inr s'"
    using off s'(1) req p by (simp add: schedule_out_def)
  with s' \<open>p \<noteq> q\<close> show ?thesis by (intro that [of s']) simp_all
qed

section \<open>Blocking and waking\<close>

definition blocked_status :: "task_status \<Rightarrow> bool" where
  "blocked_status st \<longleftrightarrow> TASK_BLOCKED = st \<or> TASK_WAITING = st \<or> TASK_HANDGING = st"

lemma sched_inv_cli [simp]: "sched_inv (s\<lparr>eflags := x\<rparr>) ps = sched_inv s ps"
  by (simp add: sched_inv_def ready_queue_def saved_ok_def stack_ok_def tag_apart_def)

lemma thread_block_out_inv:
  assumes inv: "sched_inv s (q # qs)" and st: "blocked_status stat"
  defines "p \<equiv> running_thread s"
  obtains s' where "thread_block_out stat s = Inr (intr_get_status s, s')"
    and "sched_inv (schedule_back s') qs" and "running_thread s' = q" and "running_thread (schedule_back s') = q"
    and "status (tasks s' p) = stat" and "\<forall>r. r \<noteq> p \<and> r \<noteq> q \<longrightarrow> tasks s' r = tasks s r"
    and "intr_get_status s' = INTR_OFF" and "saved_ok s' p" and "p \<notin> set (q # qs)"
    and "thread_ready_list s' = thread_ready_list s"
proof -
  let ?s = "upd_task p (\<lambda>t. t\<lparr>status := stat\<rparr>) (cli s)"
  have p: "p \<notin> set (q # qs)" "stack_ok s p" "ready_queue s (q # qs)"
    using inv by (auto simp: sched_inv_def Let_def p_def)
  have run: "running_thread ?s = p" by (simp add: p_def cli_eq)
  have prem: "ready_queue ?s (q # qs)" "status (tasks ?s p) \<noteq> TASK_RUNNING" "stack_ok ?s p"
    "\<forall>r \<in> set (q # qs). status (tasks ?s r) = TASK_READY \<and> saved_ok ?s r" "intr_get_status ?s = INTR_OFF"
    using p inv st by (auto simp: ready_queue_def cli_eq blocked_status_def stack_ok_def saved_ok_def sched_inv_def
        intr_get_status_eq bit_clear_IF)
  obtain s' where s': "schedule_out ?s = Inr s'" "sched_inv (schedule_back s') qs"
    "running_thread s' = q" "running_thread (schedule_back s') = q" "eflags s' = eflags ?s"
    "status (tasks s' p) = status (tasks ?s p)" "\<forall>r. r \<noteq> p \<and> r \<noteq> q \<longrightarrow> tasks s' r = tasks ?s r"
    "self_kstack (tasks s' p) = esp ?s - 28" "thread_ready_list s' = thread_ready_list ?s"
    by (rule schedule_out_blocked [OF prem(1,2) run [symmetric] prem(4,3,5) p(1)])
  have "thread_block_out stat s = Inr (intr_get_status s, s')"
    using st s'(1) by (simp add: thread_block_out_def split_beta Let_def blocked_status_def p_def cli_eq)
  moreover have "saved_ok s' p"
    unfolding saved_ok_def Let_def s'(8) using p(2) by (simp add: stack_ok_def cli_eq)
  moreover have "intr_get_status s' = INTR_OFF"
    using s'(5) by (simp add: intr_get_status_eq cli_eq bit_clear_IF)
  ultimately show ?thesis
    using s' p(1) by (intro that [of s']) (simp_all add: cli_eq)
qed

text \<open>With an empty ready list, blocking is a panic.\<close>

lemma thread_block_out_empty:
  assumes "ready_queue s []" and "blocked_status stat"
  shows "thread_block_out stat s = Inl (Panic ''schedule'' ''!list_empty(&thread_ready_list)'')"
proof -
  let ?s = "upd_task (running_thread s) (\<lambda>t. t\<lparr>status := stat\<rparr>) (cli s)"
  have "schedule_requeue ?s = Inr ?s" "ready_queue ?s []" "intr_get_status ?s = INTR_OFF"
    using assms by (auto simp: schedule_requeue_def Let_def cli_eq blocked_status_def ready_queue_def
        intr_get_status_eq bit_clear_IF)
  then have "schedule_out ?s = Inl (Panic ''schedule'' ''!list_empty(&thread_ready_list)'')"
    by (simp add: schedule_out_def schedule_pick_empty)
  with assms(2) show ?thesis
    by (simp add: thread_block_out_def split_beta Let_def blocked_status_def cli_eq)
qed

lemma thread_unblock_inv:
  assumes inv: "sched_inv s ps" and st: "blocked_status (status (tasks s r))" and sv: "saved_ok s r"
    and apart: "tag_apart s r"
  obtains s' where "thread_unblock r s = Inr s'" and "sched_inv s' (r # ps)" and "eflags s' = eflags s"
    and "tasks s' = (tasks s)(r := (tasks s r)\<lparr>status := TASK_READY\<rparr>)" and "running_thread s' = running_thread s"
    and "thread_ready_list s' = thread_ready_list s"
proof -
  let ?l = "thread_ready_list s"
  have rq: "list_at s ?l (map general_tag ps)" using inv by (simp add: sched_inv_def ready_queue_def)
  have r: "r \<notin> set ps" "r \<noteq> running_thread s"
    using inv st by (auto simp: sched_inv_def blocked_status_def Let_def)
  have nf: "elem_find ?l (general_tag r) (cli s) = Some False"
    using kq.has_at [of "cli s" ?l "map general_tag ps"] rq r(1) by (simp add: cli_eq image_iff)
  have at': "list_at (list_push ?l (general_tag r) (cli s)) ?l (general_tag r # map general_tag ps)"
    using rq tag_fresh [OF apart r(1)] by (intro kq.at_push) (simp_all add: cli_eq)
  let ?s' = "restore_intr (intr_get_status s)
      (upd_task r (\<lambda>t. t\<lparr>status := TASK_READY\<rparr>) (list_push ?l (general_tag r) (cli s)))"
  have ub: "thread_unblock r s = Inr ?s'"
    using st nf by (simp add: thread_unblock_def split_beta Let_def blocked_status_def cli_eq) auto
  have fields: "tasks ?s' = (tasks s)(r := (tasks s r)\<lparr>status := TASK_READY\<rparr>)" "esp ?s' = esp s"
    "thread_ready_list ?s' = ?l" "eflags ?s' = eflags s"
    by (simp_all add: restore_intr_eq cli_eq upd_task_def)
  have rq': "ready_queue ?s' (r # ps)" using at' by (simp add: ready_queue_def restore_intr_eq cli_eq)
  have "sched_inv ?s' (r # ps)"
    using inv r rq' sv tag_apart_fields [OF fields(3)]
    by (auto simp: sched_inv_def Let_def fields saved_ok_def stack_ok_def running_thread_def)
  with ub fields show ?thesis by (intro that [of ?s']) (simp_all add: running_thread_def)
qed

section \<open>Rounds\<close>

text \<open>\<open>k\<close> times over, the running thread calls \<open>schedule\<close> and the thread that is switched in returns from it.\<close>

fun rounds :: "nat \<Rightarrow> 'a kstate_scheme \<Rightarrow> 'a kstate_scheme res" where
  "rounds 0 s = Inr s"
| "rounds (Suc k) s = bindE (schedule_out s) (\<lambda>s. rounds k (schedule_back s))"

lemma rounds_rotate:
  assumes "sched_inv s ps" and "intr_get_status s = INTR_OFF"
  shows "\<exists>s'. rounds k s = Inr s' \<and> sched_inv s' (tl (rotate k (running_thread s # ps))) \<and>
    running_thread s' = hd (rotate k (running_thread s # ps)) \<and> intr_get_status s' = INTR_OFF"
  using assms
proof (induction k arbitrary: s ps)
  case 0
  then show ?case by simp
next
  case (Suc k)
  let ?q = "hd (ps @ [running_thread s])" and ?qs = "tl (ps @ [running_thread s])"
  obtain s' where s': "schedule_out s = Inr s'" "sched_inv (schedule_back s') ?qs"
    "running_thread (schedule_back s') = ?q" "eflags s' = eflags s"
    using schedule_out_running [OF Suc.prems] by metis
  have "intr_get_status (schedule_back s') = INTR_OFF"
    using Suc.prems(2) s'(4) by (simp add: intr_get_status_eq)
  moreover have "?q # ?qs = rotate1 (running_thread s # ps)" by simp
  ultimately show ?case
    using Suc.IH [OF s'(2)] s'(1,3) by (simp add: rotate1_rotate_swap)
qed

section \<open>Properties\<close>

text \<open>A state with a running thread and one ready thread, for the examples.\<close>

definition two_threads :: "'a kstate_scheme \<Rightarrow> 'a kstate_scheme" where
  "two_threads s = list_append 0x1000 0xc0100024 (list_init 0x1000 (s\<lparr>eflags := 2, thread_ready_list := 0x1000,
     esp := 0xc009ef00, tasks := (tasks s)
       (0xc009e000 := (tasks s 0)\<lparr>status := TASK_RUNNING, priority := 31\<rparr>,
        0xc0100000 := (tasks s 0)\<lparr>status := TASK_READY, self_kstack := 0xc0100e50\<rparr>)\<rparr>))"

lemma two_threads_fields:
  "tasks (two_threads s) 0xc009e000 = (tasks s 0)\<lparr>status := TASK_RUNNING, priority := 31\<rparr>"
  "tasks (two_threads s) 0xc0100000 = (tasks s 0)\<lparr>status := TASK_READY, self_kstack := 0xc0100e50\<rparr>"
  "running_thread (two_threads s) = 0xc009e000" "intr_get_status (two_threads s) = INTR_OFF"
  by (simp_all add: two_threads_def running_thread_def intr_get_status_def list_init_def Let_def)

lemma two_threads_inv: "sched_inv (two_threads s) [0xc0100000]"
proof -
  let ?t = "list_init 0x1000 (s\<lparr>eflags := 2, thread_ready_list := 0x1000,
     esp := 0xc009ef00, tasks := (tasks s)
       (0xc009e000 := (tasks s 0)\<lparr>status := TASK_RUNNING, priority := 31\<rparr>,
        0xc0100000 := (tasks s 0)\<lparr>status := TASK_READY, self_kstack := 0xc0100e50\<rparr>)\<rparr>)"
  have "list_at (list_append 0x1000 0xc0100024 ?t) 0x1000 ([] @ [0xc0100024])"
    by (rule kq.at_append [OF kq.at_init]) (simp add: list_nodes_def)
  then have "ready_queue (two_threads s) [0xc0100000]"
    by (simp add: ready_queue_def two_threads_def general_tag_def list_init_def Let_def)
  then show ?thesis
    by (simp add: sched_inv_def saved_ok_def stack_ok_def tag_apart_def two_threads_fields general_tag_def)
      (simp add: two_threads_def list_init_def Let_def frame_def)
qed

text \<open>C14. \<open>schedule\<close> is round robin and keeps the scheduler invariant: the running thread, whose time is up,
  goes to the end of the ready list with its ticks refilled, and the thread at the front is switched in,
  on its own stack.\<close>

theorem schedule_round_robin:
  assumes "sched_inv s ps" and "intr_get_status s = INTR_OFF"
  shows "\<exists>s'. schedule s = Switch s' (\<lambda>t. Return () (schedule_back t)) \<and>
    sched_inv (schedule_back s') (tl (ps @ [running_thread s])) \<and>
    running_thread s' = hd (ps @ [running_thread s]) \<and>
    ticks (tasks s' (running_thread s)) = priority (tasks s (running_thread s))"
proof -
  obtain s' where "schedule_out s = Inr s'" "sched_inv (schedule_back s') (tl (ps @ [running_thread s]))"
    "running_thread s' = hd (ps @ [running_thread s])"
    "ticks (tasks s' (running_thread s)) = priority (tasks s (running_thread s))"
    using schedule_out_running [OF assms] by metis
  then show ?thesis by (simp add: schedule_def)
qed

theorem schedule_round_robin_witness:
  "\<forall>s :: kstate. \<exists>s'. schedule (two_threads s) = Switch s' (\<lambda>t. Return () (schedule_back t)) \<and>
    running_thread s' = 0xc0100000 \<and> ticks (tasks s' 0xc009e000) = 31"
  using schedule_round_robin [OF two_threads_inv] by (auto simp: two_threads_fields)

text \<open>C15. Nobody starves: after \<open>k\<close> rounds of the scheduler the processor has gone \<open>k\<close> places around the circle of
  the running thread and the ready threads; a full circle gives it back to the first.\<close>

theorem schedule_rotates:
  assumes "sched_inv s ps" and "intr_get_status s = INTR_OFF"
  shows "\<exists>s'. rounds k s = Inr s' \<and>
    running_thread s' = (running_thread s # ps) ! (k mod Suc (length ps))"
proof -
  have "hd (rotate k (running_thread s # ps)) = (running_thread s # ps) ! (k mod Suc (length ps))"
    by (subst hd_rotate_conv_nth) simp_all
  with rounds_rotate [OF assms, of k] show ?thesis by metis
qed

theorem schedule_rotates_witness:
  "\<forall>s :: kstate. (\<exists>s'. rounds 1 (two_threads s) = Inr s' \<and> running_thread s' = 0xc0100000) \<and>
       (\<exists>s'. rounds 2 (two_threads s) = Inr s' \<and> running_thread s' = 0xc009e000)"
proof
  fix s :: kstate
  show "(\<exists>s'. rounds 1 (two_threads s) = Inr s' \<and> running_thread s' = 0xc0100000) \<and>
       (\<exists>s'. rounds 2 (two_threads s) = Inr s' \<and> running_thread s' = 0xc009e000)"
    using schedule_rotates [OF two_threads_inv, of s 1] schedule_rotates [OF two_threads_inv, of s 2]
    by (simp add: two_threads_fields numeral_2_eq_2)
qed

text \<open>C16. \<open>thread_block\<close> takes the running thread out of the rotation: it gets the status it asked for, its
  stack pointer is saved, and the front of the ready list runs.  With an empty ready list the
  assertion of \<open>schedule\<close> fails.\<close>

theorem thread_block_switches:
  assumes "sched_inv s ps" and "blocked_status stat"
  shows "case ps of
      [] \<Rightarrow> thread_block stat s = Stop (Panic ''schedule'' ''!list_empty(&thread_ready_list)'')
    | q # qs \<Rightarrow> \<exists>s'. thread_block stat s = Switch s' (\<lambda>t. Return () (thread_block_back (intr_get_status s) t)) \<and>
        sched_inv (schedule_back s') qs \<and> running_thread s' = q \<and>
        status (tasks s' (running_thread s)) = stat \<and> saved_ok s' (running_thread s)"
proof (cases ps)
  case Nil
  then have "ready_queue s []" using assms(1) by (simp add: sched_inv_def)
  from thread_block_out_empty [OF this assms(2)] Nil show ?thesis by (simp add: thread_block_def)
next
  case (Cons q qs)
  with assms(1) have inv: "sched_inv s (q # qs)" by simp
  from thread_block_out_inv [OF inv assms(2)] obtain s' where
    "thread_block_out stat s = Inr (intr_get_status s, s')" "sched_inv (schedule_back s') qs"
    "running_thread s' = q" "status (tasks s' (running_thread s)) = stat" "saved_ok s' (running_thread s)"
    by metis
  with Cons show ?thesis by (simp add: thread_block_def)
qed

theorem thread_block_switches_witness:
  "\<forall>s :: kstate. \<exists>s'. thread_block TASK_BLOCKED (two_threads s) =
      Switch s' (\<lambda>t. Return () (thread_block_back INTR_OFF t)) \<and> running_thread s' = 0xc0100000"
  using thread_block_switches [OF two_threads_inv, of TASK_BLOCKED] by (auto simp: blocked_status_def two_threads_fields)

text \<open>C17. \<open>thread_unblock\<close> puts a blocked thread at the front of the ready list, so that it is the next to run,
  keeps the invariant and the interrupt flag; for a thread that is not blocked its assertion fails.\<close>

theorem thread_unblock_front:
  assumes "sched_inv s ps" and "saved_ok s r" and "tag_apart s r"
  shows "if blocked_status (status (tasks s r))
    then \<exists>s'. thread_unblock r s = Inr s' \<and> sched_inv s' (r # ps) \<and> eflags s' = eflags s \<and>
      status (tasks s' r) = TASK_READY
    else \<exists>txt. thread_unblock r s = Inl (Panic ''thread_unblock'' txt)"
proof (cases "blocked_status (status (tasks s r))")
  case True
  from thread_unblock_inv [OF assms(1) True assms(2,3)] obtain s' where
    "thread_unblock r s = Inr s'" "sched_inv s' (r # ps)" "eflags s' = eflags s"
    "tasks s' = (tasks s)(r := (tasks s r)\<lparr>status := TASK_READY\<rparr>)"
    by metis
  with True show ?thesis by auto
next
  case False
  then show ?thesis by (auto simp: thread_unblock_def split_beta Let_def blocked_status_def cli_eq)
qed

theorem thread_unblock_front_witness:
  "\<forall>s :: kstate. \<exists>s'. thread_unblock 0xc0200000 ((two_threads s)\<lparr>tasks := (tasks (two_threads s))
      (0xc0200000 := (tasks s 0)\<lparr>status := TASK_BLOCKED, self_kstack := 0xc0200e50\<rparr>)\<rparr>) = Inr s' \<and>
      sched_inv s' [0xc0200000, 0xc0100000]"
proof
  fix s :: kstate
  let ?s = "(two_threads s)\<lparr>tasks := (tasks (two_threads s))
      (0xc0200000 := (tasks s 0)\<lparr>status := TASK_BLOCKED, self_kstack := 0xc0200e50\<rparr>)\<rparr>"
  have inv: "sched_inv ?s [0xc0100000]"
    using two_threads_inv [of s]
    by (simp add: sched_inv_def ready_queue_def saved_ok_def stack_ok_def tag_apart_def two_threads_fields)
  have "saved_ok ?s 0xc0200000" by (simp add: saved_ok_def frame_def)
  moreover have "tag_apart ?s 0xc0200000"
    by (simp add: tag_apart_def general_tag_def two_threads_def list_init_def Let_def)
  ultimately show "\<exists>s'. thread_unblock 0xc0200000 ?s = Inr s' \<and> sched_inv s' [0xc0200000, 0xc0100000]"
    using thread_unblock_front [OF inv, of "0xc0200000"] by (auto simp: blocked_status_def)
qed

end
