(* ===== verification/Sync.thy ===== *)
theory Sync
  imports Sched
begin

text \<open>
  \<open>src/thread/sync.c\<close>: semaphores and locks.  \<open>sema_down\<close> and \<open>lock_acquire\<close> can be switched out, so they are
  runs; the \<open>while\<close> loop of \<open>sema_down\<close> is corecursive: each time the thread is switched back in it tests
  the value again.

  The lemmas give the effect of each operation on every branch.  In \<open>lock_release\<close> the branch that
  would give the lock back cannot be reached: whatever \<open>holder_repeat_nr\<close> is, the function either
  returns before it or fails the assertion in front of it.
\<close>

section \<open>Model\<close>

definition sema_init :: "addr \<Rightarrow> u8 \<Rightarrow> 'a kstate_scheme \<Rightarrow> 'a kstate_scheme" where
  "sema_init psema v s =
     list_init (sema_waiters psema) (s\<lparr>sem_value := (sem_value s)(psema := v)\<rparr>)"

definition lock_init :: "addr \<Rightarrow> 'a kstate_scheme \<Rightarrow> 'a kstate_scheme" where
  "lock_init plock s =
     (let s = s\<lparr>lk_holder := (lk_holder s)(plock := NULL)\<rparr>;
          s = s\<lparr>lk_repeat := (lk_repeat s)(plock := 0)\<rparr>
      in sema_init (lock_sema plock) 1 s)"

text \<open>One pass through the body of the loop in \<open>sema_down\<close>, up to the switch in \<open>thread_block\<close>.\<close>

definition sema_down_wait :: "addr \<Rightarrow> 'a kstate_scheme \<Rightarrow> (intr_status \<times> 'a kstate_scheme) res" where
  "sema_down_wait psema s =
     (let waiters = sema_waiters psema; tag = general_tag (running_thread s) in
      bindE (of_loop (elem_find waiters tag s)) (\<lambda>found.
      ASSERT (\<not> found) ''sema_down'' ''!elem_find(&psema->waiters, &running_thread()->general_tag)''
       (if found then Inl (Panic ''sema_down'' ''sema_down: thread blocked has been in waiters_listn'')
        else thread_block_out TASK_BLOCKED (list_append waiters tag s))))"

primcorec sema_down_loop :: "addr \<Rightarrow> intr_status \<Rightarrow> 'a kstate_scheme \<Rightarrow> ('a kstate_scheme, unit) run" where
  "sema_down_loop psema old_status s =
     (if 0 = sem_value s psema then
        (case sema_down_wait psema s of
           Inl e \<Rightarrow> Stop e
         | Inr r \<Rightarrow> Switch (snd r) (\<lambda>t. sema_down_loop psema old_status (thread_block_back (fst r) t)))
      else
        (let s = s\<lparr>sem_value := (sem_value s)(psema := sem_value s psema - 1)\<rparr> in
         if 0 = sem_value s psema then Return () (restore_intr old_status s)
         else Stop (Panic ''sema_down'' ''0 == psema->value'')))"

definition sema_down :: "addr \<Rightarrow> 'a kstate_scheme \<Rightarrow> ('a kstate_scheme, unit) run" where
  "sema_down psema s = (let (old_status, s) = intr_disable s in sema_down_loop psema old_status s)"

definition sema_up :: "addr \<Rightarrow> 'a kstate_scheme \<Rightarrow> 'a kstate_scheme res" where
  "sema_up psema s =
     (let (old_status, s) = intr_disable s in
      ASSERT (0 = sem_value s psema) ''sema_up'' ''0 == psema->value''
       (bindE
         (if \<not> list_empty (sema_waiters psema) s then
            let (tag, s) = list_pop (sema_waiters psema) s
            in thread_unblock (elem2entry general_tag_off tag) s
          else Inr s)
         (\<lambda>s.
           let s = s\<lparr>sem_value := (sem_value s)(psema := sem_value s psema + 1)\<rparr> in
           ASSERT (1 = sem_value s psema) ''sema_up'' ''1 == psema->value''
            (Inr (restore_intr old_status s)))))"

definition lock_acquire :: "addr \<Rightarrow> 'a kstate_scheme \<Rightarrow> ('a kstate_scheme, unit) run" where
  "lock_acquire plock s =
     (if running_thread s = lk_holder s plock then
        Return () (s\<lparr>lk_repeat := (lk_repeat s)(plock := lk_repeat s plock + 1)\<rparr>)
      else
        bindR (sema_down (lock_sema plock) s) (\<lambda>_ s.
          let s = s\<lparr>lk_holder := (lk_holder s)(plock := running_thread s)\<rparr> in
          assertR (0 = lk_repeat s plock) ''lock_acquire'' ''0 == plock->holder_repeat_nr''
           (Return () (s\<lparr>lk_repeat := (lk_repeat s)(plock := 1)\<rparr>))))"

definition lock_release :: "addr \<Rightarrow> 'a kstate_scheme \<Rightarrow> 'a kstate_scheme res" where
  "lock_release plock s =
     ASSERT (running_thread s = lk_holder s plock) ''lock_release'' ''running_thread() == plock->holder''
      (if lk_repeat s plock > 0 then
         Inr (s\<lparr>lk_repeat := (lk_repeat s)(plock := lk_repeat s plock - 1)\<rparr>)
       else
         ASSERT (1 = lk_repeat s plock) ''lock_release'' ''1 == plock->holder_repeat_nr''
          (let s = s\<lparr>lk_holder := (lk_holder s)(plock := NULL)\<rparr>;
               s = s\<lparr>lk_repeat := (lk_repeat s)(plock := 0)\<rparr>
           in sema_up (lock_sema plock) s))"

section \<open>Semaphores\<close>

definition waiting :: "'a kstate_scheme \<Rightarrow> addr \<Rightarrow> addr list \<Rightarrow> bool" where
  "waiting s psema ws \<longleftrightarrow> list_at s (sema_waiters psema) (map general_tag ws)"

lemma sema_down_free:
  assumes "sem_value s psema = 1"
  shows "sema_down psema s = Return () (s\<lparr>sem_value := (sem_value s)(psema := 0)\<rparr>)"
  using assms
  by (simp add: sema_down_def split_beta sema_down_loop.code [of psema] cli_eq restore_intr_eq Let_def)

lemma sema_down_over:
  assumes "sem_value s psema \<noteq> 0" and "sem_value s psema \<noteq> 1"
  shows "sema_down psema s = Stop (Panic ''sema_down'' ''0 == psema->value'')"
  using assms
  by (auto simp: sema_down_def split_beta sema_down_loop.code [of psema] cli_eq Let_def)

text \<open>While the value is 0 the thread is switched out again each time it comes back.\<close>

lemma sema_down_loop_0:
  assumes "sem_value s psema = 0" and "sema_down_wait psema s = Inr (old', s')"
  shows "sema_down_loop psema old s = Switch s' (\<lambda>t. sema_down_loop psema old (thread_block_back old' t))"
  using assms by (subst sema_down_loop.code) simp

lemma lock_release_cases:
  "lock_release plock s =
     (if running_thread s \<noteq> lk_holder s plock
      then Inl (Panic ''lock_release'' ''running_thread() == plock->holder'')
      else if lk_repeat s plock = 0 then Inl (Panic ''lock_release'' ''1 == plock->holder_repeat_nr'')
      else Inr (s\<lparr>lk_repeat := (lk_repeat s)(plock := lk_repeat s plock - 1)\<rparr>))"
  by (auto simp: lock_release_def word_gt_0)

section \<open>Waiting threads\<close>

text \<open>What blocking does to the rest of the state.\<close>

lemma schedule_pick_frame:
  assumes "ready_queue s (q # qs)" and "schedule_pick cur s = Inr s'" and "list_at s k ys"
    and "set (list_nodes k ys) \<inter> set (list_nodes (thread_ready_list s) (map general_tag (q # qs))) = {}"
  shows "list_at s' k ys" and "sem_value s' = sem_value s"
proof -
  let ?l = "thread_ready_list s"
  have q: "list_at s ?l (general_tag q # map general_tag qs)" using assms(1) by (simp add: ready_queue_def)
  have ne: "\<not> list_empty ?l s" using kq.is_empty_at [OF q] by simp
  have "list_at (snd (list_pop ?l s)) k ys"
    using list_at_frame_pop [OF q assms(3)] assms(4) by simp
  then show "list_at s' k ys" "sem_value s' = sem_value s"
    using assms(2) ne by (auto simp: schedule_pick_def split_beta Let_def switch_to_def upd_task_def list_pop_def
        list_remove_eq)
qed

lemma thread_block_out_frame:
  assumes "ready_queue s (q # qs)" and "thread_block_out stat s = Inr (old, s')" and "blocked_status stat"
    and "list_at s k ys"
    and "set (list_nodes k ys) \<inter> set (list_nodes (thread_ready_list s) (map general_tag (q # qs))) = {}"
  shows "list_at s' k ys" and "sem_value s' = sem_value s"
proof -
  let ?s = "upd_task (running_thread s) (\<lambda>t. t\<lparr>status := stat\<rparr>) (cli s)"
  have "schedule_requeue ?s = Inr ?s"
    using assms(3) by (auto simp: schedule_requeue_def Let_def cli_eq blocked_status_def)
  moreover have "intr_get_status ?s = INTR_OFF" by (simp add: intr_get_status_eq cli_eq bit_clear_IF)
  ultimately have pick: "schedule_pick (running_thread s) ?s = Inr s'"
    using assms(2,3) by (auto simp: thread_block_out_def split_beta Let_def schedule_out_def blocked_status_def cli_eq
        split: sum.splits)
  have "ready_queue ?s (q # qs)" "list_at ?s k ys" "thread_ready_list ?s = thread_ready_list s"
    using assms(1,4) by (simp_all add: ready_queue_def cli_eq)
  with schedule_pick_frame [of ?s q qs, OF _ pick, of k ys] assms(5)
  show "list_at s' k ys" "sem_value s' = sem_value s" by (simp_all add: upd_task_def cli_eq)
qed

text \<open>
  The scheduler and one semaphore: the threads \<open>ws\<close> wait on it, in order; they are blocked, with their
  stacks saved.  The last conjuncts say that the four end nodes of the two lists and the tags of the
  threads are different objects.
\<close>

definition tags_apart :: "'a kstate_scheme \<Rightarrow> addr \<Rightarrow> addr set \<Rightarrow> bool" where
  "tags_apart s psema A \<longleftrightarrow>
     (\<forall>p \<in> A. tag_apart s p \<and> general_tag p \<noteq> sema_waiters psema \<and> general_tag p \<noteq> list_tail (sema_waiters psema))"

definition lists_apart :: "'a kstate_scheme \<Rightarrow> addr \<Rightarrow> bool" where
  "lists_apart s psema \<longleftrightarrow>
     {thread_ready_list s, list_tail (thread_ready_list s)} \<inter> {sema_waiters psema, list_tail (sema_waiters psema)} = {}"

definition sema_inv :: "'a kstate_scheme \<Rightarrow> addr \<Rightarrow> addr list \<Rightarrow> addr list \<Rightarrow> bool" where
  "sema_inv s psema ps ws \<longleftrightarrow>
     sched_inv s ps \<and> waiting s psema ws \<and>
     (\<forall>w \<in> set ws. status (tasks s w) = TASK_BLOCKED \<and> saved_ok s w) \<and>
     lists_apart s psema \<and> tags_apart s psema (insert (running_thread s) (set ps \<union> set ws))"

lemma sema_inv_distinct:
  assumes "sema_inv s psema ps ws"
  shows "running_thread s \<notin> set ws" and "set ps \<inter> set ws = {}"
  using assms by (force simp: sema_inv_def sched_inv_def Let_def)+

lemma apart_nodes:
  assumes "lists_apart s psema" and "tags_apart s psema (set ps \<union> set ws)" and "set ps \<inter> set ws = {}"
  shows "set (list_nodes (sema_waiters psema) (map general_tag ws)) \<inter>
         set (list_nodes (thread_ready_list s) (map general_tag ps)) = {}"
  using assms unfolding lists_apart_def tags_apart_def tag_apart_def list_nodes_def by auto

lemma sched_inv_cong:
  assumes "sched_inv s ps" and "tasks s' = tasks s" and "esp s' = esp s"
    and "thread_ready_list s' = thread_ready_list s" and "ready_queue s' ps"
  shows "sched_inv s' ps"
  using assms by (simp add: sched_inv_def running_thread_def saved_ok_def stack_ok_def tag_apart_def)

lemma cli_fields [simp]:
  "tasks (cli s) = tasks s" "esp (cli s) = esp s" "thread_ready_list (cli s) = thread_ready_list s"
  "sem_value (cli s) = sem_value s" "running_thread (cli s) = running_thread s"
  by (simp_all add: cli_eq)

lemma sem_value_list_op [simp]:
  "sem_value (list_append l e s) = sem_value s" "sem_value (list_push l e s) = sem_value s"
  "sem_value (snd (list_pop l s)) = sem_value s"
  by (simp_all add: list_append_def list_push_def list_pop_def list_insert_before_eq list_remove_eq Let_def)

lemma blocked_status_simps [simp]:
  "blocked_status TASK_BLOCKED" "blocked_status TASK_WAITING" "blocked_status TASK_HANDGING"
  by (simp_all add: blocked_status_def)

lemma thread_unblock_frame:
  assumes "ready_queue s ps" and "thread_unblock r s = Inr s'" and "list_at s k ys" and "general_tag r \<notin> set (list_nodes k ys)"
    and "set (list_nodes k ys) \<inter> set (list_nodes (thread_ready_list s) (map general_tag ps)) = {}"
  shows "list_at s' k ys" and "sem_value s' = sem_value s"
proof -
  have "list_at (cli s) (thread_ready_list s) (map general_tag ps)" "list_at (cli s) k ys"
    using assms(1,3) by (simp_all add: ready_queue_def cli_eq)
  then have "list_at (list_push (thread_ready_list s) (general_tag r) (cli s)) k ys"
    by (rule list_at_frame_push) (use assms(4,5) in auto)
  with assms(2,3) show "list_at s' k ys" "sem_value s' = sem_value s"
    by (auto simp: thread_unblock_def split_beta Let_def restore_intr_eq ASSERT_def of_loop_def upd_task_def
        split: if_splits option.splits sum.splits)
qed

lemma sema_down_wait_block:
  assumes inv: "sema_inv s psema (q # qs) ws"
  defines "p \<equiv> running_thread s"
  obtains s' where "sema_down_wait psema s = Inr (intr_get_status s, s')"
    and "sema_inv (schedule_back s') psema qs (ws @ [p])" and "running_thread (schedule_back s') = q"
    and "sem_value s' = sem_value s" and "status (tasks s' p) = TASK_BLOCKED"
proof -
  let ?l = "sema_waiters psema"
  let ?t = "list_append ?l (general_tag p) s"
  have w: "list_at s ?l (map general_tag ws)" and rq: "list_at s (thread_ready_list s) (map general_tag (q # qs))"
    and sc: "sched_inv s (q # qs)" and la: "lists_apart s psema"
    and ta: "tags_apart s psema (insert p (set (q # qs) \<union> set ws))"
    using inv by (simp_all add: sema_inv_def waiting_def sched_inv_def ready_queue_def p_def)
  have np: "p \<notin> set ws" "set (q # qs) \<inter> set ws = {}" "p \<notin> set (q # qs)"
    using sema_inv_distinct [OF inv] sc by (simp_all add: sched_inv_def Let_def p_def)
  have nf: "elem_find ?l (general_tag p) s = Some False" using kq.has_at [OF w] np(1) by (simp add: image_iff)
  have fresh: "general_tag p \<notin> set (list_nodes ?l (map general_tag ws))"
    "general_tag p \<notin> set (list_nodes (thread_ready_list s) (map general_tag (q # qs)))"
    using ta np by (auto simp: tags_apart_def tag_apart_def list_nodes_def)
  have w': "list_at ?t ?l (map general_tag (ws @ [p]))"
    using kq.at_append [OF w fresh(1)] by simp
  have rq': "list_at ?t (thread_ready_list s) (map general_tag (q # qs))"
    using list_at_frame_append [OF w rq _ fresh(2)] apart_nodes [OF la _ np(2)] ta by (auto simp: tags_apart_def)
  have fields: "running_thread ?t = p" "thread_ready_list ?t = thread_ready_list s" "tasks ?t = tasks s"
    "esp ?t = esp s" "sem_value ?t = sem_value s" "intr_get_status ?t = intr_get_status s"
    by (simp_all add: p_def running_thread_def intr_get_status_def list_append_def list_insert_before_eq)
  have sc': "sched_inv ?t (q # qs)"
    by (rule sched_inv_cong [OF sc]) (use rq' in \<open>simp_all add: ready_queue_def\<close>)
  obtain s' where s': "thread_block_out TASK_BLOCKED ?t = Inr (intr_get_status ?t, s')"
    "sched_inv (schedule_back s') qs" "running_thread s' = q" "running_thread (schedule_back s') = q"
    "status (tasks s' (running_thread ?t)) = TASK_BLOCKED"
    "\<forall>r. r \<noteq> running_thread ?t \<and> r \<noteq> q \<longrightarrow> tasks s' r = tasks ?t r"
    "saved_ok s' (running_thread ?t)" "thread_ready_list s' = thread_ready_list ?t"
    by (rule thread_block_out_inv [OF sc', of TASK_BLOCKED]) simp_all
  have dis: "set (list_nodes ?l (map general_tag (ws @ [p]))) \<inter>
      set (list_nodes (thread_ready_list ?t) (map general_tag (q # qs))) = {}"
    using apart_nodes [of ?t psema "q # qs" "ws @ [p]"] la ta np
    by (auto simp: lists_apart_def tags_apart_def tag_apart_def fields)
  have w'': "list_at s' ?l (map general_tag (ws @ [p]))" "sem_value s' = sem_value s"
    using thread_block_out_frame [of ?t q qs, OF _ s'(1) _ w' dis] rq'
    by (simp_all add: ready_queue_def fields blocked_status_def)
  have wt: "\<forall>w \<in> set (ws @ [p]). status (tasks s' w) = TASK_BLOCKED \<and> saved_ok s' w"
  proof
    fix w
    assume "w \<in> set (ws @ [p])"
    then consider "w = p" | "w \<in> set ws" "w \<noteq> p" "w \<noteq> q" using np by auto
    then show "status (tasks s' w) = TASK_BLOCKED \<and> saved_ok s' w"
      using s'(5,6,7) inv by cases (auto simp: fields sema_inv_def saved_ok_def)
  qed
  have "sema_inv (schedule_back s') psema qs (ws @ [p])"
    using s'(2,4,8) w''(1) wt la ta
    by (auto simp: sema_inv_def waiting_def lists_apart_def tags_apart_def tag_apart_def fields saved_ok_def schedule_back_def)
  moreover have "sema_down_wait psema s = Inr (intr_get_status s, s')"
    using nf s'(1) fields(6) by (simp add: sema_down_wait_def Let_def p_def)
  ultimately show ?thesis using s'(4,5) w''(2) by (intro that [of s']) (simp_all add: fields)
qed

lemma sema_inv_fields [simp]:
  "sema_inv (s\<lparr>eflags := x\<rparr>) psema ps ws = sema_inv s psema ps ws"
  "sema_inv (s\<lparr>sem_value := v\<rparr>) psema ps ws = sema_inv s psema ps ws"
  by (simp_all add: sema_inv_def sched_inv_def waiting_def lists_apart_def tags_apart_def tag_apart_def saved_ok_def
      stack_ok_def ready_queue_def list_at_def)

lemma sema_up_wake:
  assumes inv: "sema_inv s psema ps (w # ws)" and z: "sem_value s psema = 0"
  obtains s' where "sema_up psema s = Inr s'" and "sema_inv s' psema (w # ps) ws" and "sem_value s' psema = 1"
    and "status (tasks s' w) = TASK_READY" and "running_thread s' = running_thread s" and "eflags s' = eflags s"
proof -
  let ?l = "sema_waiters psema"
  let ?t = "snd (list_pop ?l (cli s))"
  have wl: "list_at (cli s) ?l (general_tag w # map general_tag ws)"
    and rq: "list_at (cli s) (thread_ready_list s) (map general_tag ps)"
    and sc: "sched_inv s ps" and la: "lists_apart s psema"
    and ta: "tags_apart s psema (insert (running_thread s) (set ps \<union> set (w # ws)))"
    using inv by (simp_all add: sema_inv_def waiting_def sched_inv_def ready_queue_def cli_eq)
  note dist = sema_inv_distinct [OF inv]
  have ne: "\<not> list_empty ?l (cli s)" "fst (list_pop ?l (cli s)) = general_tag w"
    using kq.is_empty_at [OF wl] kq.pop_fst [OF wl] by simp_all
  have t: "list_at ?t ?l (map general_tag ws)" using wl by (rule kq.at_pop)
  have dis: "set (list_nodes ?l (general_tag w # map general_tag ws)) \<inter>
      set (list_nodes (thread_ready_list s) (map general_tag ps)) = {}"
    using apart_nodes [OF la _ dist(2)] ta by (auto simp: tags_apart_def)
  have rq': "list_at ?t (thread_ready_list s) (map general_tag ps)"
    using list_at_frame_pop [OF wl rq] dis by blast
  have fields: "running_thread ?t = running_thread s" "thread_ready_list ?t = thread_ready_list s" "tasks ?t = tasks s"
    "esp ?t = esp s" "sem_value ?t = sem_value s" "eflags ?t = eflags (cli s)"
    by (simp_all add: running_thread_def list_pop_def list_remove_eq Let_def cli_eq)
  have sc': "sched_inv ?t ps"
    by (rule sched_inv_cong [OF sc]) (use rq' in \<open>simp_all add: ready_queue_def cli_eq\<close>)
  have w: "blocked_status (status (tasks ?t w))" "saved_ok ?t w" "tag_apart ?t w"
    using inv ta by (auto simp: sema_inv_def fields saved_ok_def tags_apart_def tag_apart_def)
  obtain u where u: "thread_unblock w ?t = Inr u" "sched_inv u (w # ps)" "eflags u = eflags ?t"
    "tasks u = (tasks ?t)(w := (tasks ?t w)\<lparr>status := TASK_READY\<rparr>)" "running_thread u = running_thread ?t"
    "thread_ready_list u = thread_ready_list ?t"
    by (rule thread_unblock_inv [OF sc' w])
  have nw: "general_tag w \<notin> set (list_nodes ?l (map general_tag ws))"
    using kq.at_distinct [OF wl] by (auto simp: list_nodes_def)
  have dis': "set (list_nodes ?l (map general_tag ws)) \<inter>
      set (list_nodes (thread_ready_list ?t) (map general_tag ps)) = {}"
    using dis by (auto simp: list_nodes_def fields)
  have u': "list_at u ?l (map general_tag ws)" "sem_value u = sem_value s"
    using thread_unblock_frame [OF _ u(1) t nw dis'] sc' by (simp_all add: sched_inv_def fields)
  let ?s' = "u\<lparr>sem_value := (sem_value s)(psema := 1), eflags := eflags s\<rparr>"
  have "sema_up psema s = Inr ?s'"
    using z ne u(1,3) u'(2) by (simp add: sema_up_def split_beta Let_def restore_intr_eq cli_eq fields)
  moreover have "sema_inv u psema (w # ps) ws"
    using u u'(1) inv kq.at_distinct [OF wl]
    by (auto simp: sema_inv_def waiting_def fields saved_ok_def lists_apart_def tags_apart_def tag_apart_def list_nodes_def)
  moreover have "running_thread ?s' = running_thread s" using u(5) by (simp add: fields running_thread_def)
  ultimately show ?thesis using u(4) by (intro that [of ?s']) simp_all
qed

lemma sema_up_idle:
  assumes inv: "sema_inv s psema ps []" and z: "sem_value s psema = 0"
  shows "sema_up psema s = Inr (s\<lparr>sem_value := (sem_value s)(psema := 1)\<rparr>)"
proof -
  have "list_at (cli s) (sema_waiters psema) []" using inv by (simp add: sema_inv_def waiting_def cli_eq)
  then have "list_empty (sema_waiters psema) (cli s)" using kq.is_empty_at by blast
  then show ?thesis using z by (simp add: sema_up_def split_beta Let_def restore_intr_eq cli_eq)
qed

section \<open>Locks\<close>

lemma lock_acquire_free:
  assumes "sem_value s (lock_sema plock) = 1" and "lk_repeat s plock = 0" and "lk_holder s plock \<noteq> running_thread s"
  shows "lock_acquire plock s =
     Return () (s\<lparr>sem_value := (sem_value s)(lock_sema plock := 0),
                   lk_holder := (lk_holder s)(plock := running_thread s),
                   lk_repeat := (lk_repeat s)(plock := 1)\<rparr>)"
  using assms by (auto simp: lock_acquire_def sema_down_free Let_def)

lemma lock_acquire_again:
  assumes "lk_holder s plock = running_thread s"
  shows "lock_acquire plock s = Return () (s\<lparr>lk_repeat := (lk_repeat s)(plock := lk_repeat s plock + 1)\<rparr>)"
  using assms by (simp add: lock_acquire_def)

text \<open>A thread that finds the lock taken is switched out, and is switched out again whenever it is resumed
  while the value of the semaphore is still 0.\<close>

lemma lock_acquire_taken:
  assumes "sem_value s (lock_sema plock) = 0" and "lk_holder s plock \<noteq> running_thread s"
    and "sema_down_wait (lock_sema plock) (cli s) = Inr (old', s')"
  shows "\<exists>k. lock_acquire plock s = Switch s' k"
  using assms by (simp add: lock_acquire_def sema_down_def split_beta sema_down_loop_0 cli_eq)

text \<open>\<open>k\<close> acquisitions by the same thread, then releases.\<close>

fun releases :: "nat \<Rightarrow> addr \<Rightarrow> 'a kstate_scheme \<Rightarrow> 'a kstate_scheme res" where
  "releases 0 plock s = Inr s"
| "releases (Suc n) plock s = bindE (lock_release plock s) (releases n plock)"

lemma releases_le:
  assumes "running_thread s = lk_holder s plock" and "n \<le> unat (lk_repeat s plock)"
  shows "releases n plock s = Inr (s\<lparr>lk_repeat := (lk_repeat s)(plock := lk_repeat s plock - of_nat n)\<rparr>)"
  using assms
proof (induction n arbitrary: s)
  case 0
  then show ?case by (simp add: fun_upd_idem)
next
  case (Suc n)
  have "lk_repeat s plock \<noteq> 0" using Suc.prems(2) by auto
  moreover from this have "n \<le> unat (lk_repeat s plock - 1)" using Suc.prems(2) by (simp add: unat_dec)
  ultimately show ?case
    using Suc.prems(1) Suc.IH [of "s\<lparr>lk_repeat := (lk_repeat s)(plock := lk_repeat s plock - 1)\<rparr>"]
    by (simp add: lock_release_cases algebra_simps cong: if_cong)
qed

lemma lock_release_keeps:
  assumes "lock_release plock s = Inr s'"
  shows "lk_holder s' = lk_holder s" and "sem_value s' = sem_value s" 
    and "unat (lk_repeat s' plock) < unat (lk_repeat s plock)"
  using assms by (auto simp: lock_release_cases unat_dec unat_gt_0 intro!: diff_less split: if_splits)

section \<open>Starvation\<close>

lemma sema_down_loop_starves:
  assumes "may_return P r" and "r = bindR (sema_down_loop psema old s) f" and "sem_value s psema = 0"
    and "\<And>t. P t \<Longrightarrow> sem_value t psema = 0"
  shows False
  using assms(1-3)
proof (induction arbitrary: s rule: may_return.induct)
  case (ret a s0)
  then show ?case
    by (simp add: sema_down_loop.code [of psema old s] split: sum.splits)
next
  case (resume t k s0)
  then obtain old' s' where w: "sema_down_wait psema s = Inr (old', s')"
    by (cases "sema_down_wait psema s") (auto simp: sema_down_loop.code [of psema old s])
  have "k t = bindR (sema_down_loop psema old (thread_block_back old' t)) f"
    using resume.prems(1) sema_down_loop_0 [OF resume.prems(2) w] by simp
  moreover have "sem_value (thread_block_back old' t) psema = 0"
    using assms(4) [OF resume.hyps(1)] by (simp add: thread_block_back_def restore_intr_eq schedule_back_def)
  ultimately show ?case by (rule resume.IH)
qed

section \<open>Properties\<close>

text \<open>C20. A thread that waits on a semaphore of value 0 is appended to its waiters, blocked, and the next
  ready thread runs; the invariant of the scheduler and the semaphore is kept.  Coming back, it tests the
  value again.\<close>

theorem sema_down_blocks:
  assumes "sema_inv s psema (q # qs) ws" and "sem_value s psema = 0"
  shows "\<exists>s'. sema_down psema s =
      Switch s' (\<lambda>t. sema_down_loop psema (intr_get_status s) (thread_block_back INTR_OFF t)) \<and>
    sema_inv (schedule_back s') psema qs (ws @ [running_thread s]) \<and> running_thread (schedule_back s') = q \<and>
    status (tasks s' (running_thread s)) = TASK_BLOCKED \<and> sem_value s' = sem_value s"
proof -
  have inv: "sema_inv (cli s) psema (q # qs) ws" using assms(1) by (simp add: cli_eq)
  obtain s' where "sema_down_wait psema (cli s) = Inr (INTR_OFF, s')"
    "sema_inv (schedule_back s') psema qs (ws @ [running_thread s])" "running_thread (schedule_back s') = q"
    "sem_value s' = sem_value s" "status (tasks s' (running_thread s)) = TASK_BLOCKED"
    using sema_down_wait_block [OF inv] by (metis cli_fields(4,5) intr_status_cli)
  with assms(2) show ?thesis by (simp add: sema_down_def split_beta sema_down_loop_0)
qed

text \<open>The state of \<open>two_threads\<close> with a semaphore at \<open>0x3000\<close> on which nobody waits.\<close>

definition two_threads_sema :: "u8 \<Rightarrow> 'a kstate_scheme \<Rightarrow> 'a kstate_scheme" where
  "two_threads_sema v s = sema_init 0x3000 v (two_threads s)"

lemma two_threads_sema_inv:
  "sema_inv (two_threads_sema v s) 0x3000 [0xc0100000] []" "sem_value (two_threads_sema v s) 0x3000 = v"
  "running_thread (two_threads_sema v s) = 0xc009e000"
proof -
  let ?t = "two_threads_sema v s"
  have "thread_ready_list (two_threads s) = 0x1000"
    by (simp add: two_threads_def list_init_def Let_def)
  moreover from this have "list_at (two_threads s) 0x1000 [0xc0100024]"
    using two_threads_inv [of s] by (simp add: sched_inv_def ready_queue_def general_tag_def)
  then have "list_at ?t 0x1000 [0xc0100024]"
    by (rule list_at_cong)
      (auto simp: list_nodes_def two_threads_sema_def sema_init_def list_init_def Let_def sema_waiters_def)
  ultimately have "sched_inv ?t [0xc0100000]"
    by (intro sched_inv_cong [OF two_threads_inv])
      (simp_all add: two_threads_sema_def sema_init_def list_init_def Let_def ready_queue_def general_tag_def)
  moreover have "waiting ?t 0x3000 []"
    using list_at_init by (simp add: waiting_def two_threads_sema_def sema_init_def)
  moreover show run: "running_thread ?t = 0xc009e000"
    using two_threads_fields(3) [of s]
    by (simp add: two_threads_sema_def sema_init_def list_init_def Let_def running_thread_def)
  moreover have "thread_ready_list ?t = 0x1000"
    by (simp add: two_threads_sema_def two_threads_def sema_init_def list_init_def Let_def)
  ultimately show "sema_inv ?t 0x3000 [0xc0100000] []"
    by (simp add: sema_inv_def lists_apart_def tags_apart_def tag_apart_def general_tag_def sema_waiters_def)
  show "sem_value ?t 0x3000 = v" by (simp add: two_threads_sema_def sema_init_def list_init_def Let_def)
qed

theorem sema_down_blocks_witness:
  "\<forall>s :: kstate. \<exists>s' k. sema_down 0x3000 (two_threads_sema 0 s) = Switch s' k \<and>
     sema_inv (schedule_back s') 0x3000 [] [0xc009e000] \<and> status (tasks s' 0xc009e000) = TASK_BLOCKED"
  using sema_down_blocks [OF two_threads_sema_inv(1), of 0] by (force simp: two_threads_sema_inv)

text \<open>C21. \<open>sema_up\<close> on a semaphore of value 0 sets it to 1 and moves the first waiter, if there is one, to
  the front of the ready list; it keeps the invariant and the interrupt flag.  On any other value its
  assertion fails.\<close>

theorem sema_up_wakes:
  assumes "sema_inv s psema ps ws"
  shows "if sem_value s psema \<noteq> 0 then sema_up psema s = Inl (Panic ''sema_up'' ''0 == psema->value'')
    else \<exists>s'. sema_up psema s = Inr s' \<and> sem_value s' psema = 1 \<and> eflags s' = eflags s \<and>
      (case ws of [] \<Rightarrow> sema_inv s' psema ps [] | w # ws' \<Rightarrow> sema_inv s' psema (w # ps) ws' \<and> status (tasks s' w) = TASK_READY)"
proof (cases "sem_value s psema = 0")
  case True
  show ?thesis
  proof (cases ws)
    case Nil
    with assms sema_up_idle [OF _ True] True show ?thesis by auto
  next
    case (Cons w ws')
    with assms have "sema_inv s psema ps (w # ws')" by simp
    from sema_up_wake [OF this True] obtain s' where "sema_up psema s = Inr s'" "sema_inv s' psema (w # ps) ws'"
      "sem_value s' psema = 1" "status (tasks s' w) = TASK_READY" "eflags s' = eflags s"
      by metis
    with True Cons show ?thesis by auto
  qed
next
  case False
  then show ?thesis by (simp add: sema_up_def split_beta)
qed

theorem sema_up_wakes_witness:
  "\<forall>s :: kstate. \<exists>s' t. sema_up 0x3000 (two_threads_sema 0 s) = Inr s' \<and> sem_value s' 0x3000 = 1 \<and>
    sema_up 0x3000 s' = Inl (Panic ''sema_up'' ''0 == psema->value'')"
proof
  fix s :: kstate
  obtain s' where s': "sema_up 0x3000 (two_threads_sema 0 s) = Inr s'" "sem_value s' 0x3000 = 1"
    "sema_inv s' 0x3000 [0xc0100000] []"
    using sema_up_wakes [OF two_threads_sema_inv(1), of 0 s] by (auto simp: two_threads_sema_inv)
  with sema_up_wakes [OF s'(3)] show "\<exists>s' t. sema_up 0x3000 (two_threads_sema 0 s) = Inr s' \<and> sem_value s' 0x3000 = 1 \<and>
    sema_up 0x3000 s' = Inl (Panic ''sema_up'' ''0 == psema->value'')" by auto
qed

text \<open>C22. A lock is never given back.  A thread that acquires a free lock and releases it still holds it: the
  semaphore stays at 0 and the holder stays the thread; a further release fails an assertion.\<close>

theorem lock_release_keeps_lock:
  assumes "sem_value s (lock_sema plock) = 1" and "lk_repeat s plock = 0" and "lk_holder s plock \<noteq> running_thread s"
  shows "\<exists>s1 s2. lock_acquire plock s = Return () s1 \<and> lock_release plock s1 = Inr s2 \<and>
    lk_holder s2 plock = running_thread s \<and> lk_repeat s2 plock = 0 \<and> sem_value s2 (lock_sema plock) = 0 \<and>
    lock_release plock s2 = Inl (Panic ''lock_release'' ''1 == plock->holder_repeat_nr'')"
  using lock_acquire_free [OF assms] by (auto simp: lock_release_cases)

theorem lock_release_keeps_lock_witness:
  "\<forall>s :: kstate. \<exists>s1 s2. lock_acquire 0x100 (s\<lparr>esp := 0xc009ef00, sem_value := \<lambda>_. 1, lk_repeat := \<lambda>_. 0,
      lk_holder := \<lambda>_. NULL\<rparr>) = Return () s1 \<and> lock_release 0x100 s1 = Inr s2 \<and> lk_holder s2 0x100 = 0xc009e000"
proof
  fix s :: kstate
  let ?s = "s\<lparr>esp := 0xc009ef00, sem_value := \<lambda>_. 1, lk_repeat := \<lambda>_. 0, lk_holder := \<lambda>_. NULL\<rparr>"
  have run: "running_thread ?s = 0xc009e000" by (simp add: running_thread_def)
  obtain s1 s2 where "lock_acquire 0x100 ?s = Return () s1" "lock_release 0x100 s1 = Inr s2"
    "lk_holder s2 0x100 = running_thread ?s"
    using lock_release_keeps_lock [of ?s "0x100"] run by auto
  then show "\<exists>s1 s2. lock_acquire 0x100 ?s = Return () s1 \<and> lock_release 0x100 s1 = Inr s2 \<and>
      lk_holder s2 0x100 = 0xc009e000"
    using run by auto
qed

text \<open>C23. Any other thread that asks for such a lock waits for ever: as long as it is resumed in states where
  the semaphore is 0, which releases by the holder do not change, its \<open>lock_acquire\<close> does not return.\<close>

theorem lock_acquire_starves:
  fixes s :: "'a kstate_scheme"
  assumes "sem_value s (lock_sema plock) = 0" and "lk_holder s plock \<noteq> running_thread s"
  shows "\<not> may_return (\<lambda>t. sem_value t (lock_sema plock) = 0) (lock_acquire plock s) \<and>
    (\<forall>t t' :: 'a kstate_scheme. lock_release plock t = Inr t' \<longrightarrow> sem_value t' = sem_value t)"
proof -
  have "lock_acquire plock s = bindR (sema_down_loop (lock_sema plock) (intr_get_status s) (cli s)) (\<lambda>_ s.
          let s = s\<lparr>lk_holder := (lk_holder s)(plock := running_thread s)\<rparr> in
          assertR (0 = lk_repeat s plock) ''lock_acquire'' ''0 == plock->holder_repeat_nr''
           (Return () (s\<lparr>lk_repeat := (lk_repeat s)(plock := 1)\<rparr>)))"
    using assms(2) by (simp add: lock_acquire_def sema_down_def split_beta)
  with sema_down_loop_starves [OF _ this] assms(1) lock_release_keeps(2) show ?thesis by auto
qed

theorem lock_acquire_starves_witness:
  "\<forall>s :: kstate. \<not> may_return (\<lambda>t. sem_value t (lock_sema 0x100) = 0) (lock_acquire 0x100
     (s\<lparr>esp := 0xc009ef00, sem_value := \<lambda>_. 0, lk_holder := \<lambda>_. 0xc0100000\<rparr>))"
proof
  fix s :: kstate
  let ?s = "s\<lparr>esp := 0xc009ef00, sem_value := \<lambda>_. 0, lk_holder := \<lambda>_. 0xc0100000\<rparr>"
  have "running_thread ?s = 0xc009e000" by (simp add: running_thread_def)
  with lock_acquire_starves [of ?s "0x100"]
  show "\<not> may_return (\<lambda>t. sem_value t (lock_sema 0x100) = 0) (lock_acquire 0x100 ?s)" by simp
qed

end
