(* ===== verification/Memory.thy ===== *)
theory Memory
  imports Sync
begin

text \<open>
  \<open>src/kernel/memory.c\<close>: the allocator of pages.  A pool of physical pages and a range of virtual
  addresses are each managed by a bitmap in byte memory; \<open>page_table_add\<close> enters a mapping into the
  page tables through the window of \<open>Paging\<close>, and makes a page table when there is none.

  \<open>memset\<close> on a page table is word stores through the page walk; on a page handed out to the kernel
  it is both the byte \<open>memset\<close> of \<open>KString\<close> and the word stores.  The functions that take a lock are
  runs.
\<close>

section \<open>Allocation\<close>

abbreviation (input) MEM_BITMAP_BASE :: u32 where "MEM_BITMAP_BASE \<equiv> 0xc009a000"
abbreviation (input) K_HEAP_START :: u32 where "K_HEAP_START \<equiv> 0xc0100000"
abbreviation (input) PG_P_1 :: u32 where "PG_P_1 \<equiv> 1"
abbreviation (input) PG_RW_W :: u32 where "PG_RW_W \<equiv> 2"
abbreviation (input) PG_US_U :: u32 where "PG_US_U \<equiv> 4"

text \<open>The loop \<open>while (cnt < pg_cnt) bitmap_set(b, start + cnt++, 1)\<close>.\<close>

function mark_run :: "bitmap \<Rightarrow> u32 \<Rightarrow> u32 \<Rightarrow> u32 \<Rightarrow> mem \<Rightarrow> mem res" where
  "mark_run b start cnt pg_cnt m =
     (if cnt < pg_cnt then bindE (bitmap_set b (start + cnt) 1 m) (mark_run b start (cnt + 1) pg_cnt)
      else Inr m)"
  by pat_completeness auto
termination
  by (relation "measure (\<lambda>(b, st, cnt, pg_cnt, m). unat pg_cnt - unat cnt)")
    (auto simp: unat_inc_less word_less_nat_alt)

declare mark_run.simps [simp del]

definition vaddr_get :: "pool_flags \<Rightarrow> u32 \<Rightarrow> 'a kstate_scheme \<Rightarrow> (addr \<times> 'a kstate_scheme) res" where
  "vaddr_get pf pg_cnt s =
     (if PF_KERNEL = pf then
        let b = vaddr_bitmap (kernel_vaddr s) in
        bindE (bitmap_scan b pg_cnt (bytes s)) (\<lambda>bit_idx_start.
        if -1 = bit_idx_start then Inr (NULL, s)
        else bindE (mark_run b bit_idx_start 0 pg_cnt (bytes s)) (\<lambda>m.
          Inr (vaddr_start (kernel_vaddr s) + bit_idx_start * PG_SIZE, s\<lparr>bytes := m\<rparr>)))
      else
        let cur = running_thread s; b = vaddr_bitmap (userprog_vaddr (tasks s cur)) in
        bindE (bitmap_scan b pg_cnt (bytes s)) (\<lambda>bit_idx_start.
        if -1 = bit_idx_start then Inr (NULL, s)
        else bindE (mark_run b bit_idx_start 0 pg_cnt (bytes s)) (\<lambda>m.
          let va = vaddr_start (userprog_vaddr (tasks s cur)) + bit_idx_start * PG_SIZE in
          ASSERT (va < 0xc0000000 - PG_SIZE) ''vaddr_get'' ''(uint32_t)vaddr_start < (0xc0000000 - PG_SIZE)''
           (Inr (va, s\<lparr>bytes := m\<rparr>)))))"

definition palloc :: "pool \<Rightarrow> 'a kstate_scheme \<Rightarrow> (u32 \<times> 'a kstate_scheme) res" where
  "palloc m_pool s =
     bindE (bitmap_scan (pool_bitmap m_pool) 1 (bytes s)) (\<lambda>bit_idx.
     if -1 = bit_idx then Inr (NULL, s)
     else bindE (bitmap_set (pool_bitmap m_pool) bit_idx 1 (bytes s)) (\<lambda>m.
       Inr (bit_idx * PG_SIZE + phy_addr_start m_pool, s\<lparr>bytes := m\<rparr>)))"

text \<open>The branch of \<open>page_table_add\<close> for a directory entry that is not present.\<close>

definition page_table_new :: "addr \<Rightarrow> 'a kstate_scheme \<Rightarrow> 'a kstate_scheme res" where
  "page_table_new vaddr s =
     (let pde = pde_ptr vaddr; pte = pte_ptr vaddr in
      bindE (palloc (kernel_pool s) s) (\<lambda>(pde_phyaddr, s).
      let s = kput_str ''\<newline>'' (kput_int pde_phyaddr s) in
      bindE (vstore32 pde (pde_phyaddr OR PG_US_U OR PG_RW_W OR PG_P_1) s) (\<lambda>s.
      bindE (vload32 pde s) (\<lambda>e.
      let s = kput_str ''\<newline>'' (kput_int e s) in
      bindE (vzero 1024 (pte AND 0xfffff000) s) (\<lambda>s.
      bindE (vload32 pte s) (\<lambda>e.
      ASSERT (\<not> (e AND 1 \<noteq> 0)) ''page_table_add'' ''!(*pte & 1)'' (Inr s)))))))"

definition page_table_add :: "addr \<Rightarrow> u32 \<Rightarrow> 'a kstate_scheme \<Rightarrow> 'a kstate_scheme res" where
  "page_table_add vaddr page_phyaddr s =
     (let pde = pde_ptr vaddr; pte = pte_ptr vaddr in
      bindE (vload32 pde s) (\<lambda>e.
      bindE
        (if e AND 1 \<noteq> 0 then
           bindE (vload32 pte s) (\<lambda>e.
           ASSERT (\<not> (e AND 1 \<noteq> 0)) ''page_table_add'' ''!(*pte & 1)''
            (if e AND 1 \<noteq> 0 then Inl (Panic ''page_table_add'' ''pte repeat'') else Inr s))
         else page_table_new vaddr s)
        (vstore32 pte (page_phyaddr OR PG_US_U OR PG_RW_W OR PG_P_1))))"

text \<open>The loop \<open>while (cnt-- > 0)\<close> of \<open>malloc_page\<close>; \<open>False\<close> when a physical page is missing.\<close>

fun malloc_loop :: "pool_flags \<Rightarrow> nat \<Rightarrow> addr \<Rightarrow> 'a kstate_scheme \<Rightarrow> (bool \<times> 'a kstate_scheme) res" where
  "malloc_loop pf 0 vaddr s = Inr (True, s)"
| "malloc_loop pf (Suc cnt) vaddr s =
     (let mem_pool = (if pf = PF_KERNEL then kernel_pool s else user_pool s) in
      bindE (palloc mem_pool s) (\<lambda>(page_phyaddr, s).
      if page_phyaddr = NULL then Inr (False, s)
      else bindE (page_table_add vaddr page_phyaddr s) (malloc_loop pf cnt (vaddr + PG_SIZE))))"

definition malloc_page :: "pool_flags \<Rightarrow> u32 \<Rightarrow> 'a kstate_scheme \<Rightarrow> (addr \<times> 'a kstate_scheme) res" where
  "malloc_page pf pg_cnt s =
     ASSERT (pg_cnt > 0 \<and> pg_cnt < 3840) ''malloc_page'' ''pg_cnt > 0 && pg_cnt < 3840''
      (bindE (vaddr_get pf pg_cnt s) (\<lambda>(va, s).
       if va = NULL then Inr (NULL, s)
       else bindE (malloc_loop pf (unat pg_cnt) va s) (\<lambda>(ok, s). Inr (if ok then va else NULL, s))))"

text \<open>\<open>memset(va, 0, n)\<close> on whole pages, seen as bytes and as words.\<close>

definition memset_pages :: "addr \<Rightarrow> u32 \<Rightarrow> 'a kstate_scheme \<Rightarrow> 'a kstate_scheme res" where
  "memset_pages va n s =
     bindE (memset va 0 n (bytes s)) (\<lambda>m. vzero (unat n div 4) va (s\<lparr>bytes := m\<rparr>))"

definition get_kernel_pages :: "u32 \<Rightarrow> 'a kstate_scheme \<Rightarrow> (addr \<times> 'a kstate_scheme) res" where
  "get_kernel_pages pg_cnt s =
     bindE (malloc_page PF_KERNEL pg_cnt s) (\<lambda>(va, s).
     if va \<noteq> NULL then bindE (memset_pages va (pg_cnt * PG_SIZE) s) (\<lambda>s. Inr (va, s))
     else Inr (va, s))"

definition get_user_pages :: "u32 \<Rightarrow> 'a kstate_scheme \<Rightarrow> ('a kstate_scheme, addr) run" where
  "get_user_pages pg_cnt s =
     bindR (lock_acquire (pool_lock (user_pool s)) s) (\<lambda>_ s.
     bindR (liftR (malloc_page PF_USER pg_cnt s)) (\<lambda>va s.
     bindR (stepR (memset_pages va (pg_cnt * PG_SIZE) s)) (\<lambda>_ s.
     bindR (stepR (lock_release (pool_lock (user_pool s)) s)) (\<lambda>_ s. Return va s))))"

text \<open>The body of \<open>get_a_page\<close> between the lock operations, up to the test of the physical page.\<close>

definition get_a_page_mark :: "pool_flags \<Rightarrow> addr \<Rightarrow> 'a kstate_scheme \<Rightarrow> 'a kstate_scheme res" where
  "get_a_page_mark pf va s =
     (let cur = running_thread s in
      if pgdir (tasks s cur) \<noteq> NULL \<and> PF_USER = pf then
        let bit_idx = (va - vaddr_start (userprog_vaddr (tasks s cur))) div PG_SIZE in
        ASSERT (0 <s bit_idx) ''get_a_page'' ''bit_idx > 0''
         (bindE (bitmap_set (vaddr_bitmap (userprog_vaddr (tasks s cur))) bit_idx 1 (bytes s)) (\<lambda>m. Inr (s\<lparr>bytes := m\<rparr>)))
      else if pgdir (tasks s cur) = NULL \<and> PF_KERNEL = pf then
        let bit_idx = (va - vaddr_start (kernel_vaddr s)) div PG_SIZE in
        ASSERT (0 <s bit_idx) ''get_a_page'' ''bit_idx > 0''
         (bindE (bitmap_set (vaddr_bitmap (kernel_vaddr s)) bit_idx 1 (bytes s)) (\<lambda>m. Inr (s\<lparr>bytes := m\<rparr>)))
      else Inl (Panic ''get_a_page''
        ''get_a_page: not allow kernel alloc userspace or user alloc kernelspace by get_a_page''))"

definition get_a_page :: "pool_flags \<Rightarrow> addr \<Rightarrow> 'a kstate_scheme \<Rightarrow> ('a kstate_scheme, addr) run" where
  "get_a_page pf va s =
     (let mem_pool = (if pf = PF_KERNEL then kernel_pool s else user_pool s) in
      bindR (lock_acquire (pool_lock mem_pool) s) (\<lambda>_ s.
      bindR (stepR (get_a_page_mark pf va s)) (\<lambda>_ s.
      bindR (liftR (palloc mem_pool s)) (\<lambda>page_phyaddr s.
      if page_phyaddr = NULL then Return NULL s
      else
        bindR (stepR (page_table_add va page_phyaddr s)) (\<lambda>_ s.
        bindR (stepR (lock_release (pool_lock mem_pool) s)) (\<lambda>_ s. Return va s))))))"

section \<open>Initialisation\<close>

text \<open>The loop of \<open>show_memory_size\<close>: the number of times the size was divided by 1024, and the last
  size that is not 0.\<close>

function size_loop :: "u32 \<Rightarrow> u32 \<Rightarrow> nat \<Rightarrow> u32 \<times> nat" where
  "size_loop new_size all_mem name_idx =
     (if new_size > 0 then
        let new_size = drop_bit 10 new_size in
        if new_size = 0 then (all_mem, name_idx) else size_loop new_size new_size (Suc name_idx)
      else (all_mem, name_idx))"
  by pat_completeness auto
termination
proof (relation "measure (\<lambda>(n, a, i). unat n)", goal_cases)
  case (2 n a i x)
  then show ?case by (simp add: drop_bit_eq_div unat_div word_gt_0 div_less_dividend unat_gt_0)
qed simp

declare size_loop.simps [simp del]

definition show_memory_size :: "u32 \<Rightarrow> 'a kstate_scheme \<Rightarrow> 'a kstate_scheme res" where
  "show_memory_size all_mem s =
     (let names = [''B'', ''KB'', ''MB'', ''GB''];
          s = kput_str ''            total_memory:0x'' s;
          (all_mem, name_idx) = size_loop all_mem all_mem 0;
          s = kput_int all_mem s
      in if name_idx < length names
         then Inr (kput_char 10 (kput_str (names ! name_idx) s))
         else Inl (OutOfBounds name_idx))"

definition put_line :: "string \<Rightarrow> u32 \<Rightarrow> string \<Rightarrow> 'a kstate_scheme \<Rightarrow> 'a kstate_scheme" where
  "put_line txt n e s = kput_str e (kput_int n (kput_str txt s))"

text \<open>\<open>mem_pool_init\<close> up to the lines it prints: the sizes, with their C types, and the two pools.\<close>

definition pool_layout :: "u32 \<Rightarrow> 'a kstate_scheme \<Rightarrow> 'a kstate_scheme" where
  "pool_layout all_mem s =
     (let page_table_size = PG_SIZE * 256;
          used_mem = page_table_size + 0x100000;
          free_mem = all_mem - used_mem;
          all_free_pages = ucast (free_mem div PG_SIZE) :: u16;
          kernel_free_pages = all_free_pages div 2;
          user_free_pages = all_free_pages - kernel_free_pages;
          kbm_length = ucast kernel_free_pages div 8 :: u32;
          ubm_length = ucast user_free_pages div 8 :: u32;
          kp_start = used_mem;
          up_start = kp_start + ucast kernel_free_pages * PG_SIZE;
          s = s\<lparr>kernel_pool := (kernel_pool s)\<lparr>phy_addr_start := kp_start,
                pool_size := ucast kernel_free_pages * PG_SIZE,
                pool_bitmap := \<lparr>btmp_bytes_len = kbm_length, bits = MEM_BITMAP_BASE\<rparr>\<rparr>\<rparr>
      in s\<lparr>user_pool := (user_pool s)\<lparr>phy_addr_start := up_start,
                pool_size := ucast user_free_pages * PG_SIZE,
                pool_bitmap := \<lparr>btmp_bytes_len = ubm_length, bits = MEM_BITMAP_BASE + kbm_length\<rparr>\<rparr>\<rparr>)"

definition pool_report :: "'a kstate_scheme \<Rightarrow> 'a kstate_scheme" where
  "pool_report s =
     (let kb = pool_bitmap (kernel_pool s); ub = pool_bitmap (user_pool s);
          s = put_line ''            kernel_pool_bitmap_start  :'' (bits kb) ''\<newline>'' s;
          s = put_line ''            kernel_pool_bitmap_end    :'' (bits kb + btmp_bytes_len kb) ''\<newline>'' s;
          s = put_line ''            kernel_pool_phy_addr_start:'' (phy_addr_start (kernel_pool s)) ''\<newline>'' s;
          s = put_line ''            kernel_pool_phy_addr_end  :''
                (phy_addr_start (kernel_pool s) + pool_size (kernel_pool s)) ''\<newline>\<newline>'' s;
          s = put_line ''            user_pool_bitmap_start  :'' (bits ub) ''\<newline>'' s;
          s = put_line ''            user_pool_bitmap_end    :'' (bits ub + btmp_bytes_len ub) ''\<newline>'' s;
          s = put_line ''            user_pool_phy_addr_start:'' (phy_addr_start (user_pool s)) ''\<newline>'' s
      in put_line ''            user_pool_phy_addr_end  :''
                (phy_addr_start (user_pool s) + pool_size (user_pool s)) ''\<newline>'' s)"

definition bitmap_clear :: "bitmap \<Rightarrow> 'a kstate_scheme \<Rightarrow> 'a kstate_scheme res" where
  "bitmap_clear b s = bindE (bitmap_init b (bytes s)) (\<lambda>m. Inr (s\<lparr>bytes := m\<rparr>))"

definition mem_pool_init :: "u32 \<Rightarrow> 'a kstate_scheme \<Rightarrow> 'a kstate_scheme res" where
  "mem_pool_init all_mem s =
     bindE (show_memory_size all_mem (kput_str ''        mem_pool_init start\<newline>'' s)) (\<lambda>s.
     let s = pool_report (pool_layout all_mem s);
         kb = pool_bitmap (kernel_pool s); ub = pool_bitmap (user_pool s)
     in bindE (bitmap_clear kb s) (\<lambda>s.
     bindE (bitmap_clear ub s) (\<lambda>s.
     let s = s\<lparr>kernel_vaddr := \<lparr>
           vaddr_bitmap = \<lparr>btmp_bytes_len = btmp_bytes_len kb,
             bits = MEM_BITMAP_BASE + btmp_bytes_len kb + btmp_bytes_len ub\<rparr>,
           vaddr_start = K_HEAP_START\<rparr>\<rparr>
     in bindE (bitmap_clear (vaddr_bitmap (kernel_vaddr s)) s) (\<lambda>s.
     let s = lock_init (pool_lock (kernel_pool s)) s;
         s = lock_init (pool_lock (user_pool s)) s
     in Inr (kput_str ''        mem_pool_init done\<newline>'' s)))))"

definition mem_init :: "'a kstate_scheme \<Rightarrow> 'a kstate_scheme res" where
  "mem_init s =
     (let s = kput_str ''    mem_init start \<newline>'' s in
      bindE (vload32 0xb00 s) (\<lambda>mem_bytes_total.
      bindE (mem_pool_init mem_bytes_total s) (\<lambda>s.
      Inr (kput_str ''    mem_init done \<newline>'' s))))"

end
