(* ===== verification/PageMap.thy ===== *)
theory PageMap
  imports Memory
begin

text \<open>
  What the allocator of \<open>Memory\<close> does to the address space.  \<open>translate\<close> is the page walk of the processor;
  the lemmas say how it changes when a page table entry is stored and when a new page table is
  made, and carry this through \<open>page_table_add\<close>, \<open>malloc_page\<close> and \<open>get_kernel_pages\<close> under the invariant
  \<open>mm_inv\<close>: the directory maps itself, page tables are different pages, and no page that is in use as a
  table is free in a pool.

  The loader lets directory entries 0 and 768 share one table, so the statements are about
  addresses outside entry 0; entry 1023 is the window onto the tables themselves.
\<close>

section \<open>Words of page tables\<close>

lemma pdi_eq_iff: "pdi x = pdi y \<longleftrightarrow> (\<forall>n. 22 \<le> n \<and> n < 32 \<longrightarrow> bit x n = bit y n)"
proof
  have read: "bit z n = bit (pdi z) (n - 22)" if "22 \<le> n \<and> n < 32" for z n
    using that by (auto simp: pdi_bit)
  show "pdi x = pdi y \<Longrightarrow> \<forall>n. 22 \<le> n \<and> n < 32 \<longrightarrow> bit x n = bit y n" by (simp add: read)
  show "\<forall>n. 22 \<le> n \<and> n < 32 \<longrightarrow> bit x n = bit y n \<Longrightarrow> pdi x = pdi y"
    by (rule bit_word_eqI) (auto simp: pdi_bit)
qed

lemma pti_eq_iff: "pti x = pti y \<longleftrightarrow> (\<forall>n. 12 \<le> n \<and> n < 22 \<longrightarrow> bit x n = bit y n)"
proof
  have read: "bit z n = bit (pti z) (n - 12)" if "12 \<le> n \<and> n < 22" for z n
    using that by (auto simp: pti_bit)
  show "pti x = pti y \<Longrightarrow> \<forall>n. 12 \<le> n \<and> n < 22 \<longrightarrow> bit x n = bit y n" by (simp add: read)
  show "\<forall>n. 12 \<le> n \<and> n < 22 \<longrightarrow> bit x n = bit y n \<Longrightarrow> pti x = pti y"
    by (rule bit_word_eqI) (auto simp: pti_bit)
qed

lemma frame_eq_pdi_pti: "frame x = frame y \<longleftrightarrow> pdi x = pdi y \<and> pti x = pti y"
proof -
  have split: "12 \<le> n \<and> n < 32 \<longleftrightarrow> 22 \<le> n \<and> n < 32 \<or> 12 \<le> n \<and> n < 22" for n :: nat by auto
  show ?thesis unfolding frame_eq_iff pdi_eq_iff pti_eq_iff split by blast
qed

lemma times4_inj:
  fixes a b :: u32
  assumes "\<And>n. bit a n \<Longrightarrow> n < 30" and "\<And>n. bit b n \<Longrightarrow> n < 30"
  shows "4 * a = 4 * b \<longleftrightarrow> a = b"
proof
  have read: "bit z n = bit (4 * z) (n + 2)" if "n < 30" for z :: u32 and n
    using that by (simp add: times4_bit)
  assume eq: "4 * a = 4 * b"
  show "a = b"
  proof (rule bit_word_eqI)
    fix n
    show "bit a n = bit b n"
    proof (cases "n < 30")
      case True
      then show ?thesis by (simp only: read eq)
    next
      case False
      then show ?thesis using assms by blast
    qed
  qed
qed simp

lemma pdi_bound: "bit (pdi x) n \<Longrightarrow> n < 30" and pti_bound: "bit (pti x) n \<Longrightarrow> n < 30"
  by (simp_all add: pdi_bit pti_bit)

lemma pde_pa_eq_iff: "pde_pa dir x = pde_pa dir y \<longleftrightarrow> pdi x = pdi y"
  unfolding pde_pa_def add_left_cancel by (rule times4_inj [OF pdi_bound pdi_bound])

lemma frame_pde_pa [simp]: "frame (pde_pa dir va) = frame dir"
  by (rule bit_word_eqI) (auto simp: frame_bit pde_pa_bit)

lemma frame_pte_pa [simp]: "frame (pte_pa pm dir va) = frame (pm (pde_pa dir va))"
  by (rule bit_word_eqI) (auto simp: frame_bit pte_pa_bit)

lemma pte_pa_eq_iff:
  assumes "pm (pde_pa dir x) = pm (pde_pa dir y)"
  shows "pte_pa pm dir x = pte_pa pm dir y \<longleftrightarrow> pti x = pti y"
  unfolding pte_pa_def assms add_left_cancel by (rule times4_inj [OF pti_bound pti_bound])

lemma frame_idem [simp]: "frame (frame x) = frame x"
  by (rule bit_word_eqI) (auto simp: frame_bit)

section \<open>Changing one word\<close>

lemma pte_pa_cong: "pm' (pde_pa dir va) = pm (pde_pa dir va) \<Longrightarrow> pte_pa pm' dir va = pte_pa pm dir va"
  by (simp add: pte_pa_def)

lemma translate_cong:
  assumes "pm' (pde_pa dir va) = pm (pde_pa dir va)"
    and "bit (pm (pde_pa dir va)) 0 \<Longrightarrow> pm' (pte_pa pm dir va) = pm (pte_pa pm dir va)"
  shows "translate pm' dir va = translate pm dir va"
  using assms by (simp add: translate_def Let_def pte_pa_cong [of pm' dir va pm])

lemma self_mapped_cong: "pm' (self_pa dir) = pm (self_pa dir) \<Longrightarrow> self_mapped pm' dir = self_mapped pm dir"
  by (simp add: self_mapped_def)

lemma frame_self_pa [simp]: "frame (self_pa dir) = frame dir"
  by (rule bit_word_eqI) (auto simp: frame_bit self_pa_bit)

text \<open>A word in a page other than the directory: storing it leaves the directory alone.\<close>

lemma upd_other_page:
  "frame a \<noteq> frame dir \<Longrightarrow> (pm(a := v)) (pde_pa dir x) = pm (pde_pa dir x)"
  "frame a \<noteq> frame dir \<Longrightarrow> (pm(a := v)) (self_pa dir) = pm (self_pa dir)"
  using frame_pde_pa [of dir x] frame_self_pa [of dir] by auto

lemma translate_store_pte:
  fixes v :: u32
  assumes "bit (pm (pde_pa dir va)) 0" and "frame (pm (pde_pa dir va)) \<noteq> frame dir"
  defines "pm' \<equiv> pm(pte_pa pm dir va := v)"
  shows "translate pm' dir va = (if bit v 0 then Some (frame v + pgoff va) else None)"
    and "pte_pa pm dir x \<noteq> pte_pa pm dir va \<Longrightarrow> translate pm' dir x = translate pm dir x"
    and "pm' (pde_pa dir x) = pm (pde_pa dir x)"
proof -
  have pde: "pm' (pde_pa dir y) = pm (pde_pa dir y)" for y
    unfolding pm'_def using assms(2) by (intro upd_other_page) simp
  then show "pm' (pde_pa dir x) = pm (pde_pa dir x)" .
  have "pte_pa pm' dir va = pte_pa pm dir va" using pde by (rule pte_pa_cong)
  then show "translate pm' dir va = (if bit v 0 then Some (frame v + pgoff va) else None)"
    using assms(1) pde [of va] by (simp add: translate_def Let_def) (simp add: pm'_def)
  show "translate pm' dir x = translate pm dir x" if "pte_pa pm dir x \<noteq> pte_pa pm dir va"
    using pde by (rule translate_cong) (use that in \<open>simp add: pm'_def\<close>)
qed

section \<open>Clearing a page\<close>

lemma bit_offset: "i < 1024 \<Longrightarrow> bit (4 * of_nat i :: u32) n \<Longrightarrow> n < 12"
proof -
  assume i: "i < 1024" and "bit (4 * of_nat i :: u32) n"
  then have "2 \<le> n" "bit i (n - 2)" by (simp_all add: times4_bit bit_of_nat_iff)
  moreover have "take_bit 10 i = i" using i by (simp add: take_bit_nat_eq_self_iff)
  ultimately show "n < 12" by (metis bit_take_bit_iff less_diff_conv2 numeral_plus_numeral semiring_norm(2,3,5,6,7,8) add_num_simps)
qed

lemma bit_aligned_plus:
  assumes "page_aligned va" and "i < 1024"
  shows "bit (va + 4 * of_nat i) n \<longleftrightarrow> 12 \<le> n \<and> bit va n \<or> n < 12 \<and> bit (4 * of_nat i :: u32) n"
proof -
  have "va + 4 * of_nat i = frame va + 4 * of_nat i" using assms(1) by simp
  also have "\<dots> = frame va OR 4 * of_nat i" by (rule frame_plus) (rule bit_offset [OF assms(2)])
  also have "\<dots> = va OR 4 * of_nat i" using assms(1) by simp
  finally show ?thesis
    using page_alignedD [OF assms(1), of n] bit_offset [OF assms(2), of n] by (auto simp: bit_or_iff)
qed

lemma aligned_plus_fields:
  assumes "page_aligned va" and "i < 1024"
  shows "frame (va + 4 * of_nat i) = va" and "pgoff (va + 4 * of_nat i) = 4 * of_nat i"
    and "pdi (va + 4 * of_nat i) = pdi va" and "pti (va + 4 * of_nat i) = pti va"
proof -
  show fr: "frame (va + 4 * of_nat i) = va"
    using page_alignedD [OF assms(1)] by (intro bit_word_eqI) (auto simp: frame_bit bit_aligned_plus [OF assms])
  show "pgoff (va + 4 * of_nat i) = 4 * of_nat i"
    using bit_offset [OF assms(2)] by (intro bit_word_eqI) (auto simp: pgoff_bit bit_aligned_plus [OF assms])
  have "frame (va + 4 * of_nat i) = frame va" using fr assms(1) by simp
  then show "pdi (va + 4 * of_nat i) = pdi va" "pti (va + 4 * of_nat i) = pti va"
    by (simp_all add: frame_eq_pdi_pti)
qed

lemma walk_same_page:
  assumes "frame x = frame y"
  shows "pde_pa dir x = pde_pa dir y" and "pte_pa pm dir x = pte_pa pm dir y"
  using assms by (simp_all add: frame_eq_pdi_pti pde_pa_def pte_pa_def)

lemma translate_offset:
  assumes "page_aligned va" and "i < 1024"
  shows "translate pm dir (va + 4 * of_nat i) = map_option (\<lambda>pa. pa + 4 * of_nat i) (translate pm dir va)"
proof -
  have "frame (va + 4 * of_nat i) = frame va" using aligned_plus_fields(1) [OF assms] assms(1) by simp
  moreover have "pgoff va = 0" using assms(1) by (simp add: page_aligned_def)
  ultimately show ?thesis
    using walk_same_page [of "va + 4 * of_nat i" va] aligned_plus_fields(2) [OF assms]
    by (simp add: translate_def Let_def)
qed

lemma translate_aligned:
  assumes "translate pm dir va = Some pa" and "page_aligned va"
  shows "page_aligned pa"
  using assms by (auto simp: translate_def Let_def page_aligned_def [of va] split: if_splits)

text \<open>The memory with the words \<open>k\<close> to \<open>k + n - 1\<close> of the page \<open>pa\<close> cleared.\<close>

definition zero_words :: "(u32 \<Rightarrow> u32) \<Rightarrow> u32 \<Rightarrow> nat \<Rightarrow> nat \<Rightarrow> u32 \<Rightarrow> u32" where
  "zero_words pm pa k n = (\<lambda>a. if a \<in> (\<lambda>i. pa + 4 * of_nat i) ` {k..<k + n} then 0 else pm a)"

lemma zero_words_0 [simp]: "zero_words pm pa k 0 = pm"
  by (simp add: zero_words_def)

lemma zero_words_Suc: "zero_words (pm(pa + 4 * of_nat k := 0)) pa (Suc k) n = zero_words pm pa k (Suc n)"
proof -
  have "{k..<k + Suc n} = insert k {Suc k..<Suc k + n}" by auto
  then show ?thesis unfolding zero_words_def by auto
qed

lemma zero_words_other:
  assumes "page_aligned pa" and "k + n \<le> 1024" and "frame a \<noteq> pa"
  shows "zero_words pm pa k n a = pm a"
  using aligned_plus_fields(1) [OF assms(1)] assms(2,3) by (auto simp: zero_words_def)

lemma vzero_page:
  assumes "page_aligned va" and "translate (pmem s) (cr3 s) va = Some pa" and "k + n \<le> 1024"
    and "frame (cr3 s) \<noteq> pa" and "frame (pmem s (pde_pa (cr3 s) va)) \<noteq> pa"
  shows "vzero n (va + 4 * of_nat k) s = Inr (s\<lparr>pmem := zero_words (pmem s) pa k n\<rparr>)"
  using assms(2-5)
proof (induction n arbitrary: k s)
  case 0
  then show ?case by simp
next
  case (Suc n)
  let ?pm = "(pmem s)(pa + 4 * of_nat k := 0)"
  let ?s = "s\<lparr>pmem := ?pm\<rparr>"
  have k: "k < 1024" using Suc.prems(2) by simp
  have pa: "page_aligned pa" using Suc.prems(1) assms(1) by (rule translate_aligned)
  have at: "frame (pa + 4 * of_nat k) = pa" using pa k by (rule aligned_plus_fields)
  have store: "vstore32 (va + 4 * of_nat k) 0 s = Inr ?s"
    using Suc.prems(1) translate_offset [OF assms(1) k] by (simp add: vstore32_def)
  have pde: "?pm (pde_pa (cr3 s) va) = pmem s (pde_pa (cr3 s) va)"
    using Suc.prems(3) at by (intro upd_other_page) simp
  have tr: "translate ?pm (cr3 s) va = translate (pmem s) (cr3 s) va"
  proof (rule translate_cong)
    show "?pm (pde_pa (cr3 s) va) = pmem s (pde_pa (cr3 s) va)" by (rule pde)
    have "pte_pa (pmem s) (cr3 s) va \<noteq> pa + 4 * of_nat k" using Suc.prems(4) at by (metis frame_pte_pa)
    then show "?pm (pte_pa (pmem s) (cr3 s) va) = pmem s (pte_pa (pmem s) (cr3 s) va)" by (auto simp: fun_upd_def)
  qed
  have "vzero n (va + 4 * of_nat (Suc k)) ?s = Inr (?s\<lparr>pmem := zero_words (pmem ?s) pa (Suc k) n\<rparr>)"
    using Suc.prems pde tr by (intro Suc.IH) (simp_all del: fun_upd_apply)
  moreover have "va + 4 * of_nat (Suc k) = va + 4 * of_nat k + 4" by (simp add: algebra_simps)
  ultimately show ?case using store by (simp add: zero_words_Suc del: fun_upd_apply of_nat_Suc)
qed

section \<open>Pools\<close>

definition pool_pages :: "pool \<Rightarrow> nat" where
  "pool_pages p = bitmap_bits (pool_bitmap p)"

definition pool_page :: "pool \<Rightarrow> nat \<Rightarrow> u32" where
  "pool_page p i = of_nat i * PG_SIZE + phy_addr_start p"

definition free_page :: "pool \<Rightarrow> mem \<Rightarrow> u32 \<Rightarrow> bool" where
  "free_page p m a \<longleftrightarrow> (\<exists>i < pool_pages p. bit_free (pool_bitmap p) m i \<and> a = pool_page p i)"

definition free_count :: "pool \<Rightarrow> mem \<Rightarrow> nat" where
  "free_count p m = card {i. i < pool_pages p \<and> bit_free (pool_bitmap p) m i}"

definition pool_ok :: "pool \<Rightarrow> bool" where
  "pool_ok p \<longleftrightarrow> bitmap_wf (pool_bitmap p) \<and> page_aligned (phy_addr_start p) \<and> phy_addr_start p \<noteq> 0 \<and>
     unat (phy_addr_start p) + 4096 * pool_pages p \<le> 2 ^ 32"

text \<open>Two bitmaps that have no byte in common.\<close>

definition bitmap_apart :: "bitmap \<Rightarrow> bitmap \<Rightarrow> bool" where
  "bitmap_apart b b' \<longleftrightarrow> (\<forall>i < bitmap_bits b. \<forall>j < bitmap_bits b'. bits b + of_nat (i div 8) \<noteq> bits b' + of_nat (j div 8))"

lemma page_aligned_dvd: "page_aligned x \<longleftrightarrow> 4096 dvd unat x"
proof -
  have "pgoff x = take_bit 12 x" unfolding pgoff_def mask_consts by (simp add: take_bit_eq_mask)
  then have "unat (pgoff x) = unat x mod 4096" by (simp add: take_bit_eq_mod unat_mod)
  then show ?thesis by (auto simp: page_aligned_def word_unat_eq_iff dvd_eq_mod_eq_0)
qed

lemma unat_pool_page:
  assumes "pool_ok p" and "i < pool_pages p"
  shows "unat (pool_page p i) = 4096 * i + unat (phy_addr_start p)"
proof -
  have "4096 * i + unat (phy_addr_start p) < 2 ^ 32" using assms by (simp add: pool_ok_def)
  moreover have "pool_page p i = of_nat (4096 * i + unat (phy_addr_start p))" by (simp add: pool_page_def mult.commute)
  ultimately show ?thesis by (simp only:) (rule unat_of_nat_less, simp)
qed

lemma pool_page_props:
  assumes "pool_ok p" and "i < pool_pages p"
  shows "page_aligned (pool_page p i)" and "pool_page p i \<noteq> 0"
    and "j < pool_pages p \<Longrightarrow> pool_page p i = pool_page p j \<longleftrightarrow> i = j"
proof -
  note u = unat_pool_page [OF assms]
  have s: "4096 dvd unat (phy_addr_start p)" "unat (phy_addr_start p) \<noteq> 0"
    using assms(1) by (auto simp: pool_ok_def page_aligned_dvd unat_eq_zero)
  then show "page_aligned (pool_page p i)" unfolding page_aligned_dvd u by simp
  show "pool_page p i \<noteq> 0" using u s(2) by auto
  show "pool_page p i = pool_page p j \<longleftrightarrow> i = j" if "j < pool_pages p"
    using u unat_pool_page [OF assms(1) that] by (auto simp: word_unat_eq_iff)
qed

lemma pool_pages_bound: "pool_ok p \<Longrightarrow> i < pool_pages p \<Longrightarrow> i < 2 ^ 32"
  by (auto simp: pool_ok_def pool_pages_def bitmap_wf_def)

lemma free_page_mark:
  assumes "pool_ok p" and "i < pool_pages p"
  shows "free_page p (mark_bit (pool_bitmap p) i m) a \<longleftrightarrow> free_page p m a \<and> a \<noteq> pool_page p i"
proof -
  have "bit_free (pool_bitmap p) (mark_bit (pool_bitmap p) i m) j \<longleftrightarrow> pool_page p j \<noteq> pool_page p i \<and> bit_free (pool_bitmap p) m j"
    if "j < pool_pages p" for j
    using that assms(2) pool_pages_bound [OF assms(1)] pool_page_props(3) [OF assms that] by (auto simp: bm.free_mark)
  then show ?thesis unfolding free_page_def by auto
qed

lemma free_count_mark:
  assumes "pool_ok p" and "i < pool_pages p" and "bit_free (pool_bitmap p) m i"
  shows "free_count p (mark_bit (pool_bitmap p) i m) = free_count p m - 1"
proof -
  have "{j. j < pool_pages p \<and> bit_free (pool_bitmap p) (mark_bit (pool_bitmap p) i m) j} =
      {j. j < pool_pages p \<and> bit_free (pool_bitmap p) m j} - {i}"
    using assms(2) pool_pages_bound [OF assms(1)] by (auto simp: bm.free_mark)
  then show ?thesis using assms(2,3) by (simp add: free_count_def)
qed

lemma mark_bit_other:
  assumes "bitmap_apart b b'" and "i < bitmap_bits b" and "j < bitmap_bits b'" and "i < 2 ^ 32"
  shows "bit_free b' (mark_bit b i m) j = bit_free b' m j"
proof -
  have "bits b + of_nat (i div 8) \<noteq> bits b' + of_nat (j div 8)" using assms(1-3) by (auto simp: bitmap_apart_def)
  then show ?thesis
    using assms(4) by (auto simp: bit_free_def mark_bit_def bitmap_set_def Let_def of_nat_div8)
qed

lemma free_page_other:
  assumes "bitmap_apart b (pool_bitmap p)" and "i < bitmap_bits b" and "i < 2 ^ 32"
  shows "free_page p (mark_bit b i m) = free_page p m" and "free_count p (mark_bit b i m) = free_count p m"
  using mark_bit_other [OF assms(1,2) _ assms(3)]
  by (auto simp: free_page_def free_count_def pool_pages_def fun_eq_iff cong: conj_cong)

lemma palloc_fresh:
  assumes "pool_ok p" and "free_count p (bytes s) \<noteq> 0"
  obtains i where "i < pool_pages p" and "bit_free (pool_bitmap p) (bytes s) i"
    and "palloc p s = Inr (pool_page p i, s\<lparr>bytes := mark_bit (pool_bitmap p) i (bytes s)\<rparr>)"
proof -
  let ?b = "pool_bitmap p" and ?m = "bytes s"
  have nf: "\<not> bitmap_full ?b ?m" using assms(2) by (auto simp: bitmap_full_def free_count_def pool_pages_def)
  have wf: "bitmap_wf ?b" using assms(1) by (simp add: pool_ok_def)
  let ?i = "first_free ?b ?m"
  note ff = first_free_spec [OF nf]
  have i: "?i < 2 ^ 31" using ff(2) wf by (simp add: bitmap_wf_def)
  have scan: "bitmap_scan ?b 1 ?m = Inr (of_nat ?i)"
    using bitmap_scan_fit [OF wf nf, of 1] first_fit_1 [OF nf] by (simp add: scan_result_def)
  have "(of_nat ?i :: u32) \<noteq> -1"
  proof
    assume "(of_nat ?i :: u32) = -1"
    then have "unat (of_nat ?i :: u32) = 4294967295" by (simp only: unat_minus_1_u32)
    with i show False by (simp add: unat_of_nat)
  qed
  with scan have "palloc p s = Inr (pool_page p ?i, s\<lparr>bytes := mark_bit ?b ?i ?m\<rparr>)"
    by (simp add: palloc_def bitmap_set_mark pool_page_def)
  with that ff(2,3) show thesis by (simp add: pool_pages_def)
qed

lemma palloc_full:
  assumes "free_count p (bytes s) = 0"
  shows "palloc p s = Inl (Panic ''bitmap_scan'' ''idx_byte < btmp->btmp_bytes_len'')"
proof -
  have "{i. i < pool_pages p \<and> bit_free (pool_bitmap p) (bytes s) i} = {}" using assms by (simp add: free_count_def)
  then have "bitmap_full (pool_bitmap p) (bytes s)" by (auto simp: bitmap_full_def pool_pages_def)
  then show ?thesis by (simp add: palloc_def bitmap_scan_full)
qed

section \<open>The invariant\<close>

text \<open>Addresses outside the first directory entry and outside the window.\<close>

definition upper :: "addr \<Rightarrow> bool" where
  "upper x \<longleftrightarrow> pdi x \<noteq> 0 \<and> pdi x \<noteq> 1023"

definition table_at :: "'a kstate_scheme \<Rightarrow> addr \<Rightarrow> bool" where
  "table_at s x \<longleftrightarrow> bit (pmem s (pde_pa (cr3 s) x)) 0"

definition table_frame :: "'a kstate_scheme \<Rightarrow> addr \<Rightarrow> u32" where
  "table_frame s x = frame (pmem s (pde_pa (cr3 s) x))"

definition mapped :: "'a kstate_scheme \<Rightarrow> addr \<Rightarrow> u32 option" where
  "mapped s x = translate (pmem s) (cr3 s) x"

definition avail :: "'a kstate_scheme \<Rightarrow> u32 \<Rightarrow> bool" where
  "avail s a \<longleftrightarrow> free_page (kernel_pool s) (bytes s) a \<or> free_page (user_pool s) (bytes s) a"

definition mm_inv :: "'a kstate_scheme \<Rightarrow> bool" where
  "mm_inv s \<longleftrightarrow>
     self_mapped (pmem s) (cr3 s) \<and> pool_ok (kernel_pool s) \<and> pool_ok (user_pool s) \<and>
     bitmap_apart (pool_bitmap (kernel_pool s)) (pool_bitmap (user_pool s)) \<and>
     bitmap_apart (pool_bitmap (user_pool s)) (pool_bitmap (kernel_pool s)) \<and>
     (\<forall>i < pool_pages (kernel_pool s). \<forall>j < pool_pages (user_pool s). pool_page (kernel_pool s) i \<noteq> pool_page (user_pool s) j) \<and>
     (\<forall>x. table_at s x \<longrightarrow> \<not> avail s (table_frame s x)) \<and>
     (\<forall>x. table_at s x \<and> pdi x \<noteq> 1023 \<longrightarrow> table_frame s x \<noteq> frame (cr3 s)) \<and>
     (\<forall>x y. table_at s x \<and> table_at s y \<and> pdi x \<noteq> pdi y \<and> pdi x \<noteq> 0 \<and> pdi y \<noteq> 0 \<longrightarrow>
       table_frame s x \<noteq> table_frame s y)"

text \<open>The fields that the allocator leaves alone.\<close>

definition same_setup :: "'a kstate_scheme \<Rightarrow> 'a kstate_scheme \<Rightarrow> bool" where
  "same_setup s t \<longleftrightarrow> cr3 t = cr3 s \<and> kernel_pool t = kernel_pool s \<and> user_pool t = user_pool s \<and>
     kernel_vaddr t = kernel_vaddr s \<and> tasks t = tasks s \<and> esp t = esp s"

lemma same_setup_refl [simp]: "same_setup s s"
  by (simp add: same_setup_def)

lemma same_setup_trans: "same_setup s t \<Longrightarrow> same_setup t u \<Longrightarrow> same_setup s u"
  by (simp add: same_setup_def)

text \<open>Every page table in \<open>t\<close> is one of \<open>s\<close>, or was a free page in \<open>s\<close>.\<close>

definition grown :: "'a kstate_scheme \<Rightarrow> 'a kstate_scheme \<Rightarrow> bool" where
  "grown s t \<longleftrightarrow> (\<forall>x. table_at t x \<longrightarrow> avail s (table_frame t x) \<or> table_at s x \<and> table_frame t x = table_frame s x)"

lemma grown_same:
  assumes "\<And>x. pmem t (pde_pa (cr3 s) x) = pmem s (pde_pa (cr3 s) x)" and "same_setup s t"
  shows "grown s t"
  using assms by (simp add: grown_def table_at_def table_frame_def same_setup_def)

lemma grown_trans:
  assumes "grown s t" and "grown t u" and "\<And>a. avail t a \<Longrightarrow> avail s a"
  shows "grown s u"
  using assms unfolding grown_def by metis

lemma pdi_window: "pdi (-1) = 1023" "pde_pa dir (-1) = self_pa dir"
proof -
  have "pdi (-1) = mask 10" by (rule bit_word_eqI) (auto simp: pdi_bit bit_simps)
  then show "pdi (-1) = 1023" by (simp add: mask_eq_exp_minus_1)
  show "pde_pa dir (-1) = self_pa dir" by (rule bit_word_eqI) (auto simp: pde_pa_bit self_pa_bit bit_simps)
qed

lemma mm_inv_dir:
  assumes "mm_inv s"
  shows "\<not> avail s (frame (cr3 s))"
proof -
  have "table_at s (-1)" "table_frame s (-1) = frame (cr3 s)"
    using assms by (simp_all add: mm_inv_def self_mapped_def table_at_def table_frame_def pdi_window)
  with assms show ?thesis unfolding mm_inv_def by metis
qed

lemma table_at_cong: "pdi x = pdi y \<Longrightarrow> table_at s x = table_at s y"
  by (simp add: table_at_def pde_pa_def)

lemma table_frame_cong: "pdi x = pdi y \<Longrightarrow> table_frame s x = table_frame s y"
  by (simp add: table_frame_def pde_pa_def)

text \<open>Changes that keep the directory and free no page keep the invariant.\<close>

lemma mm_inv_keep:
  assumes "mm_inv s" and "same_setup s t" and "\<And>x. pmem t (pde_pa (cr3 s) x) = pmem s (pde_pa (cr3 s) x)"
    and "\<And>a. avail t a \<Longrightarrow> avail s a"
  shows "mm_inv t"
proof -
  have "table_at t x = table_at s x" "table_frame t x = table_frame s x" for x
    using assms(2,3) by (simp_all add: table_at_def table_frame_def same_setup_def)
  moreover have "self_mapped (pmem t) (cr3 t)"
    using assms(1,2) assms(3) [of "-1"] by (simp add: mm_inv_def same_setup_def self_mapped_def pdi_window)
  moreover have "\<forall>x. table_at s x \<longrightarrow> \<not> avail t (table_frame s x)"
    using assms(1,4) unfolding mm_inv_def by blast
  ultimately show ?thesis using assms(1,2) by (simp add: mm_inv_def same_setup_def)
qed

lemma avail_mark:
  assumes "mm_inv s" and "p = kernel_pool s \<or> p = user_pool s" and "i < pool_pages p"
  shows "avail (s\<lparr>bytes := mark_bit (pool_bitmap p) i (bytes s)\<rparr>) a \<longleftrightarrow> avail s a \<and> a \<noteq> pool_page p i"
proof -
  have ok: "pool_ok p" using assms(1,2) by (auto simp: mm_inv_def)
  have i: "i < bitmap_bits (pool_bitmap p)" "i < 2 ^ 32"
    using assms(3) pool_pages_bound [OF ok] by (auto simp: pool_pages_def)
  show ?thesis
    using assms(2)
  proof
    assume p: "p = kernel_pool s"
    have "\<not> free_page (user_pool s) (bytes s) (pool_page p i)"
      using assms(1,3) p by (auto simp: mm_inv_def free_page_def)
    then show ?thesis
      using assms(1) p free_page_mark [OF ok assms(3)] free_page_other(1) [OF _ i, of "user_pool s"]
      by (auto simp: avail_def mm_inv_def)
  next
    assume p: "p = user_pool s"
    have "pool_page p i \<noteq> pool_page (kernel_pool s) j" if "j < pool_pages (kernel_pool s)" for j
      using assms(1,3) p that unfolding mm_inv_def by metis
    then have "\<not> free_page (kernel_pool s) (bytes s) (pool_page p i)" by (auto simp: free_page_def)
    then show ?thesis
      using assms(1) p free_page_mark [OF ok assms(3)] free_page_other(1) [OF _ i, of "kernel_pool s"]
      by (auto simp: avail_def mm_inv_def)
  qed
qed

section \<open>Storing an entry\<close>

lemma and_1_bit: "e AND 1 \<noteq> 0 \<longleftrightarrow> bit e 0" for e :: u32
  by (simp add: and_one_eq bit_0 mod_2_eq_odd)

lemma or_flags: "x OR PG_US_U OR PG_RW_W OR PG_P_1 = x OR 7"
  by simp

lemma store_pte_maps:
  assumes inv: "mm_inv s" and up: "upper va" and tab: "table_at s va" and pa: "page_aligned pa"
  defines "t \<equiv> s\<lparr>pmem := (pmem s)(pte_pa (pmem s) (cr3 s) va := pa OR 7)\<rparr>"
  shows "mm_inv t" and "mapped t va = Some (pa + pgoff va)" and "same_setup s t" and "bytes t = bytes s"
    and "upper x \<Longrightarrow> frame x \<noteq> frame va \<Longrightarrow> mapped t x = mapped s x" and "grown s t"
proof -
  have tf: "frame (pmem s (pde_pa (cr3 s) va)) \<noteq> frame (cr3 s)"
    using inv up tab by (simp add: mm_inv_def upper_def table_frame_def)
  note st = translate_store_pte [where pm = "pmem s" and dir = "cr3 s" and va = va and v = "pa OR 7", OF tab [unfolded table_at_def] tf]
  show su: "same_setup s t" "bytes t = bytes s" by (simp_all add: t_def same_setup_def)
  show "grown s t" using su(1) st(3) by (intro grown_same) (simp_all add: t_def)
  show "mm_inv t"
    by (rule mm_inv_keep [OF inv su(1)]) (use st(3) in \<open>simp_all add: t_def avail_def\<close>)
  show "mapped t va = Some (pa + pgoff va)"
    using st(1) by (simp add: t_def mapped_def frame_or_7 [OF pa] present_or_7)
  show "mapped t x = mapped s x" if x: "upper x" "frame x \<noteq> frame va"
  proof (cases "table_at s x")
    case False
    then show ?thesis using st(3) [of x] by (simp add: t_def mapped_def translate_def table_at_def)
  next
    case True
    have "pte_pa (pmem s) (cr3 s) x \<noteq> pte_pa (pmem s) (cr3 s) va"
    proof (cases "pdi x = pdi va")
      case True
      then have "pde_pa (cr3 s) x = pde_pa (cr3 s) va" by (simp add: pde_pa_eq_iff)
      moreover have "pti x \<noteq> pti va" using x(2) True by (simp add: frame_eq_pdi_pti)
      ultimately show ?thesis by (subst pte_pa_eq_iff) simp_all
    next
      case False
      then have "table_frame s x \<noteq> table_frame s va"
        using inv True tab x(1) up by (auto simp: mm_inv_def upper_def)
      then show ?thesis by (metis frame_pte_pa table_frame_def)
    qed
    then show ?thesis using st(2) by (simp add: t_def mapped_def)
  qed
qed

section \<open>A new page table\<close>

lemma translate_frame:
  "translate pm dir (frame x) = map_option frame (translate pm dir x)"
proof -
  have fr: "frame (frame x) = frame x" by simp
  have off: "pgoff (frame x) = 0" using aligned_frame by (simp add: page_aligned_def)
  have "frame (frame p + pgoff x) = frame p" for p
    by (rule bit_word_eqI) (auto simp: frame_bit frame_pgoff_bit)
  with off show ?thesis
    by (simp add: translate_def Let_def walk_same_page(1) [OF fr] walk_same_page(2) [OF fr])
qed

lemma zero_words_at:
  assumes "i < 1024"
  shows "zero_words pm pa 0 1024 (pa + 4 * of_nat i) = 0"
  using assms by (auto simp: zero_words_def)

lemma unat_pti: "unat (pti va) < 1024"
proof -
  have "pti va = take_bit 10 (drop_bit 12 va)" unfolding pti_def mask_consts by (simp add: take_bit_eq_mask)
  then have "unat (pti va) = unat (drop_bit 12 va) mod 1024" by (simp add: take_bit_eq_mod unat_mod)
  then show ?thesis by simp
qed

text \<open>The memory after \<open>page_table_new\<close>: the directory entry of \<open>va\<close> points to the cleared page \<open>F\<close>.\<close>

definition new_table :: "(u32 \<Rightarrow> u32) \<Rightarrow> u32 \<Rightarrow> addr \<Rightarrow> u32 \<Rightarrow> u32 \<Rightarrow> u32" where
  "new_table pm dir va F = zero_words (pm(pde_pa dir va := F OR 7)) F 0 1024"

lemma new_table_pde:
  assumes "page_aligned F" and "F \<noteq> frame dir"
  shows "new_table pm dir va F (pde_pa dir x) = (if pdi x = pdi va then F OR 7 else pm (pde_pa dir x))"
  unfolding new_table_def using assms by (subst zero_words_other) (auto simp: pde_pa_eq_iff)

lemma new_table_other:
  assumes "page_aligned F" and "frame a \<noteq> F" and "frame a \<noteq> frame dir"
  shows "new_table pm dir va F a = pm a"
  unfolding new_table_def using assms frame_pde_pa [of dir va] by (subst zero_words_other) auto

lemma new_table_pte:
  assumes "page_aligned F" and "F \<noteq> frame dir" and "pdi x = pdi va"
  shows "new_table pm dir va F (pte_pa (new_table pm dir va F) dir x) = 0"
proof -
  have "pte_pa (new_table pm dir va F) dir x = F + 4 * of_nat (unat (pti x))"
    using assms by (simp add: pte_pa_def new_table_pde frame_or_7)
  then show ?thesis unfolding new_table_def by (simp only: zero_words_at [OF unat_pti])
qed

lemma translate_new_table:
  assumes "page_aligned F" and "F \<noteq> frame dir" and "\<not> bit (pm (pde_pa dir va)) 0"
    and "bit (pm (pde_pa dir x)) 0 \<Longrightarrow> frame (pm (pde_pa dir x)) \<noteq> F \<and> frame (pm (pde_pa dir x)) \<noteq> frame dir"
  shows "translate (new_table pm dir va F) dir x = translate pm dir x"
proof (cases "pdi x = pdi va")
  case True
  then have "pde_pa dir x = pde_pa dir va" by (simp add: pde_pa_eq_iff)
  with True assms show ?thesis
    using new_table_pte [OF assms(1,2) True, of pm] by (simp add: translate_def Let_def)
next
  case False
  show ?thesis
  proof (rule translate_cong)
    show "new_table pm dir va F (pde_pa dir x) = pm (pde_pa dir x)" using False assms(1,2) by (simp add: new_table_pde)
    assume "bit (pm (pde_pa dir x)) 0"
    then show "new_table pm dir va F (pte_pa pm dir x) = pm (pte_pa pm dir x)"
      using assms(1,4) by (intro new_table_other) simp_all
  qed
qed

lemma page_table_new_ok:
  assumes inv: "mm_inv s" and up: "upper va" and tab: "\<not> table_at s va" and mem: "free_count (kernel_pool s) (bytes s) \<noteq> 0"
  obtains t i where "page_table_new va s = Inr t" and "mm_inv t" and "table_at t va" and "same_setup s t"
    and "i < pool_pages (kernel_pool s)" and "bit_free (pool_bitmap (kernel_pool s)) (bytes s) i"
    and "bytes t = mark_bit (pool_bitmap (kernel_pool s)) i (bytes s)"
    and "\<And>x. upper x \<Longrightarrow> mapped t x = mapped s x" and "mapped t va = None" and "grown s t"
    and "table_frame t va = pool_page (kernel_pool s) i"
proof -
  let ?k = "kernel_pool s" and ?pde = "pde_pa (cr3 s) va"
  have ok: "pool_ok ?k" and self: "self_mapped (pmem s) (cr3 s)" using inv by (simp_all add: mm_inv_def)
  obtain i where i: "i < pool_pages ?k" "bit_free (pool_bitmap ?k) (bytes s) i"
    "palloc ?k s = Inr (pool_page ?k i, s\<lparr>bytes := mark_bit (pool_bitmap ?k) i (bytes s)\<rparr>)"
    using palloc_fresh [OF ok mem] by blast
  define F where "F = pool_page ?k i"
  have F: "page_aligned F" "avail s F" "F \<noteq> frame (cr3 s)"
    using pool_page_props(1) [OF ok i(1)] i(1,2) mm_inv_dir [OF inv] by (auto simp: F_def avail_def free_page_def)
  let ?pm1 = "(pmem s)(?pde := F OR 7)"
  let ?pm = "new_table (pmem s) (cr3 s) va F"
  have ne: "self_pa (cr3 s) \<noteq> ?pde" using up pde_pa_eq_iff [of "cr3 s" va "-1"] by (auto simp: pdi_window upper_def)
  have self1: "self_mapped ?pm1 (cr3 s)" using self ne by (subst self_mapped_cong [of _ _ "pmem s"]) simp_all
  have self2: "self_mapped ?pm (cr3 s)"
    using self new_table_pde [OF F(1,3), of "pmem s" va "-1"] up
    by (subst self_mapped_cong [of _ _ "pmem s"]) (auto simp: pdi_window upper_def)
  have "translate ?pm1 (cr3 s) (pte_ptr va) = Some (pte_pa ?pm1 (cr3 s) va)"
    using translate_pte_ptr [OF self1, of va] present_or_7 by simp
  then have tr: "translate ?pm1 (cr3 s) (frame (pte_ptr va)) = Some F"
    by (simp add: translate_frame frame_or_7 [OF F(1)])
  have walk: "frame (?pm1 (pde_pa (cr3 s) (frame (pte_ptr va)))) \<noteq> F"
    using self1 F(3) walk_same_page(1) [of "frame (pte_ptr va)" "pte_ptr va" "cr3 s"]
    by (simp add: pde_pa_window self_mapped_def)
  have zero: "vzero 1024 (frame (pte_ptr va)) u = Inr (u\<lparr>pmem := ?pm\<rparr>)"
    if "cr3 u = cr3 s" "pmem u = ?pm1" for u :: "'a kstate_scheme"
    using vzero_page [of "frame (pte_ptr va)" u F 0 1024] that tr walk F(3)
    by (simp add: new_table_def del: fun_upd_apply)
  have pde2: "bit (?pm ?pde) 0" using new_table_pde [OF F(1,3), of "pmem s" va va] present_or_7 by simp
  have pte2: "?pm (pte_pa ?pm (cr3 s) va) = 0" using new_table_pte [OF F(1,3)] by simp
  let ?x = "put_str ''\<newline>'' (put_int (F OR 7) (put_str ''\<newline>'' (put_int F (scr s))))"
  let ?u = "s\<lparr>bytes := mark_bit (pool_bitmap ?k) i (bytes s), pmem := ?pm1, scr := ?x\<rparr>"
  let ?t = "?u\<lparr>pmem := ?pm\<rparr>"
  have run: "page_table_new va s = Inr ?t"
    unfolding page_table_new_def or_flags frame_def [symmetric]
    using zero [of ?u]
    by (simp add: i(3) F_def [symmetric] Let_def vstore_pde_ptr vload_pde_ptr self self1 vload_pte_ptr self2 pde2 pte2
        fun_upd_same del: fun_upd_apply)
  have fr: "table_frame s x \<noteq> F" if "table_at s x" for x
    using inv F(2) that by (auto simp: mm_inv_def)
  have tab_t: "table_at ?t x \<longleftrightarrow> pdi x = pdi va \<or> table_at s x" "table_frame ?t x = (if pdi x = pdi va then F else table_frame s x)" for x
    using new_table_pde [OF F(1,3), of "pmem s" va x] present_or_7 frame_or_7 [OF F(1)]
    by (simp_all add: table_at_def table_frame_def)
  have su: "same_setup s ?t" by (simp add: same_setup_def)
  have av: "avail ?t a \<longleftrightarrow> avail s a \<and> a \<noteq> F" for a
    using avail_mark [OF inv _ i(1), of a] by (simp add: avail_def F_def)
  have no_avail: "\<forall>x. table_at ?t x \<longrightarrow> \<not> avail ?t (table_frame ?t x)"
    and no_dir: "\<forall>x. table_at ?t x \<and> pdi x \<noteq> 1023 \<longrightarrow> table_frame ?t x \<noteq> frame (cr3 ?t)"
    and diff: "\<forall>x y. table_at ?t x \<and> table_at ?t y \<and> pdi x \<noteq> pdi y \<and> pdi x \<noteq> 0 \<and> pdi y \<noteq> 0 \<longrightarrow>
       table_frame ?t x \<noteq> table_frame ?t y"
    using inv fr F(3) unfolding tab_t av mm_inv_def by (auto simp del: fun_upd_apply)
  have "mm_inv ?t"
    using inv self2 no_avail no_dir diff by (simp add: mm_inv_def)
  moreover have "mapped ?t x = mapped s x" if "upper x" for x
    unfolding mapped_def using that inv fr [of x] tab F(1,3)
    by (simp add: table_at_def table_frame_def upper_def mm_inv_def) (intro translate_new_table, auto)
  moreover have "mapped ?t va = None" using pde2 pte2 by (simp add: mapped_def translate_def)
  moreover have "grown s ?t" unfolding grown_def tab_t using F(2) by auto
  moreover have "table_frame ?t va = pool_page ?k i" unfolding tab_t(2) by (simp add: F_def)
  ultimately show thesis using run i(1,2) su tab_t(1) [of va] by (intro that [of ?t i]) simp_all
qed

section \<open>Adding a mapping\<close>

text \<open>\<open>taken s t\<close>: every page that is free in \<open>t\<close> was free in \<open>s\<close>, in the same pool, and the bitmaps other than those
  of the two pools are unchanged.\<close>

definition pools_apart :: "'a kstate_scheme \<Rightarrow> bitmap \<Rightarrow> bool" where
  "pools_apart s b \<longleftrightarrow> bitmap_apart (pool_bitmap (kernel_pool s)) b \<and> bitmap_apart (pool_bitmap (user_pool s)) b"

definition taken :: "'a kstate_scheme \<Rightarrow> 'a kstate_scheme \<Rightarrow> bool" where
  "taken s t \<longleftrightarrow>
     (\<forall>a. (free_page (kernel_pool s) (bytes t) a \<longrightarrow> free_page (kernel_pool s) (bytes s) a) \<and>
          (free_page (user_pool s) (bytes t) a \<longrightarrow> free_page (user_pool s) (bytes s) a)) \<and>
     (\<forall>b j. pools_apart s b \<and> j < bitmap_bits b \<longrightarrow> bit_free b (bytes t) j = bit_free b (bytes s) j)"

abbreviation kfree :: "'a kstate_scheme \<Rightarrow> nat" where
  "kfree s \<equiv> free_count (kernel_pool s) (bytes s)"

abbreviation ufree :: "'a kstate_scheme \<Rightarrow> nat" where
  "ufree s \<equiv> free_count (user_pool s) (bytes s)"

lemma taken_refl [simp]: "taken s s"
  by (simp add: taken_def)

lemma taken_trans: "taken s t \<Longrightarrow> taken t u \<Longrightarrow> same_setup s t \<Longrightarrow> taken s u"
  by (simp add: taken_def same_setup_def pools_apart_def)

lemma taken_avail: "taken s t \<Longrightarrow> same_setup s t \<Longrightarrow> avail t a \<Longrightarrow> avail s a"
  by (auto simp: taken_def same_setup_def avail_def)

lemma mark_kernel:
  assumes "mm_inv s" and "i < pool_pages (kernel_pool s)" and "bit_free (pool_bitmap (kernel_pool s)) (bytes s) i"
    and "bytes t = mark_bit (pool_bitmap (kernel_pool s)) i (bytes s)" and "same_setup s t"
  shows "taken s t" and "kfree t = kfree s - 1" and "ufree t = ufree s"
proof -
  have ok: "pool_ok (kernel_pool s)" and ap: "bitmap_apart (pool_bitmap (kernel_pool s)) (pool_bitmap (user_pool s))"
    using assms(1) by (auto simp: mm_inv_def)
  have i: "i < bitmap_bits (pool_bitmap (kernel_pool s))" "i < 2 ^ 32"
    using assms(2) pool_pages_bound [OF ok] by (auto simp: pool_pages_def)
  show "taken s t"
    using free_page_mark [OF ok assms(2), of "bytes s"] free_page_other(1) [OF ap i, of "bytes s"] mark_bit_other [OF _ i(1) _ i(2)]
    by (simp add: taken_def assms(4) pools_apart_def)
  show "kfree t = kfree s - 1" "ufree t = ufree s"
    using free_count_mark [OF ok assms(2,3)] free_page_other(2) [OF ap i, of "bytes s"] assms(4,5)
    by (simp_all add: same_setup_def)
qed

lemma mark_user:
  assumes "mm_inv s" and "i < pool_pages (user_pool s)" and "bit_free (pool_bitmap (user_pool s)) (bytes s) i"
    and "bytes t = mark_bit (pool_bitmap (user_pool s)) i (bytes s)" and "same_setup s t"
  shows "taken s t" and "ufree t = ufree s - 1" and "kfree t = kfree s"
proof -
  have ok: "pool_ok (user_pool s)" and ap: "bitmap_apart (pool_bitmap (user_pool s)) (pool_bitmap (kernel_pool s))"
    using assms(1) by (auto simp: mm_inv_def)
  have i: "i < bitmap_bits (pool_bitmap (user_pool s))" "i < 2 ^ 32"
    using assms(2) pool_pages_bound [OF ok] by (auto simp: pool_pages_def)
  show "taken s t"
    using free_page_mark [OF ok assms(2), of "bytes s"] free_page_other(1) [OF ap i, of "bytes s"] mark_bit_other [OF _ i(1) _ i(2)]
    by (simp add: taken_def assms(4) pools_apart_def)
  show "ufree t = ufree s - 1" "kfree t = kfree s"
    using free_count_mark [OF ok assms(2,3)] free_page_other(2) [OF ap i, of "bytes s"] assms(4,5)
    by (simp_all add: same_setup_def)
qed

lemma mm_inv_self: "mm_inv s \<Longrightarrow> self_mapped (pmem s) (cr3 s)"
  by (simp add: mm_inv_def)

text \<open>With a page table, without one, and on a page that is mapped already.\<close>

lemma page_table_add_table:
  assumes inv: "mm_inv s" and up: "upper va" and new: "mapped s va = None" and pa: "page_aligned pa" and tab: "table_at s va"
  defines "t \<equiv> s\<lparr>pmem := (pmem s)(pte_pa (pmem s) (cr3 s) va := pa OR 7)\<rparr>"
  shows "page_table_add va pa s = Inr t" and "table_at t va" and "table_frame t va = table_frame s va"
proof -
  have pte: "\<not> bit (pmem s (pte_pa (pmem s) (cr3 s) va)) 0"
    using new tab by (simp add: mapped_def translate_def table_at_def Let_def split: if_splits)
  show "page_table_add va pa s = Inr t"
    unfolding page_table_add_def or_flags and_1_bit t_def using tab pte mm_inv_self [OF inv]
    by (simp add: Let_def vload_pde_ptr vload_pte_ptr vstore_pte_ptr table_at_def del: fun_upd_apply)
  have tf: "frame (pmem s (pde_pa (cr3 s) va)) \<noteq> frame (cr3 s)"
    using inv up tab by (simp add: mm_inv_def upper_def table_frame_def)
  have "pmem t (pde_pa (cr3 s) va) = pmem s (pde_pa (cr3 s) va)"
    using translate_store_pte(3) [where pm = "pmem s" and dir = "cr3 s" and va = va and v = "pa OR 7", OF tab [unfolded table_at_def] tf]
    by (simp add: t_def)
  then show "table_at t va" "table_frame t va = table_frame s va" using tab by (simp_all add: table_at_def table_frame_def t_def)
qed

lemma page_table_add_no_table:
  assumes inv: "mm_inv s" and up: "upper va" and pa: "page_aligned pa" and tab: "\<not> table_at s va" and mem: "kfree s \<noteq> 0"
  obtains t i where "page_table_add va pa s = Inr t" and "mm_inv t" and "mapped t va = Some (pa + pgoff va)"
    and "\<And>x. upper x \<Longrightarrow> frame x \<noteq> frame va \<Longrightarrow> mapped t x = mapped s x"
    and "same_setup s t" and "taken s t" and "kfree t = kfree s - 1" and "ufree t = ufree s" and "grown s t"
    and "table_at t va" and "table_frame t va = pool_page (kernel_pool s) i" and "i < pool_pages (kernel_pool s)"
    and "bit_free (pool_bitmap (kernel_pool s)) (bytes s) i"
proof -
  obtain u i where u: "page_table_new va s = Inr u" "mm_inv u" "table_at u va" "same_setup s u"
    "i < pool_pages (kernel_pool s)" "bit_free (pool_bitmap (kernel_pool s)) (bytes s) i"
    "bytes u = mark_bit (pool_bitmap (kernel_pool s)) i (bytes s)" "\<And>x. upper x \<Longrightarrow> mapped u x = mapped s x"
    "grown s u" "mapped u va = None" "table_frame u va = pool_page (kernel_pool s) i"
    using page_table_new_ok [OF inv up tab mem] by metis
  let ?t = "u\<lparr>pmem := (pmem u)(pte_pa (pmem u) (cr3 u) va := pa OR 7)\<rparr>"
  note mk = mark_kernel [OF inv u(5,6,7,4)]
  note st = store_pte_maps [OF u(2) up u(3) pa]
  have "page_table_add va pa s = Inr ?t"
    unfolding page_table_add_def or_flags and_1_bit using tab u(1,3) mm_inv_self [OF inv] mm_inv_self [OF u(2)]
    by (simp add: Let_def vload_pde_ptr vstore_pte_ptr table_at_def del: fun_upd_apply)
  moreover have "same_setup s ?t" using u(4) st(3) by (rule same_setup_trans)
  moreover have "taken s ?t" using mk(1) st(4) by (simp add: taken_def del: fun_upd_apply)
  moreover have "mapped ?t x = mapped s x" if "upper x" "frame x \<noteq> frame va" for x
    using st(5) [OF that] u(8) [OF that(1)] by simp
  moreover have "grown s ?t" using u(9) st(6) taken_avail [OF mk(1) u(4)] by (rule grown_trans)
  moreover have "table_at ?t va" "table_frame ?t va = pool_page (kernel_pool s) i"
    using page_table_add_table(2,3) [OF u(2) up u(10) pa u(3)] u(11) by simp_all
  ultimately show thesis using st(1,2) mk(2,3) u(5,6) by (intro that [of ?t i]) simp_all
qed

lemma page_table_add_mapped:
  assumes inv: "mm_inv s" and map: "mapped s va \<noteq> None"
  shows "page_table_add va pa s = Inl (Panic ''page_table_add'' ''!(*pte & 1)'')"
proof -
  have "bit (pmem s (pde_pa (cr3 s) va)) 0" "bit (pmem s (pte_pa (pmem s) (cr3 s) va)) 0"
    using map by (simp_all add: mapped_def translate_def Let_def split: if_splits)
  then show ?thesis
    unfolding page_table_add_def and_1_bit using mm_inv_self [OF inv]
    by (simp add: Let_def vload_pde_ptr vload_pte_ptr del: fun_upd_apply)
qed

lemma page_table_add_ok:
  assumes inv: "mm_inv s" and up: "upper va" and new: "mapped s va = None" and pa: "page_aligned pa"
    and mem: "kfree s \<noteq> 0"
  obtains t where "page_table_add va pa s = Inr t" and "mm_inv t" and "mapped t va = Some (pa + pgoff va)"
    and "\<And>x. upper x \<Longrightarrow> frame x \<noteq> frame va \<Longrightarrow> mapped t x = mapped s x"
    and "same_setup s t" and "taken s t" and "kfree t \<ge> kfree s - 1" and "ufree t = ufree s" and "grown s t"
proof (cases "table_at s va")
  case True
  let ?t = "s\<lparr>pmem := (pmem s)(pte_pa (pmem s) (cr3 s) va := pa OR 7)\<rparr>"
  show thesis
    using store_pte_maps [OF inv up True pa] page_table_add_table(1) [OF inv up new pa True]
    by (intro that [of ?t]) (simp_all add: taken_def del: fun_upd_apply)
next
  case False
  show thesis by (rule page_table_add_no_table [OF inv up pa False mem]) (rule that; simp)
qed

section \<open>Allocating pages\<close>

definition nth_page :: "addr \<Rightarrow> nat \<Rightarrow> addr" where
  "nth_page va i = va + of_nat i * PG_SIZE"

lemma nth_page_0 [simp]: "nth_page va 0 = va"
  by (simp add: nth_page_def)

lemma nth_page_Suc: "nth_page (va + PG_SIZE) i = nth_page va (Suc i)"
  by (simp add: nth_page_def algebra_simps)

lemma nth_page_aligned:
  assumes "page_aligned va"
  shows "page_aligned (nth_page va i)"
proof -
  have "unat (nth_page va i) = (unat va + i * 4096) mod 2 ^ 32"
    by (simp add: nth_page_def unat_word_ariths unat_of_nat mod_simps)
  moreover have "4096 dvd (2 ^ 32 :: nat)" by simp
  ultimately show ?thesis using assms by (simp add: page_aligned_dvd dvd_mod)
qed

lemma nth_page_inj:
  assumes "i < 2 ^ 20" and "j < 2 ^ 20"
  shows "nth_page va i = nth_page va j \<longleftrightarrow> i = j"
proof -
  have "unat (of_nat k * 4096 :: u32) = k * 4096" if "k < 2 ^ 20" for k
  proof -
    have "(of_nat k * 4096 :: u32) = of_nat (k * 4096)" by simp
    then show ?thesis using that by (simp only:) (rule unat_of_nat_less, simp)
  qed
  with assms have "(of_nat i * 4096 :: u32) = of_nat j * 4096 \<longleftrightarrow> i = j" by (auto simp: word_unat_eq_iff)
  then show ?thesis by (simp add: nth_page_def)
qed

text \<open>The pool that \<open>malloc_page\<close> takes from, and free pages that are enough for \<open>n\<close> of its steps: each step takes a
  page, and at most one page of the kernel pool for a page table.\<close>

definition the_pool :: "pool_flags \<Rightarrow> 'a kstate_scheme \<Rightarrow> pool" where
  "the_pool pf s = (if pf = PF_KERNEL then kernel_pool s else user_pool s)"

definition enough :: "pool_flags \<Rightarrow> nat \<Rightarrow> 'a kstate_scheme \<Rightarrow> bool" where
  "enough pf n s \<longleftrightarrow> (if pf = PF_KERNEL then 2 * n \<le> kfree s else n \<le> kfree s \<and> n \<le> ufree s)"

lemma palloc_step:
  assumes inv: "mm_inv s" and en: "enough pf (Suc n) s"
  obtains pa t where "palloc (the_pool pf s) s = Inr (pa, t)" and "mm_inv t" and "same_setup s t" and "taken s t"
    and "pmem t = pmem s" and "page_aligned pa" and "pa \<noteq> 0" and "free_page (the_pool pf s) (bytes s) pa" and "\<not> avail t pa"
    and "kfree t \<noteq> 0" and "if pf = PF_KERNEL then 2 * n + 1 \<le> kfree t else Suc n \<le> kfree t \<and> n \<le> ufree t"
    and "kfree s \<le> kfree t + 1" and "ufree s \<le> ufree t + 1"
proof -
  let ?p = "the_pool pf s"
  have ok: "pool_ok ?p" using inv by (simp add: the_pool_def mm_inv_def)
  have "free_count ?p (bytes s) \<noteq> 0" using en by (auto simp: enough_def the_pool_def split: if_splits)
  then obtain i where i: "i < pool_pages ?p" "bit_free (pool_bitmap ?p) (bytes s) i"
    "palloc ?p s = Inr (pool_page ?p i, s\<lparr>bytes := mark_bit (pool_bitmap ?p) i (bytes s)\<rparr>)"
    using palloc_fresh [OF ok] by metis
  let ?t = "s\<lparr>bytes := mark_bit (pool_bitmap ?p) i (bytes s)\<rparr>"
  have su: "same_setup s ?t" by (simp add: same_setup_def)
  have av: "avail ?t a \<longleftrightarrow> avail s a \<and> a \<noteq> pool_page ?p i" for a
    using avail_mark [OF inv _ i(1), of a] by (simp add: the_pool_def)
  have "mm_inv ?t" using inv su by (rule mm_inv_keep) (simp_all add: av)
  moreover have "taken s ?t \<and> (if pf = PF_KERNEL then 2 * n + 1 \<le> kfree ?t else Suc n \<le> kfree ?t \<and> n \<le> ufree ?t) \<and>
      kfree s \<le> kfree ?t + 1 \<and> ufree s \<le> ufree ?t + 1"
    using mark_kernel [OF inv, of i ?t] mark_user [OF inv, of i ?t] i(1,2) su en
    by (cases pf) (auto simp: the_pool_def enough_def)
  moreover have "free_page ?p (bytes s) (pool_page ?p i)" using i(1,2) by (auto simp: free_page_def)
  ultimately show thesis
    using i(3) su av pool_page_props(1,2) [OF ok i(1)] by (intro that [of "pool_page ?p i" ?t]) (auto split: if_splits)
qed

text \<open>One turn of the loop: a page is taken from the pool and mapped.\<close>

lemma malloc_turn:
  assumes inv: "mm_inv s" and va: "page_aligned va" "upper va" "mapped s va = None" and en: "enough pf (Suc n) s"
  obtains pa t where "malloc_loop pf (Suc k) va s = malloc_loop pf k (va + PG_SIZE) t" and "mm_inv t" and "same_setup s t" and "taken s t"
    and "grown s t" and "enough pf n t" and "free_page (the_pool pf s) (bytes s) pa" and "\<not> avail t pa"
    and "\<And>x. table_at t x \<Longrightarrow> table_frame t x \<noteq> pa" and "mapped t va = Some pa"
    and "\<And>x. upper x \<Longrightarrow> frame x \<noteq> va \<Longrightarrow> mapped t x = mapped s x" and "kfree s \<le> kfree t + 2" and "ufree s \<le> ufree t + 1"
proof -
  obtain pa s1 where s1: "palloc (the_pool pf s) s = Inr (pa, s1)" "mm_inv s1" "same_setup s s1" "taken s s1"
    "pmem s1 = pmem s" "page_aligned pa" "pa \<noteq> 0" "free_page (the_pool pf s) (bytes s) pa" "\<not> avail s1 pa"
    "kfree s1 \<noteq> 0" "if pf = PF_KERNEL then 2 * n + 1 \<le> kfree s1 else Suc n \<le> kfree s1 \<and> n \<le> ufree s1"
    "kfree s \<le> kfree s1 + 1" "ufree s \<le> ufree s1 + 1"
    using palloc_step [OF inv en] by metis
  have m1: "mapped s1 x = mapped s x" for x using s1(3,5) by (simp add: mapped_def same_setup_def)
  have un: "mapped s1 va = None" using va(3) m1 by simp
  obtain t where t: "page_table_add va pa s1 = Inr t" "mm_inv t" "mapped t va = Some (pa + pgoff va)"
    "\<And>x. upper x \<Longrightarrow> frame x \<noteq> frame va \<Longrightarrow> mapped t x = mapped s1 x" "same_setup s1 t" "taken s1 t"
    "kfree t \<ge> kfree s1 - 1" "ufree t = ufree s1" "grown s1 t"
    using page_table_add_ok [OF s1(2) va(2) un s1(6,10)] by metis
  have tab: "table_at s1 y = table_at s y" "table_frame s1 y = table_frame s y" for y
    using s1(3,5) by (simp_all add: table_at_def table_frame_def same_setup_def)
  have av: "avail s pa" using s1(8) by (auto simp: the_pool_def avail_def split: if_splits)
  have notab: "table_frame t x \<noteq> pa" if "table_at t x" for x
  proof -
    have "avail s1 (table_frame t x) \<or> \<not> avail s (table_frame t x)" using t(9) that inv unfolding grown_def tab mm_inv_def by metis
    then show ?thesis using s1(9) av by auto
  qed
  have "grown s s1" using s1(3,5) by (intro grown_same) simp_all
  then have gr: "grown s t" using t(9) taken_avail [OF s1(4,3)] by (rule grown_trans)
  have "malloc_loop pf (Suc k) va s = malloc_loop pf k (va + PG_SIZE) t"
    using s1(1,7) t(1) by (simp add: Let_def the_pool_def)
  moreover have "enough pf n t" using s1(11) t(7,8) by (auto simp: enough_def split: if_splits)
  moreover have "\<not> avail t pa" using taken_avail [OF t(6,5)] s1(9) by blast
  moreover have "mapped t va = Some pa" using t(3) va(1) by (simp add: page_aligned_def)
  moreover have "kfree s \<le> kfree t + 2" "ufree s \<le> ufree t + 1" using s1(12,13) t(7,8) by simp_all
  ultimately show thesis
    using t(2,4) same_setup_trans [OF s1(3) t(5)] taken_trans [OF s1(4) t(6) s1(3)] gr notab s1(8) va(1) m1 by (intro that [of t pa]) simp_all
qed

lemma malloc_loop_ok:
  assumes "mm_inv s" and "page_aligned va" and "enough pf n s" and "n < 2 ^ 20"
    and "\<And>i. i < n \<Longrightarrow> upper (nth_page va i) \<and> mapped s (nth_page va i) = None"
  shows "\<exists>t pas. malloc_loop pf n va s = Inr (True, t) \<and> mm_inv t \<and> same_setup s t \<and> taken s t \<and>
    grown s t \<and> (\<forall>a \<in> set pas. \<forall>x. table_at t x \<longrightarrow> table_frame t x \<noteq> a) \<and>
    length pas = n \<and> distinct pas \<and> (\<forall>a \<in> set pas. free_page (the_pool pf s) (bytes s) a \<and> \<not> avail t a) \<and>
    (\<forall>i < n. mapped t (nth_page va i) = Some (pas ! i)) \<and>
    (\<forall>x. upper x \<and> (\<forall>i < n. frame x \<noteq> nth_page va i) \<longrightarrow> mapped t x = mapped s x) \<and>
    kfree s \<le> kfree t + 2 * n \<and> ufree s \<le> ufree t + n"
  using assms
proof (induction n arbitrary: s va)
  case 0
  then show ?case by (simp add: grown_same)
next
  case (Suc n)
  have va0: "frame va = va" "upper va" "mapped s va = None" using Suc.prems(2) Suc.prems(5) [of 0] by simp_all
  obtain pa t1 where t1: "malloc_loop pf (Suc n) va s = malloc_loop pf n (va + PG_SIZE) t1" "mm_inv t1" "same_setup s t1" "taken s t1"
    "grown s t1" "enough pf n t1" "free_page (the_pool pf s) (bytes s) pa" "\<not> avail t1 pa" "\<And>x. table_at t1 x \<Longrightarrow> table_frame t1 x \<noteq> pa"
    "mapped t1 va = Some pa" "\<And>x. upper x \<Longrightarrow> frame x \<noteq> va \<Longrightarrow> mapped t1 x = mapped s x" "kfree s \<le> kfree t1 + 2" "ufree s \<le> ufree t1 + 1"
    using malloc_turn [OF Suc.prems(1,2) va0(2,3) Suc.prems(3), of n] by metis
  have later: "nth_page va (Suc i) \<noteq> va" if "i < n" for i using nth_page_inj [of "Suc i" 0 va] that Suc.prems(4) by simp
  have fr: "frame (nth_page va i) = nth_page va i" for i using nth_page_aligned [OF Suc.prems(2)] by simp
  have rest: "upper (nth_page (va + PG_SIZE) i) \<and> mapped t1 (nth_page (va + PG_SIZE) i) = None" if "i < n" for i
    using Suc.prems(5) [of "Suc i"] that t1(11) later [OF that] fr by (simp add: nth_page_Suc)
  have al: "page_aligned (va + PG_SIZE)" using nth_page_aligned [OF Suc.prems(2), of 1] by (simp add: nth_page_def)
  have "n < 2 ^ 20" using Suc.prems(4) by simp
  from Suc.IH [OF t1(2) al t1(6) this rest] obtain t pas where t: "malloc_loop pf n (va + PG_SIZE) t1 = Inr (True, t)"
    "mm_inv t" "same_setup t1 t" "taken t1 t" "length pas = n" "distinct pas"
    "\<forall>a \<in> set pas. free_page (the_pool pf t1) (bytes t1) a \<and> \<not> avail t a"
    "\<forall>i < n. mapped t (nth_page (va + PG_SIZE) i) = Some (pas ! i)"
    "\<forall>x. upper x \<and> (\<forall>i < n. frame x \<noteq> nth_page (va + PG_SIZE) i) \<longrightarrow> mapped t x = mapped t1 x"
    "grown t1 t" "\<forall>a \<in> set pas. \<forall>x. table_at t x \<longrightarrow> table_frame t x \<noteq> a"
    "kfree t1 \<le> kfree t + 2 * n" "ufree t1 \<le> ufree t + n"
    by blast
  have tk: "taken s t" using t1(4) t(4) t1(3) by (rule taken_trans)
  have gr: "grown s t" using t1(5) t(10) taken_avail [OF t1(4,3)] by (rule grown_trans)
  have "table_frame t x \<noteq> pa" if "table_at t x" for x using t(10) that t1(8,9) unfolding grown_def by metis
  then have notab: "\<forall>a \<in> set (pa # pas). \<forall>x. table_at t x \<longrightarrow> table_frame t x \<noteq> a" using t(11) by simp
  have "free_page (the_pool pf t1) (bytes t1) a \<Longrightarrow> avail t1 a" for a by (auto simp: the_pool_def avail_def split: if_splits)
  then have fresh: "pa \<notin> set pas" using t(7) t1(8) by blast
  have free: "\<forall>a \<in> set (pa # pas). free_page (the_pool pf s) (bytes s) a \<and> \<not> avail t a"
    using t(7) t1(3,4,7,8) taken_avail [OF t(4,3)] by (auto simp: same_setup_def taken_def the_pool_def split: if_splits)
  have "mapped t va = Some pa" using t(9) t1(10) va0 later by (metis nth_page_Suc)
  then have maps: "\<forall>i < Suc n. mapped t (nth_page va i) = Some ((pa # pas) ! i)"
    using t(8) by (auto simp: less_Suc_eq_0_disj nth_page_Suc)
  have others: "mapped t x = mapped s x" if "upper x" "\<forall>i < Suc n. frame x \<noteq> nth_page va i" for x
  proof -
    have "frame x \<noteq> va" "\<forall>i < n. frame x \<noteq> nth_page (va + PG_SIZE) i" using that(2) by (auto simp: nth_page_Suc dest: spec [of _ 0])
    then show ?thesis using t(9) t1(11) that(1) by simp
  qed
  have run: "malloc_loop pf (Suc n) va s = Inr (True, t)" using t1(1) t(1) by (simp only:)
  have counts: "kfree s \<le> kfree t + 2 * Suc n" "ufree s \<le> ufree t + Suc n" using t1(12,13) t(12,13) by simp_all
  show ?case
    using run t(2,5,6) same_setup_trans [OF t1(3) t(3)] tk fresh free maps others gr notab counts
    by (intro exI [of _ t] exI [of _ "pa # pas"]) (simp del: malloc_loop.simps)
qed

section \<open>Virtual addresses of the kernel\<close>

lemma of_nat_neq_m1: "i < 2 ^ 31 \<Longrightarrow> (of_nat i :: u32) \<noteq> -1"
proof
  assume i: "i < 2 ^ 31" and "(of_nat i :: u32) = -1"
  then have "unat (of_nat i :: u32) = 4294967295" by (simp only: unat_minus_1_u32)
  with i show False by (simp add: unat_of_nat)
qed

lemma mark_run_fold:
  assumes "c \<le> n" and "n < 2 ^ 32"
  shows "mark_run b (of_nat r) (of_nat c) (of_nat n) m = Inr (fold (mark_bit b) [r + c..<r + n] m)"
  using assms
proof (induction "n - c" arbitrary: c m)
  case 0
  then show ?case by (simp add: mark_run.simps)
next
  case (Suc k)
  then have "(of_nat c :: u32) < of_nat n" by (simp add: word_less_nat_alt unat_of_nat)
  moreover have "[r + c..<r + n] = (r + c) # [r + Suc c..<r + n]" using Suc.hyps(2) by (simp add: upt_conv_Cons)
  moreover have "(of_nat r + of_nat c :: u32) = of_nat (r + c)" "(of_nat c + 1 :: u32) = of_nat (Suc c)" by simp_all
  ultimately show ?case
    using Suc.hyps(1) [of "Suc c"] Suc.hyps(2) Suc.prems(2)
    by (subst mark_run.simps) (simp add: bitmap_set_mark del: of_nat_add of_nat_Suc)
qed

definition kvb :: "'a kstate_scheme \<Rightarrow> bitmap" where
  "kvb s = vaddr_bitmap (kernel_vaddr s)"

definition kpage :: "'a kstate_scheme \<Rightarrow> nat \<Rightarrow> addr" where
  "kpage s i = nth_page (vaddr_start (kernel_vaddr s)) i"

text \<open>The bitmap of kernel addresses: its pages are upper addresses, and a page that is free is not mapped.\<close>

definition virt_ok :: "'a kstate_scheme \<Rightarrow> bool" where
  "virt_ok s \<longleftrightarrow> bitmap_bits (kvb s) < 2 ^ 20 \<and> page_aligned (vaddr_start (kernel_vaddr s)) \<and> pools_apart s (kvb s) \<and>
     bitmap_apart (kvb s) (pool_bitmap (kernel_pool s)) \<and> bitmap_apart (kvb s) (pool_bitmap (user_pool s)) \<and>
     (\<forall>i < bitmap_bits (kvb s). upper (kpage s i) \<and> (bit_free (kvb s) (bytes s) i \<longrightarrow> mapped s (kpage s i) = None))"

text \<open>The search that \<open>bitmap_scan\<close> makes for \<open>n\<close> kernel pages; it must end inside the bitmap.\<close>

definition kernel_run :: "'a kstate_scheme \<Rightarrow> nat \<Rightarrow> nat \<Rightarrow> bool" where
  "kernel_run s n r \<longleftrightarrow> first_fit (bit_free (kvb s) (bytes s)) (if n = 1 then bitmap_bits (kvb s) else Suc (bitmap_bits (kvb s))) n = Some r \<and>
     r + n \<le> bitmap_bits (kvb s)"

lemma vaddr_get_kernel:
  assumes ok: "virt_ok s" and n: "0 < n" and run: "kernel_run s n r"
  shows "vaddr_get PF_KERNEL (of_nat n) s = Inr (kpage s r, s\<lparr>bytes := fold (mark_bit (kvb s)) [r..<r + n] (bytes s)\<rparr>)"
proof -
  have bnd: "bitmap_bits (kvb s) < 2 ^ 20" "r + n \<le> bitmap_bits (kvb s)" using ok run by (simp_all add: virt_ok_def kernel_run_def)
  have "bit_free (kvb s) (bytes s) r"
    using run first_fit_SomeD(1) n unfolding kernel_run_def run_free_def by force
  then have nf: "\<not> bitmap_full (kvb s) (bytes s)" using bnd n by (auto simp: bitmap_full_def intro: exI [of _ r])
  have wf: "bitmap_wf (kvb s)" using bnd(1) by (simp add: bitmap_wf_def)
  have un: "unat (of_nat n :: u32) = n" using bnd by (intro unat_of_nat_less) simp
  have "(of_nat n :: u32) \<noteq> 0" "(of_nat n :: u32) = 1 \<longleftrightarrow> n = 1" using un n by (auto simp: word_unat_eq_iff)
  then have scan: "bitmap_scan (kvb s) (of_nat n) (bytes s) = Inr (of_nat r)"
    using bitmap_scan_fit [OF wf nf, of "of_nat n"] run by (simp add: un scan_result_def kernel_run_def)
  have "r < 2 ^ 31" using bnd by simp
  with scan mark_run_fold [of 0 n "kvb s" r "bytes s"] bnd of_nat_neq_m1 [of r] show ?thesis
    by (simp add: vaddr_get_def Let_def kvb_def [symmetric] kpage_def nth_page_def)
qed

lemma fold_mark_other:
  assumes "bitmap_apart b b'" and "\<And>i. i \<in> set is \<Longrightarrow> i < bitmap_bits b" and "bitmap_bits b \<le> 2 ^ 32" and "j < bitmap_bits b'"
  shows "bit_free b' (fold (mark_bit b) is m) j = bit_free b' m j"
  using assms(2)
proof (induction "is" arbitrary: m)
  case (Cons i "is")
  then have "i < bitmap_bits b" "i < 2 ^ 32" using assms(3) by force+
  with Cons mark_bit_other [OF assms(1) _ assms(4), of i m] show ?case by simp
qed simp

lemma fold_mark_pool:
  assumes "bitmap_apart b (pool_bitmap p)" and "\<And>i. i \<in> set is \<Longrightarrow> i < bitmap_bits b" and "bitmap_bits b \<le> 2 ^ 32"
  shows "free_page p (fold (mark_bit b) is m) = free_page p m" and "free_count p (fold (mark_bit b) is m) = free_count p m"
  using fold_mark_other [OF assms, where m = m] by (auto simp: free_page_def free_count_def pool_pages_def fun_eq_iff cong: conj_cong)

lemma mark_kernel_run:
  assumes inv: "mm_inv s" and ok: "virt_ok s" and run: "kernel_run s n r"
  defines "s1 \<equiv> s\<lparr>bytes := fold (mark_bit (kvb s)) [r..<r + n] (bytes s)\<rparr>"
  shows "mm_inv s1" and "same_setup s s1" and "kfree s1 = kfree s" and "ufree s1 = ufree s" and "mapped s1 x = mapped s x"
    and "free_page (kernel_pool s) (bytes s1) = free_page (kernel_pool s) (bytes s)"
    and "j < bitmap_bits (kvb s) \<Longrightarrow> bit_free (kvb s) (bytes s1) j \<longleftrightarrow> bit_free (kvb s) (bytes s) j \<and> j \<notin> {r..<r + n}"
proof -
  have bnd: "bitmap_bits (kvb s) < 2 ^ 20" "r + n \<le> bitmap_bits (kvb s)"
    and ap: "bitmap_apart (kvb s) (pool_bitmap (kernel_pool s))" "bitmap_apart (kvb s) (pool_bitmap (user_pool s))"
    using ok run by (simp_all add: virt_ok_def kernel_run_def)
  have pool: "free_page p (bytes s1) = free_page p (bytes s)" "free_count p (bytes s1) = free_count p (bytes s)"
    if "bitmap_apart (kvb s) (pool_bitmap p)" for p
    unfolding s1_def using bnd fold_mark_pool [OF that, of "[r..<r + n]" "bytes s"] by simp_all
  show su: "same_setup s s1" by (simp add: s1_def same_setup_def)
  show "kfree s1 = kfree s" "ufree s1 = ufree s" "free_page (kernel_pool s) (bytes s1) = free_page (kernel_pool s) (bytes s)"
    using pool ap su by (simp_all add: same_setup_def)
  show "mm_inv s1"
    by (rule mm_inv_keep [OF inv su]) (use pool ap su in \<open>simp_all add: avail_def same_setup_def s1_def\<close>)
  show "mapped s1 x = mapped s x" by (simp add: s1_def mapped_def)
  show "bit_free (kvb s) (bytes s1) j \<longleftrightarrow> bit_free (kvb s) (bytes s) j \<and> j \<notin> {r..<r + n}" if "j < bitmap_bits (kvb s)"
    unfolding s1_def using that bnd bm.free_mark_run [of r n j "kvb s" "bytes s"] by simp
qed

lemma kpage_props:
  assumes "virt_ok s" and "i < bitmap_bits (kvb s)"
  shows "upper (kpage s i)" and "page_aligned (kpage s i)" and "kpage s i \<noteq> NULL"
    and "j < bitmap_bits (kvb s) \<Longrightarrow> kpage s i = kpage s j \<longleftrightarrow> i = j"
proof -
  show up: "upper (kpage s i)" and "page_aligned (kpage s i)"
    using assms by (simp_all add: virt_ok_def kpage_def nth_page_aligned)
  show "kpage s i \<noteq> NULL"
  proof
    assume "kpage s i = NULL"
    then have "pdi (kpage s i) = 0" by (simp add: pdi_def)
    with up show False by (simp add: upper_def)
  qed
  show "kpage s i = kpage s j \<longleftrightarrow> i = j" if "j < bitmap_bits (kvb s)"
    unfolding kpage_def using assms that by (intro nth_page_inj) (auto simp: virt_ok_def)
qed

lemma nth_page_kpage: "nth_page (kpage s r) i = kpage s (r + i)"
  by (simp add: kpage_def nth_page_def algebra_simps)

lemma malloc_kernel_ok:
  assumes inv: "mm_inv s" and ok: "virt_ok s" and n: "0 < n" "n < 3840" and run: "kernel_run s n r" and mem: "2 * n \<le> kfree s"
  obtains t pas where "malloc_page PF_KERNEL (of_nat n) s = Inr (kpage s r, t)" and "mm_inv t" and "virt_ok t" and "same_setup s t"
    and "length pas = n" and "distinct pas" and "\<forall>a \<in> set pas. free_page (kernel_pool s) (bytes s) a \<and> \<not> avail t a"
    and "\<forall>i < n. mapped t (kpage s (r + i)) = Some (pas ! i)"
    and "\<forall>x. upper x \<and> (\<forall>i < n. frame x \<noteq> kpage s (r + i)) \<longrightarrow> mapped t x = mapped s x"
    and "\<forall>j < bitmap_bits (kvb s). bit_free (kvb s) (bytes t) j \<longleftrightarrow> bit_free (kvb s) (bytes s) j \<and> j \<notin> {r..<r + n}"
    and "\<forall>a \<in> set pas. \<forall>x. table_at t x \<longrightarrow> table_frame t x \<noteq> a"
    and "kfree s \<le> kfree t + 2 * n" and "ufree s \<le> ufree t + n"
proof -
  let ?s1 = "s\<lparr>bytes := fold (mark_bit (kvb s)) [r..<r + n] (bytes s)\<rparr>"
  note s1 = mark_kernel_run [OF inv ok run]
  have bnd: "bitmap_bits (kvb s) < 2 ^ 20" "r + n \<le> bitmap_bits (kvb s)"
    using ok run by (simp_all add: virt_ok_def kernel_run_def)
  have free: "bit_free (kvb s) (bytes s) (r + i)" if "i < n" for i
    using run that first_fit_SomeD(1) unfolding kernel_run_def run_free_def by fastforce
  have new: "upper (nth_page (kpage s r) i) \<and> mapped ?s1 (nth_page (kpage s r) i) = None" if "i < n" for i
    using ok bnd(2) free [OF that] that s1(5) by (simp add: nth_page_kpage virt_ok_def)
  have r: "r < bitmap_bits (kvb s)" using bnd(2) n(1) by simp
  have en: "enough PF_KERNEL n ?s1" using mem s1(3) by (simp add: enough_def)
  have "n < 2 ^ 20" using bnd by simp
  from malloc_loop_ok [OF s1(1) kpage_props(2) [OF ok r] en this new] obtain t pas where
    t: "malloc_loop PF_KERNEL n (kpage s r) ?s1 = Inr (True, t)" "mm_inv t" "same_setup ?s1 t" "taken ?s1 t"
    "length pas = n" "distinct pas" "\<forall>a \<in> set pas. free_page (the_pool PF_KERNEL ?s1) (bytes ?s1) a \<and> \<not> avail t a"
    "\<forall>i < n. mapped t (nth_page (kpage s r) i) = Some (pas ! i)"
    "\<forall>x. upper x \<and> (\<forall>i < n. frame x \<noteq> nth_page (kpage s r) i) \<longrightarrow> mapped t x = mapped ?s1 x"
    "\<forall>a \<in> set pas. \<forall>x. table_at t x \<longrightarrow> table_frame t x \<noteq> a"
    "kfree ?s1 \<le> kfree t + 2 * n" "ufree ?s1 \<le> ufree t + n"
    by blast
  have su: "same_setup s t" using s1(2) t(3) by (rule same_setup_trans)
  have un: "unat (of_nat n :: u32) = n" using n by (intro unat_of_nat_less) simp
  have "(0 :: u32) < of_nat n" "(of_nat n :: u32) < 3840" using n by (simp_all add: word_less_nat_alt un)
  then have go: "malloc_page PF_KERNEL (of_nat n) s = Inr (kpage s r, t)"
    using vaddr_get_kernel [OF ok n(1) run] t(1) kpage_props(3) [OF ok r] by (simp add: malloc_page_def un)
  have others: "mapped t x = mapped s x" if "upper x" "\<forall>i < n. frame x \<noteq> kpage s (r + i)" for x
    using t(9) s1(5) that by (simp add: nth_page_kpage)
  have bits: "bit_free (kvb s) (bytes t) j \<longleftrightarrow> bit_free (kvb s) (bytes s) j \<and> j \<notin> {r..<r + n}" if "j < bitmap_bits (kvb s)" for j
    using t(4) s1(7) [OF that] that ok by (simp add: taken_def pools_apart_def virt_ok_def)
  have same: "kvb t = kvb s" "kpage t = kpage s" "pools_apart t = pools_apart s"
    using su by (auto simp: same_setup_def kvb_def kpage_def pools_apart_def fun_eq_iff)
  have "virt_ok t"
    unfolding virt_ok_def same
  proof (intro conjI allI impI)
    fix j
    assume j: "j < bitmap_bits (kvb s)"
    show "upper (kpage s j)" using kpage_props(1) [OF ok j] .
    assume "bit_free (kvb s) (bytes t) j"
    then have f: "bit_free (kvb s) (bytes s) j" "j \<notin> {r..<r + n}" using bits [OF j] by auto
    have "frame (kpage s j) \<noteq> kpage s (r + i)" if "i < n" for i
      using kpage_props(2) [OF ok j] kpage_props(4) [OF ok j, of "r + i"] f(2) that bnd(2) by auto
    then show "mapped t (kpage s j) = None"
      using others [of "kpage s j"] kpage_props(1) [OF ok j] ok j f(1) by (simp add: virt_ok_def)
  qed (use ok su in \<open>simp_all add: virt_ok_def same_setup_def\<close>)
  then show thesis
    using go t(2,5,6,7,8,10,11,12) su others bits s1(3,4,6)
    by (intro that [of t pas]) (simp_all add: nth_page_kpage the_pool_def)
qed

end
