(* ===== verification/PoolInit.thy ===== *)
theory PoolInit
  imports PageMap
begin

text \<open>
  What \<open>mem_pool_init\<close> sets up: the sizes it computes, at their C widths, and the state it leaves, from which the
  pool part of the invariant of \<open>PageMap\<close> follows.  The number of free pages is kept in a \<open>uint16_t\<close>, so the layout
  is right for less than 256 MB of free memory only.
\<close>

section \<open>The size report\<close>

lemma size_loop_bound:
  "unat n < 2 ^ (10 * Suc k) \<Longrightarrow> snd (size_loop n a i) \<le> i + k"
proof (induction k arbitrary: n a i)
  case 0
  then have "drop_bit 10 n = 0" by (simp add: word_unat_eq_iff drop_bit_eq_div unat_div)
  then show ?case by (subst size_loop.simps) (simp add: Let_def)
next
  case (Suc k)
  have "unat (drop_bit 10 n) = unat n div 2 ^ 10" by (simp add: drop_bit_eq_div unat_div)
  moreover have "unat n < 2 ^ 10 * 2 ^ (10 * Suc k)" using Suc.prems by (simp add: power_add)
  ultimately have "unat (drop_bit 10 n) < 2 ^ (10 * Suc k)" by (simp add: less_mult_imp_div_less mult.commute)
  from Suc.IH [OF this, of "drop_bit 10 n" "Suc i"] show ?case
    by (subst size_loop.simps) (simp add: Let_def)
qed

lemma show_memory_size_ok: "\<exists>x. show_memory_size n s = Inr (s\<lparr>scr := x\<rparr>)"
proof -
  have "unat n < 2 ^ (10 * Suc 3)" using unsigned_less [of n, where 'a = nat] by simp
  from size_loop_bound [OF this, of n 0] have "snd (size_loop n n 0) < 4" by simp
  then show ?thesis by (auto simp: show_memory_size_def Let_def split_beta)
qed

section \<open>The layout\<close>

definition free_pages :: "u32 \<Rightarrow> nat" where
  "free_pages all_mem = (unat all_mem - 0x200000) div 4096"

lemma all_free_pages:
  assumes "0x200000 \<le> unat all_mem"
  shows "unat (ucast ((all_mem - (PG_SIZE * 256 + 0x100000)) div PG_SIZE) :: u16) = free_pages all_mem mod 2 ^ 16"
proof -
  have "unat (all_mem - 0x200000) = unat all_mem - 0x200000"
    using assms by (subst unat_sub) (simp_all add: word_le_nat_alt)
  then show ?thesis by (simp add: unsigned_ucast_eq take_bit_eq_mod unat_div free_pages_def)
qed

lemma pool_layout_values:
  fixes s :: "'a kstate_scheme"
  assumes "0x200000 \<le> unat all_mem"
  defines "F \<equiv> free_pages all_mem mod 2 ^ 16"
  defines "s' \<equiv> pool_layout all_mem s"
  shows "phy_addr_start (kernel_pool s') = 0x200000"
    and "pool_bitmap (kernel_pool s') = \<lparr>btmp_bytes_len = of_nat (F div 2 div 8), bits = MEM_BITMAP_BASE\<rparr>"
    and "phy_addr_start (user_pool s') = of_nat (0x200000 + 4096 * (F div 2))"
    and "pool_bitmap (user_pool s') = \<lparr>btmp_bytes_len = of_nat ((F - F div 2) div 8),
           bits = MEM_BITMAP_BASE + of_nat (F div 2 div 8)\<rparr>"
proof -
  define af where "af = (ucast ((all_mem - (PG_SIZE * 256 + 0x100000)) div PG_SIZE) :: u16)"
  have af: "unat af = F" unfolding af_def F_def using assms(1) by (rule all_free_pages)
  have F: "F < 2 ^ 16" by (simp add: F_def)
  have widen: "(ucast x :: u32) = of_nat (unat x)" for x :: u16 by simp
  have "unat (af div 2) = F div 2" by (simp add: unat_div af)
  then have k: "(ucast (af div 2) :: u32) = of_nat (F div 2)" by (simp only: widen)
  have "unat (af - af div 2) = F - F div 2"
    by (subst unat_sub) (simp_all add: word_le_nat_alt unat_div af)
  then have u: "(ucast (af - af div 2) :: u32) = of_nat (F - F div 2)"
    by (simp only: widen)
  have d8: "(of_nat m :: u32) div 8 = of_nat (m div 8)" if "m < 2 ^ 16" for m
    using that by (intro of_nat_div8) simp
  have lay: "s' = pool_layout all_mem s" by (simp add: s'_def)
  show "phy_addr_start (kernel_pool s') = 0x200000"
    "pool_bitmap (kernel_pool s') = \<lparr>btmp_bytes_len = of_nat (F div 2 div 8), bits = MEM_BITMAP_BASE\<rparr>"
    "phy_addr_start (user_pool s') = of_nat (0x200000 + 4096 * (F div 2))"
    "pool_bitmap (user_pool s') = \<lparr>btmp_bytes_len = of_nat ((F - F div 2) div 8),
           bits = MEM_BITMAP_BASE + of_nat (F div 2 div 8)\<rparr>"
    unfolding lay pool_layout_def Let_def af_def [symmetric] k u using F by (simp_all add: d8 del: of_nat_diff)
qed

lemma bitmap_apart_seq:
  assumes "bits b = B + of_nat x" and "bits b' = B + of_nat y"
    and "x + unat (btmp_bytes_len b) \<le> y \<or> y + unat (btmp_bytes_len b') \<le> x"
    and "x + unat (btmp_bytes_len b) < 2 ^ 32" and "y + unat (btmp_bytes_len b') < 2 ^ 32"
  shows "bitmap_apart b b'"
  unfolding bitmap_apart_def
proof (intro allI impI)
  fix i j
  assume "i < bitmap_bits b" "j < bitmap_bits b'"
  then have ij: "i div 8 < unat (btmp_bytes_len b)" "j div 8 < unat (btmp_bytes_len b')"
    by (simp_all add: bitmap_bits_def less_mult_imp_div_less)
  have "(of_nat (x + i div 8) :: u32) \<noteq> of_nat (y + j div 8)"
    using ij assms(3-5) by (subst of_nat_u32_inj) auto
  then show "bits b + of_nat (i div 8) \<noteq> bits b' + of_nat (j div 8)"
    by (simp add: assms(1,2) add.assoc)
qed

lemma bit_free_zero: "m (bits b + of_nat (i div 8)) = 0 \<Longrightarrow> bit_free b m i"
  by (simp add: bit_free_def)

lemma byte_in_bitmap:
  assumes "i < bitmap_bits b"
  shows "bits b + of_nat (i div 8) - bits b < btmp_bytes_len b"
proof -
  have i: "i div 8 < unat (btmp_bytes_len b)" using assms by (simp add: bitmap_bits_def less_mult_imp_div_less)
  then have "unat (of_nat (i div 8) :: u32) = i div 8"
    using unsigned_less [of "btmp_bytes_len b", where 'a = nat] by (intro unat_of_nat_less) simp
  with i show ?thesis by (simp add: word_less_nat_alt)
qed

lemma list_init_fields [simp]:
  "kernel_pool (list_init l s) = kernel_pool s" "user_pool (list_init l s) = user_pool s"
  "kernel_vaddr (list_init l s) = kernel_vaddr s" "bytes (list_init l s) = bytes s"
  "lk_holder (list_init l s) = lk_holder s" "lk_repeat (list_init l s) = lk_repeat s"
  "sem_value (list_init l s) = sem_value s"
  by (simp_all add: list_init_def Let_def)

lemma lock_init_fields [simp]:
  "kernel_pool (lock_init l s) = kernel_pool s" "user_pool (lock_init l s) = user_pool s"
  "kernel_vaddr (lock_init l s) = kernel_vaddr s" "bytes (lock_init l s) = bytes s"
  "sem_value (lock_init l s) = (sem_value s)(lock_sema l := 1)"
  "lk_holder (lock_init l s) = (lk_holder s)(l := NULL)" "lk_repeat (lock_init l s) = (lk_repeat s)(l := 0)"
  by (simp_all add: lock_init_def sema_init_def Let_def)

lemma pool_report_eq: "\<exists>x. pool_report s = s\<lparr>scr := x\<rparr>"
  by (auto simp: pool_report_def put_line_def Let_def)

lemma bitmap_clear_eq:
  "bits b \<noteq> NULL \<Longrightarrow> bitmap_clear b s = Inr (s\<lparr>bytes := memset_loop (bits b) 0 (btmp_bytes_len b) (bytes s)\<rparr>)"
  by (simp add: bitmap_clear_def bitmap_init_def memset_def)

text \<open>The bitmap of kernel addresses lies behind the two pool bitmaps.\<close>

definition heap_bitmap :: "bitmap \<Rightarrow> bitmap \<Rightarrow> bitmap" where
  "heap_bitmap kb ub = \<lparr>btmp_bytes_len = btmp_bytes_len kb, bits = MEM_BITMAP_BASE + btmp_bytes_len kb + btmp_bytes_len ub\<rparr>"

lemma mem_pool_init_result:
  fixes s :: "'a kstate_scheme" and all_mem :: u32
  defines "p \<equiv> pool_layout all_mem s"
  defines "kb \<equiv> pool_bitmap (kernel_pool p)" and "ub \<equiv> pool_bitmap (user_pool p)"
  assumes "bits kb \<noteq> NULL" and "bits ub \<noteq> NULL" and "bits (heap_bitmap kb ub) \<noteq> NULL"
  obtains s' where "mem_pool_init all_mem s = Inr s'" and "kernel_pool s' = kernel_pool p" and "user_pool s' = user_pool p"
    and "kernel_vaddr s' = \<lparr>vaddr_bitmap = heap_bitmap kb ub, vaddr_start = K_HEAP_START\<rparr>"
    and "\<And>b i. b \<in> {kb, ub, heap_bitmap kb ub} \<Longrightarrow> i < bitmap_bits b \<Longrightarrow> bit_free b (bytes s') i"
    and "\<And>l. l \<in> {pool_lock (kernel_pool s'), pool_lock (user_pool s')} \<Longrightarrow>
      sem_value s' (lock_sema l) = 1 \<and> lk_holder s' l = NULL \<and> lk_repeat s' l = 0"
proof -
  obtain x where x: "show_memory_size all_mem (s\<lparr>scr := put_str ''        mem_pool_init start\<newline>'' (scr s)\<rparr>) = Inr (s\<lparr>scr := x\<rparr>)"
    using show_memory_size_ok [of all_mem "s\<lparr>scr := put_str ''        mem_pool_init start\<newline>'' (scr s)\<rparr>"] by auto
  have pl: "kernel_pool (pool_layout all_mem (s\<lparr>scr := y\<rparr>)) = kernel_pool p"
    "user_pool (pool_layout all_mem (s\<lparr>scr := y\<rparr>)) = user_pool p" for y
    by (simp_all add: p_def pool_layout_def Let_def)
  obtain y where y: "pool_report (pool_layout all_mem (s\<lparr>scr := x\<rparr>)) = (pool_layout all_mem (s\<lparr>scr := x\<rparr>))\<lparr>scr := y\<rparr>"
    using pool_report_eq by metis
  define q where "q = (pool_layout all_mem (s\<lparr>scr := x\<rparr>))\<lparr>scr := y\<rparr>"
  have q: "kernel_pool q = kernel_pool p" "user_pool q = user_pool p" using pl by (simp_all add: q_def)
  let ?hb = "heap_bitmap kb ub"
  let ?m = "memset_loop (bits ?hb) 0 (btmp_bytes_len ?hb) (memset_loop (bits ub) 0 (btmp_bytes_len ub)
      (memset_loop (bits kb) 0 (btmp_bytes_len kb) (bytes q)))"
  have hb: "\<lparr>btmp_bytes_len = btmp_bytes_len kb, bits = MEM_BITMAP_BASE + btmp_bytes_len kb + btmp_bytes_len ub\<rparr> = ?hb"
    by (simp add: heap_bitmap_def)
  have bm: "pool_bitmap (kernel_pool q) = kb" "pool_bitmap (user_pool q) = ub" using q by (simp_all add: kb_def ub_def)
  obtain s' where s': "mem_pool_init all_mem s = Inr s'" "kernel_pool s' = kernel_pool q" "user_pool s' = user_pool q"
    "kernel_vaddr s' = \<lparr>vaddr_bitmap = ?hb, vaddr_start = K_HEAP_START\<rparr>" "bytes s' = ?m"
    "\<And>l. l \<in> {pool_lock (kernel_pool q), pool_lock (user_pool q)} \<Longrightarrow>
      sem_value s' (lock_sema l) = 1 \<and> lk_holder s' l = NULL \<and> lk_repeat s' l = 0"
  proof
    show "mem_pool_init all_mem s = Inr (projr (mem_pool_init all_mem s))"
      "kernel_pool (projr (mem_pool_init all_mem s)) = kernel_pool q" "user_pool (projr (mem_pool_init all_mem s)) = user_pool q"
      "kernel_vaddr (projr (mem_pool_init all_mem s)) = \<lparr>vaddr_bitmap = ?hb, vaddr_start = K_HEAP_START\<rparr>"
      "bytes (projr (mem_pool_init all_mem s)) = ?m"
      "\<And>l. l \<in> {pool_lock (kernel_pool q), pool_lock (user_pool q)} \<Longrightarrow>
        sem_value (projr (mem_pool_init all_mem s)) (lock_sema l) = 1 \<and>
        lk_holder (projr (mem_pool_init all_mem s)) l = NULL \<and> lk_repeat (projr (mem_pool_init all_mem s)) l = 0"
      using assms(4-6)
      by (auto simp: mem_pool_init_def Let_def x y q_def [symmetric] bm hb bitmap_clear_eq)
  qed
  have "bit_free b (bytes s') i" if "b \<in> {kb, ub, ?hb}" "i < bitmap_bits b" for b i
    using that(1) byte_in_bitmap [OF that(2)]
    by (intro bit_free_zero) (auto simp: s'(5) memset_loop_apply)
  with s' q show thesis by (intro that [of s']) simp_all
qed

section \<open>Properties\<close>

lemma base_plus: "x < 0x10000 \<Longrightarrow> unat (MEM_BITMAP_BASE + of_nat x) = 0xc009a000 + x"
proof -
  assume x: "x < 0x10000"
  have "MEM_BITMAP_BASE + of_nat x = (of_nat (0xc009a000 + x) :: u32)" by simp
  then show ?thesis using x by (simp only:) (rule unat_of_nat_less, simp)
qed

text \<open>The bitmaps and pools that \<open>mem_pool_init\<close> makes for \<open>F\<close> free pages.\<close>

lemma mem_pool_init_values:
  assumes big: "0x200000 \<le> unat all_mem"
  defines "F \<equiv> free_pages all_mem mod 2 ^ 16"
  defines "K \<equiv> F div 2 div 8" and "U \<equiv> (F - F div 2) div 8"
  obtains s' where "mem_pool_init all_mem s = Inr s'"
    and "phy_addr_start (kernel_pool s') = 0x200000" and "phy_addr_start (user_pool s') = of_nat (0x200000 + 4096 * (F div 2))"
    and "pool_bitmap (kernel_pool s') = \<lparr>btmp_bytes_len = of_nat K, bits = MEM_BITMAP_BASE + of_nat 0\<rparr>"
    and "pool_bitmap (user_pool s') = \<lparr>btmp_bytes_len = of_nat U, bits = MEM_BITMAP_BASE + of_nat K\<rparr>"
    and "kernel_vaddr s' = \<lparr>vaddr_bitmap = \<lparr>btmp_bytes_len = of_nat K, bits = MEM_BITMAP_BASE + of_nat (K + U)\<rparr>, vaddr_start = K_HEAP_START\<rparr>"
    and "\<forall>b \<in> {pool_bitmap (kernel_pool s'), pool_bitmap (user_pool s'), kvb s'}. \<forall>i < bitmap_bits b. bit_free b (bytes s') i"
    and "\<forall>l \<in> {pool_lock (kernel_pool s'), pool_lock (user_pool s')}.
      sem_value s' (lock_sema l) = 1 \<and> lk_holder s' l = NULL \<and> lk_repeat s' l = 0"
proof -
  have F: "F < 2 ^ 16" by (simp add: F_def)
  then have KU: "K < 0x10000" "K + U < 0x10000" by (simp_all add: K_def U_def)
  note lay = pool_layout_values [OF big, of s, folded F_def, folded K_def U_def]
  have nz: "bits (pool_bitmap (kernel_pool (pool_layout all_mem s))) \<noteq> NULL"
    "bits (pool_bitmap (user_pool (pool_layout all_mem s))) \<noteq> NULL"
    "bits (heap_bitmap (pool_bitmap (kernel_pool (pool_layout all_mem s))) (pool_bitmap (user_pool (pool_layout all_mem s)))) \<noteq> NULL"
    using base_plus [OF KU(1)] base_plus [OF KU(2)] by (auto simp: lay heap_bitmap_def add.assoc)
  show thesis
    by (rule mem_pool_init_result [OF nz], rule that) (auto simp: lay kvb_def heap_bitmap_def add.assoc)
qed

lemma apart_behind:
  assumes "x + n \<le> y \<or> y + n' \<le> x" and "x + n < 0x20000" and "y + n' < 0x20000"
  shows "bitmap_apart \<lparr>btmp_bytes_len = of_nat n, bits = MEM_BITMAP_BASE + of_nat x\<rparr>
    \<lparr>btmp_bytes_len = of_nat n', bits = MEM_BITMAP_BASE + of_nat y\<rparr>"
  by (rule bitmap_apart_seq [of _ MEM_BITMAP_BASE x _ y]) (use assms in \<open>auto simp: unat_of_nat\<close>)

lemma small_bitmap: "K < 0x10000 \<Longrightarrow> bitmap_bits \<lparr>btmp_bytes_len = of_nat K, bits = a\<rparr> = 8 * K"
  by (simp add: bitmap_bits_def unat_of_nat)

text \<open>The two pools lie above the 2 MB in use, one behind the other, and the three bitmaps one behind the other.\<close>

lemma layout_ok:
  assumes F: "F < 2 ^ 16" and mem: "0x200000 + 4096 * F \<le> unat (all_mem :: u32)"
    and K: "K = F div 2 div 8" and U: "U = (F - F div 2) div 8"
    and start: "phy_addr_start (kernel_pool s) = 0x200000" "phy_addr_start (user_pool s) = of_nat (0x200000 + 4096 * (F div 2))"
    and bm: "pool_bitmap (kernel_pool s) = \<lparr>btmp_bytes_len = of_nat K, bits = MEM_BITMAP_BASE + of_nat 0\<rparr>"
      "pool_bitmap (user_pool s) = \<lparr>btmp_bytes_len = of_nat U, bits = MEM_BITMAP_BASE + of_nat K\<rparr>"
      "kvb s = \<lparr>btmp_bytes_len = of_nat K, bits = MEM_BITMAP_BASE + of_nat (K + U)\<rparr>"
  shows "pool_pages (kernel_pool s) = 8 * K" and "pool_pages (user_pool s) = 8 * U"
    and "pool_ok (kernel_pool s)" and "pool_ok (user_pool s)"
    and "i < 8 * K \<Longrightarrow> 0x200000 \<le> unat (pool_page (kernel_pool s) i)"
    and "i < 8 * K \<Longrightarrow> j < 8 * U \<Longrightarrow> unat (pool_page (kernel_pool s) i) + 4096 \<le> unat (pool_page (user_pool s) j)"
    and "j < 8 * U \<Longrightarrow> 0x200000 \<le> unat (pool_page (user_pool s) j) \<and> unat (pool_page (user_pool s) j) + 4096 \<le> unat all_mem"
    and "bitmap_apart (pool_bitmap (kernel_pool s)) (pool_bitmap (user_pool s))"
    and "bitmap_apart (pool_bitmap (user_pool s)) (pool_bitmap (kernel_pool s))"
    and "pools_apart s (kvb s)" and "bitmap_apart (kvb s) (pool_bitmap (kernel_pool s))"
    and "bitmap_apart (kvb s) (pool_bitmap (user_pool s))"
proof -
  have KU: "K < 0x10000" "U < 0x10000" "K + U < 0x10000" using F by (simp_all add: K U)
  have fit: "8 * K \<le> F div 2" "8 * U \<le> F - F div 2" by (simp_all add: K U)
  have fit': "8 * U + F div 2 \<le> F" using fit(2) by linarith
  note lt = unsigned_less [of all_mem, where 'a = nat]
  show pages: "pool_pages (kernel_pool s) = 8 * K" "pool_pages (user_pool s) = 8 * U"
    using KU by (simp_all add: pool_pages_def bm small_bitmap)
  have us: "unat (phy_addr_start (user_pool s)) = 0x200000 + 4096 * (F div 2)"
    unfolding start using mem lt by (intro unat_of_nat_less) simp
  show ok: "pool_ok (kernel_pool s)" "pool_ok (user_pool s)"
    using mem fit lt KU us by (auto simp: pool_ok_def pages page_aligned_dvd start(1) bitmap_wf_def bm small_bitmap)
  have k: "unat (pool_page (kernel_pool s) i) = 4096 * i + 0x200000" if "i < 8 * K" for i
    using that unat_pool_page [OF ok(1), of i] by (simp add: start pages)
  have u: "unat (pool_page (user_pool s) j) = 4096 * j + (0x200000 + 4096 * (F div 2))" if "j < 8 * U" for j
    using that unat_pool_page [OF ok(2), of j] by (simp add: us pages)
  show "0x200000 \<le> unat (pool_page (kernel_pool s) i)" if "i < 8 * K" using k [OF that] by simp
  show "unat (pool_page (kernel_pool s) i) + 4096 \<le> unat (pool_page (user_pool s) j)" if "i < 8 * K" "j < 8 * U"
    using k [OF that(1)] u [OF that(2)] that fit(1) by simp
  show "0x200000 \<le> unat (pool_page (user_pool s) j) \<and> unat (pool_page (user_pool s) j) + 4096 \<le> unat all_mem" if "j < 8 * U"
    using u [OF that] that fit' mem by simp
  show "bitmap_apart (pool_bitmap (kernel_pool s)) (pool_bitmap (user_pool s))"
    "bitmap_apart (pool_bitmap (user_pool s)) (pool_bitmap (kernel_pool s))" "pools_apart s (kvb s)"
    "bitmap_apart (kvb s) (pool_bitmap (kernel_pool s))" "bitmap_apart (kvb s) (pool_bitmap (user_pool s))"
    using KU apart_behind [of 0 K K U] apart_behind [of K U 0 K] apart_behind [of 0 K "K + U" K] apart_behind [of K U "K + U" K]
      apart_behind [of "K + U" K 0 K] apart_behind [of "K + U" K K U]
    unfolding pools_apart_def bm by simp_all
qed

text \<open>C13. With at least 2 MB of memory and less than 256 MB behind that, \<open>mem_pool_init\<close> splits the free memory into
  two pools of whole pages that do not overlap, the kernel's below the user's, above the 2 MB in use and inside the
  memory; its three bitmaps are all clear and do not overlap, and the locks of the pools are free.\<close>

theorem mem_pool_init_layout:
  assumes "0x200000 \<le> unat all_mem" and "free_pages all_mem < 2 ^ 16"
  shows "\<exists>s'. mem_pool_init all_mem s = Inr s' \<and> pool_ok (kernel_pool s') \<and> pool_ok (user_pool s') \<and>
    (\<forall>i j. i < pool_pages (kernel_pool s') \<and> j < pool_pages (user_pool s') \<longrightarrow>
      0x200000 \<le> unat (pool_page (kernel_pool s') i) \<and>
      unat (pool_page (kernel_pool s') i) + 4096 \<le> unat (pool_page (user_pool s') j) \<and>
      unat (pool_page (user_pool s') j) + 4096 \<le> unat all_mem) \<and>
    (\<forall>b \<in> {pool_bitmap (kernel_pool s'), pool_bitmap (user_pool s'), kvb s'}. \<forall>i < bitmap_bits b. bit_free b (bytes s') i) \<and>
    bitmap_apart (pool_bitmap (kernel_pool s')) (pool_bitmap (user_pool s')) \<and>
    bitmap_apart (pool_bitmap (user_pool s')) (pool_bitmap (kernel_pool s')) \<and> pools_apart s' (kvb s') \<and>
    (\<forall>l \<in> {pool_lock (kernel_pool s'), pool_lock (user_pool s')}.
      sem_value s' (lock_sema l) = 1 \<and> lk_holder s' l = NULL \<and> lk_repeat s' l = 0)"
proof -
  define F K U where "F = free_pages all_mem" and "K = F div 2 div 8" and "U = (F - F div 2) div 8"
  have F: "F < 2 ^ 16" "F mod 2 ^ 16 = F" using assms(2) by (simp_all add: F_def)
  have mem: "0x200000 + 4096 * F \<le> unat all_mem" using assms(1) by (simp add: F_def free_pages_def)
  note mpi = mem_pool_init_values [OF assms(1), of s, folded F_def, unfolded F(2), folded K_def U_def]
  obtain s' where s': "mem_pool_init all_mem s = Inr s'"
    "phy_addr_start (kernel_pool s') = 0x200000" "phy_addr_start (user_pool s') = of_nat (0x200000 + 4096 * (F div 2))"
    "pool_bitmap (kernel_pool s') = \<lparr>btmp_bytes_len = of_nat K, bits = MEM_BITMAP_BASE + of_nat 0\<rparr>"
    "pool_bitmap (user_pool s') = \<lparr>btmp_bytes_len = of_nat U, bits = MEM_BITMAP_BASE + of_nat K\<rparr>"
    "kernel_vaddr s' = \<lparr>vaddr_bitmap = \<lparr>btmp_bytes_len = of_nat K, bits = MEM_BITMAP_BASE + of_nat (K + U)\<rparr>, vaddr_start = K_HEAP_START\<rparr>"
    "\<forall>b \<in> {pool_bitmap (kernel_pool s'), pool_bitmap (user_pool s'), kvb s'}. \<forall>i < bitmap_bits b. bit_free b (bytes s') i"
    "\<forall>l \<in> {pool_lock (kernel_pool s'), pool_lock (user_pool s')}.
      sem_value s' (lock_sema l) = 1 \<and> lk_holder s' l = NULL \<and> lk_repeat s' l = 0"
    by (rule mpi)
  have kv: "kvb s' = \<lparr>btmp_bytes_len = of_nat K, bits = MEM_BITMAP_BASE + of_nat (K + U)\<rparr>" by (simp add: kvb_def s'(6))
  note lay = layout_ok [OF F(1) mem K_def U_def s'(2-5) kv]
  show ?thesis
    using s'(1,7,8) lay by (intro exI [of _ s'] conjI) auto
qed

theorem mem_pool_init_layout_witness:
  "\<forall>s :: kstate. \<exists>s'. mem_pool_init 0x2000000 s = Inr s' \<and> pool_ok (kernel_pool s') \<and> pool_ok (user_pool s')"
proof
  fix s :: kstate
  have "0x200000 \<le> unat (0x2000000 :: u32)" "free_pages 0x2000000 < 2 ^ 16" by (simp_all add: free_pages_def)
  from mem_pool_init_layout [OF this, of s]
  show "\<exists>s'. mem_pool_init 0x2000000 s = Inr s' \<and> pool_ok (kernel_pool s') \<and> pool_ok (user_pool s')" by blast
qed

text \<open>The two pools never manage more than the number of free pages modulo \<open>2 ^ 16\<close>: with 256 MB or
  more of free memory the count wraps and memory is lost, all of it at 258 MB.\<close>

theorem mem_pool_init_wraps:
  assumes "0x200000 \<le> unat all_mem"
  shows "\<exists>s'. mem_pool_init all_mem s = Inr s' \<and>
    pool_pages (kernel_pool s') + pool_pages (user_pool s') \<le> free_pages all_mem mod 2 ^ 16"
proof -
  define F K U where "F = free_pages all_mem mod 2 ^ 16" and "K = F div 2 div 8" and "U = (F - F div 2) div 8"
  have "F < 2 ^ 16" by (simp add: F_def)
  then have KU: "K < 0x10000" "U < 0x10000" by (simp_all add: K_def U_def)
  have fit: "8 * K \<le> F div 2" "8 * U \<le> F - F div 2" by (simp_all add: K_def U_def)
  obtain s' where s': "mem_pool_init all_mem s = Inr s'"
    "pool_bitmap (kernel_pool s') = \<lparr>btmp_bytes_len = of_nat K, bits = MEM_BITMAP_BASE + of_nat 0\<rparr>"
    "pool_bitmap (user_pool s') = \<lparr>btmp_bytes_len = of_nat U, bits = MEM_BITMAP_BASE + of_nat K\<rparr>"
    using mem_pool_init_values [OF assms, of s, folded F_def, folded K_def U_def] by metis
  then have "pool_pages (kernel_pool s') = 8 * K" "pool_pages (user_pool s') = 8 * U"
    using KU by (simp_all add: pool_pages_def small_bitmap)
  with s'(1) fit show ?thesis by (intro exI [of _ s']) (auto simp: F_def)
qed

theorem mem_pool_init_wraps_witness:
  "\<forall>s :: kstate. \<exists>s'. mem_pool_init 0x10200000 s = Inr s' \<and>
     pool_pages (kernel_pool s') = 0 \<and> pool_pages (user_pool s') = 0"
proof
  fix s :: kstate
  have "0x200000 \<le> unat (0x10200000 :: u32)" "free_pages 0x10200000 mod 2 ^ 16 = 0" by (simp_all add: free_pages_def)
  with mem_pool_init_wraps [of "0x10200000" s]
  show "\<exists>s'. mem_pool_init 0x10200000 s = Inr s' \<and> pool_pages (kernel_pool s') = 0 \<and> pool_pages (user_pool s') = 0"
    by auto
qed

end
