(* ===== verification/MemoryProps.thy ===== *)
theory MemoryProps
  imports PoolInit
begin

text \<open>
  The properties of the page allocator, over the lemmas of \<open>PageMap\<close> and \<open>PoolInit\<close>, with a small concrete memory
  for the examples: a page directory at \<open>0x100000\<close>, one kernel page table at \<open>0x101000\<close>, and two pools of eight pages.
\<close>

section \<open>Zeroed kernel pages\<close>

lemma vzero_append: "vzero (m + n) va s = bindE (vzero m va s) (vzero n (va + 4 * of_nat m))"
proof (induction m arbitrary: va s)
  case (Suc m)
  show ?case by (cases "vstore32 va 0 s") (simp_all add: Suc algebra_simps)
qed simp

text \<open>Every word of the physical pages \<open>pas\<close> set to 0.\<close>

definition wipe :: "u32 list \<Rightarrow> (u32 \<Rightarrow> u32) \<Rightarrow> u32 \<Rightarrow> u32" where
  "wipe pas pm = fold (\<lambda>pa pm. zero_words pm pa 0 1024) pas pm"

lemma wipe_simps [simp]: "wipe [] pm = pm" "wipe (pa # pas) pm = wipe pas (zero_words pm pa 0 1024)"
  by (simp_all add: wipe_def)

lemma wipe_other: "\<forall>pa \<in> set pas. page_aligned pa \<Longrightarrow> frame a \<notin> set pas \<Longrightarrow> wipe pas pm a = pm a"
  by (induction pas arbitrary: pm) (simp_all add: zero_words_other)

lemma wipe_0: "pm a = 0 \<Longrightarrow> wipe pas pm a = 0"
  by (induction pas arbitrary: pm) (simp_all add: zero_words_def)

lemma wipe_at: "pa \<in> set pas \<Longrightarrow> i < 1024 \<Longrightarrow> wipe pas pm (pa + 4 * of_nat i) = 0"
  by (induction pas arbitrary: pm) (auto simp: zero_words_at intro: wipe_0)

text \<open>Pages that are not used by the page tables can be wiped without changing a translation.\<close>

definition unused_pages :: "'a kstate_scheme \<Rightarrow> u32 list \<Rightarrow> bool" where
  "unused_pages s pas \<longleftrightarrow> (\<forall>pa \<in> set pas. page_aligned pa \<and> (\<forall>x. table_at s x \<longrightarrow> table_frame s x \<noteq> pa))"

lemma wipe_keeps:
  assumes self: "self_mapped (pmem t) (cr3 t)" and un: "unused_pages t pas"
    and mem: "pmem u = wipe pas (pmem t)" "cr3 u = cr3 t"
  shows "pmem u (pde_pa (cr3 t) x) = pmem t (pde_pa (cr3 t) x)" and "mapped u x = mapped t x"
    and "frame (cr3 t) \<notin> set pas"
proof -
  have "table_at t (-1)" "table_frame t (-1) = frame (cr3 t)"
    using self by (simp_all add: self_mapped_def table_at_def table_frame_def pdi_window)
  then show dir: "frame (cr3 t) \<notin> set pas" using un unfolding unused_pages_def by metis
  have al: "\<forall>pa \<in> set pas. page_aligned pa" using un by (simp add: unused_pages_def)
  show pde: "pmem u (pde_pa (cr3 t) x) = pmem t (pde_pa (cr3 t) x)" for x
    using dir unfolding mem by (intro wipe_other [OF al]) simp
  have "translate (pmem u) (cr3 t) x = translate (pmem t) (cr3 t) x"
  proof (rule translate_cong)
    show "pmem u (pde_pa (cr3 t) x) = pmem t (pde_pa (cr3 t) x)" by (rule pde)
    assume "bit (pmem t (pde_pa (cr3 t) x)) 0"
    then have "frame (pte_pa (pmem t) (cr3 t) x) \<notin> set pas"
      using un by (auto simp: unused_pages_def table_at_def table_frame_def)
    then show "pmem u (pte_pa (pmem t) (cr3 t) x) = pmem t (pte_pa (pmem t) (cr3 t) x)"
      unfolding mem by (rule wipe_other [OF al])
  qed
  then show "mapped u x = mapped t x" using mem(2) by (simp add: mapped_def)
qed

lemma vzero_pages:
  assumes "self_mapped (pmem t) (cr3 t)" and "unused_pages t pas" and "page_aligned va"
    and "\<And>i. i < length pas \<Longrightarrow> mapped t (nth_page va i) = Some (pas ! i)"
  shows "vzero (1024 * length pas) va t = Inr (t\<lparr>pmem := wipe pas (pmem t)\<rparr>)"
  using assms
proof (induction pas arbitrary: va t)
  case (Cons pa pas)
  let ?t = "t\<lparr>pmem := wipe [pa] (pmem t)\<rparr>"
  have un: "unused_pages t [pa]" "unused_pages t pas" using Cons.prems(2) by (simp_all add: unused_pages_def)
  note keep = wipe_keeps [OF Cons.prems(1) un(1), of ?t, simplified]
  have map: "mapped t va = Some pa" using Cons.prems(4) [of 0] by simp
  then have "table_at t va" by (simp add: mapped_def translate_def table_at_def Let_def split: if_splits)
  then have "table_frame t va \<noteq> pa" using un(1) by (simp add: unused_pages_def)
  then have one: "vzero 1024 va t = Inr ?t"
    using vzero_page [OF Cons.prems(3), of t pa 0 1024] map keep(3) by (simp add: mapped_def table_frame_def)
  have "self_mapped (pmem ?t) (cr3 ?t)"
    using Cons.prems(1) keep(1) [of "-1"] by (simp add: self_mapped_def pdi_window)
  moreover have "unused_pages ?t pas"
    using un(2) keep(1) by (simp add: unused_pages_def table_at_def table_frame_def)
  moreover have "page_aligned (va + PG_SIZE)"
    using nth_page_aligned [OF Cons.prems(3), of 1] by (simp add: nth_page_def)
  moreover have "mapped ?t (nth_page (va + PG_SIZE) i) = Some (pas ! i)" if "i < length pas" for i
    using Cons.prems(4) [of "Suc i"] that keep(2) by (simp add: nth_page_Suc)
  ultimately have "vzero (1024 * length pas) (va + PG_SIZE) ?t = Inr (?t\<lparr>pmem := wipe pas (pmem ?t)\<rparr>)"
    by (rule Cons.IH)
  with one vzero_append [of 1024 "1024 * length pas" va t] show ?case by simp
qed simp

text \<open>The pages handed out to the kernel lie outside the three bitmaps.\<close>

definition heap_apart :: "'a kstate_scheme \<Rightarrow> bool" where
  "heap_apart s \<longleftrightarrow> (\<forall>b \<in> {pool_bitmap (kernel_pool s), pool_bitmap (user_pool s), kvb s}.
     \<forall>i < bitmap_bits b. \<forall>j < bitmap_bits (kvb s). \<not> bits b + of_nat (i div 8) - kpage s j < PG_SIZE)"

lemma page_of_run:
  assumes "a - kpage s r < of_nat n * PG_SIZE" and "n < 2 ^ 20"
  obtains i where "i < n" and "a - kpage s (r + i) < PG_SIZE"
proof -
  let ?d = "unat (a - kpage s r)"
  have n: "unat (of_nat n * PG_SIZE :: u32) = n * 4096"
    using assms(2) unat_of_nat_less [of "n * 4096", where 'a = 32] by simp
  have d: "?d < n * 4096" using assms(1) unfolding word_less_nat_alt n .
  have "a - kpage s (r + ?d div 4096) = of_nat ?d - of_nat (?d div 4096 * 4096)"
    by (simp add: kpage_def nth_page_def algebra_simps)
  also have "\<dots> = of_nat (?d - ?d div 4096 * 4096)" by (rule of_nat_diff [symmetric]) simp
  also have "\<dots> = of_nat (?d mod 4096)" by (simp only: minus_div_mult_eq_mod)
  finally have "a - kpage s (r + ?d div 4096) = of_nat (?d mod 4096)" .
  moreover have "unat (of_nat (?d mod 4096) :: u32) = ?d mod 4096" by (rule unat_of_nat_less) (simp add: less_trans [OF mod_less_divisor])
  ultimately have "a - kpage s (r + ?d div 4096) < PG_SIZE" by (simp add: word_less_nat_alt)
  moreover have "?d div 4096 < n" using d by (simp add: less_mult_imp_div_less)
  ultimately show thesis by (intro that)
qed

text \<open>The invariant of the allocator of kernel pages.\<close>

definition heap_ok :: "'a kstate_scheme \<Rightarrow> bool" where
  "heap_ok s \<longleftrightarrow> mm_inv s \<and> virt_ok s \<and> heap_apart s"

lemma get_kernel_pages_ok:
  assumes ok: "heap_ok s" and n: "0 < n" "n < 3840" and run: "kernel_run s n r" and mem: "2 * n \<le> kfree s"
  obtains t pas where "get_kernel_pages (of_nat n) s = Inr (kpage s r, t)" and "heap_ok t" and "same_setup s t"
    and "length pas = n" and "distinct pas" and "\<forall>a \<in> set pas. free_page (kernel_pool s) (bytes s) a \<and> \<not> avail t a"
    and "\<forall>i < n. mapped t (kpage s (r + i)) = Some (pas ! i)" and "unused_pages t pas"
    and "\<forall>a. a - kpage s r < of_nat n * PG_SIZE \<longrightarrow> bytes t a = 0"
    and "\<forall>a \<in> set pas. \<forall>i < 1024. pmem t (a + 4 * of_nat i) = 0"
    and "\<forall>x. upper x \<and> (\<forall>i < n. frame x \<noteq> kpage s (r + i)) \<longrightarrow> mapped t x = mapped s x"
    and "\<forall>j < bitmap_bits (kvb s). bit_free (kvb s) (bytes t) j \<longleftrightarrow> bit_free (kvb s) (bytes s) j \<and> j \<notin> {r..<r + n}"
    and "kfree s \<le> kfree t + 2 * n" and "ufree s \<le> ufree t + n"
proof -
  let ?va = "kpage s r" and ?bms = "{pool_bitmap (kernel_pool s), pool_bitmap (user_pool s), kvb s}"
  have inv: "mm_inv s" and vok: "virt_ok s" and ap: "heap_apart s" using ok by (simp_all add: heap_ok_def)
  have r: "r + n \<le> bitmap_bits (kvb s)" "r < bitmap_bits (kvb s)" using run n by (simp_all add: kernel_run_def)
  note va = kpage_props [OF vok r(2)]
  obtain u pas where u: "malloc_page PF_KERNEL (of_nat n) s = Inr (?va, u)" "mm_inv u" "virt_ok u" "same_setup s u"
    "length pas = n" "distinct pas" "\<forall>a \<in> set pas. free_page (kernel_pool s) (bytes s) a \<and> \<not> avail u a"
    "\<forall>i < n. mapped u (kpage s (r + i)) = Some (pas ! i)"
    "\<forall>x. upper x \<and> (\<forall>i < n. frame x \<noteq> kpage s (r + i)) \<longrightarrow> mapped u x = mapped s x"
    "\<forall>j < bitmap_bits (kvb s). bit_free (kvb s) (bytes u) j \<longleftrightarrow> bit_free (kvb s) (bytes s) j \<and> j \<notin> {r..<r + n}"
    "\<forall>a \<in> set pas. \<forall>x. table_at u x \<longrightarrow> table_frame u x \<noteq> a" "kfree s \<le> kfree u + 2 * n" "ufree s \<le> ufree u + n"
    by (rule malloc_kernel_ok [OF inv vok n run mem])
  have "page_aligned pa" if "pa \<in> set pas" for pa
    using u(7) that inv pool_page_props(1) by (auto simp: free_page_def mm_inv_def)
  then have un: "unused_pages u pas" using u(11) by (simp add: unused_pages_def)
  let ?m = "memset_loop ?va 0 (of_nat n * PG_SIZE) (bytes u)"
  let ?t = "u\<lparr>bytes := ?m, pmem := wipe pas (pmem u)\<rparr>"
  have self: "self_mapped (pmem u) (cr3 u)" using u(2) by (rule mm_inv_self)
  have sz: "unat (of_nat n * PG_SIZE :: u32) div 4 = 1024 * length pas"
    using n u(5) unat_of_nat_less [of "n * 4096", where 'a = 32] by simp
  have "vzero (1024 * length pas) ?va (u\<lparr>bytes := ?m\<rparr>) = Inr ?t"
    using vzero_pages [of "u\<lparr>bytes := ?m\<rparr>" pas ?va] self un va(2) u(5,8)
    by (simp add: unused_pages_def table_at_def table_frame_def mapped_def nth_page_kpage)
  then have go: "get_kernel_pages (of_nat n) s = Inr (?va, ?t)"
    using u(1) va(3) by (simp add: get_kernel_pages_def memset_pages_def memset_def sz)
  note keep = wipe_keeps [OF self un, of ?t, simplified]
  have tabs: "table_at ?t = table_at u" "table_frame ?t = table_frame u"
    using keep(1) by (simp_all add: table_at_def table_frame_def fun_eq_iff)
  have n20: "n < 2 ^ 20" using n by simp
  have "\<not> bits b + of_nat (i div 8) - ?va < of_nat n * PG_SIZE" if b: "b \<in> ?bms" "i < bitmap_bits b" for b i
  proof
    assume "bits b + of_nat (i div 8) - ?va < of_nat n * PG_SIZE"
    then obtain k where "k < n" "bits b + of_nat (i div 8) - kpage s (r + k) < PG_SIZE" using n20 by (rule page_of_run)
    with ap b r(1) show False by (auto simp: heap_apart_def)
  qed
  then have bits: "bit_free b (bytes ?t) i = bit_free b (bytes u) i" if "b \<in> ?bms" "i < bitmap_bits b" for b i
    using that by (simp add: bit_free_def memset_loop_apply)
  have pools: "free_page p (bytes ?t) = free_page p (bytes u)" "free_count p (bytes ?t) = free_count p (bytes u)"
    if "p = kernel_pool s \<or> p = user_pool s" for p
    using bits [of "pool_bitmap p"] that
    by (auto simp: free_page_def free_count_def pool_pages_def fun_eq_iff cong: conj_cong)
  have su: "same_setup u ?t" by (simp add: same_setup_def)
  have av: "avail ?t = avail u" using pools u(4) by (auto simp: avail_def same_setup_def fun_eq_iff)
  have inv': "mm_inv ?t" by (rule mm_inv_keep [OF u(2) su]) (simp_all add: av keep(1))
  have same: "kvb u = kvb s" "kpage u = kpage s" "kvb ?t = kvb u" "kpage ?t = kpage u" "pools_apart ?t = pools_apart u"
    using u(4) by (auto simp: same_setup_def kvb_def kpage_def pools_apart_def fun_eq_iff)
  have "virt_ok ?t" using u(3) bits [of "kvb s"] keep(2) same by (simp add: virt_ok_def)
  moreover have "heap_apart ?t" using ap u(4) same by (simp add: heap_apart_def same_setup_def)
  ultimately have ok': "heap_ok ?t" using inv' by (simp add: heap_ok_def)
  have st: "same_setup s ?t" using u(4) su by (rule same_setup_trans)
  have cnt: "kfree ?t = kfree u" "ufree ?t = ufree u" using pools u(4) by (simp_all add: same_setup_def)
  have f1: "\<forall>a \<in> set pas. free_page (kernel_pool s) (bytes s) a \<and> \<not> avail ?t a" using u(7) av by simp
  have f2: "\<forall>i < n. mapped ?t (kpage s (r + i)) = Some (pas ! i)" using u(8) keep(2) by simp
  have f3: "unused_pages ?t pas" using un by (simp add: unused_pages_def tabs)
  have f4: "\<forall>a. a - ?va < of_nat n * PG_SIZE \<longrightarrow> bytes ?t a = 0" by (simp add: memset_loop_apply)
  have f5: "\<forall>a \<in> set pas. \<forall>i < 1024. pmem ?t (a + 4 * of_nat i) = 0" by (simp add: wipe_at)
  have f6: "\<forall>x. upper x \<and> (\<forall>i < n. frame x \<noteq> kpage s (r + i)) \<longrightarrow> mapped ?t x = mapped s x" using u(9) keep(2) by simp
  have f7: "\<forall>j < bitmap_bits (kvb s). bit_free (kvb s) (bytes ?t) j \<longleftrightarrow> bit_free (kvb s) (bytes s) j \<and> j \<notin> {r..<r + n}"
    using u(10) bits [of "kvb s"] by simp
  have f8: "kfree s \<le> kfree ?t + 2 * n" "ufree s \<le> ufree ?t + n" using u(12,13) unfolding cnt .
  show thesis by (rule that [OF go ok' st u(5,6) f1 f2 f3 f4 f5 f6 f7 f8])
qed

text \<open>The first \<open>k\<close> pages of the kernel heap are in use and the others are free.\<close>

definition heap_used :: "'a kstate_scheme \<Rightarrow> nat \<Rightarrow> bool" where
  "heap_used s k \<longleftrightarrow> (\<forall>j < bitmap_bits (kvb s). bit_free (kvb s) (bytes s) j \<longleftrightarrow> k \<le> j)"

lemma heap_used_run:
  assumes "heap_used s k" and "k + n \<le> bitmap_bits (kvb s)" and "0 < n"
  shows "kernel_run s n k"
  unfolding kernel_run_def
proof (intro conjI first_fit_SomeI)
  show "run_free (bit_free (kvb s) (bytes s)) n k" using assms by (auto simp: heap_used_def run_free_def)
  show "\<not> run_free (bit_free (kvb s) (bytes s)) n j" if "j < k" for j
    using assms that by (auto simp: heap_used_def run_free_def intro!: bexI [of _ j])
qed (use assms in auto)

lemma get_kernel_pages_next:
  assumes ok: "heap_ok s" and n: "0 < n" "n < 3840" and used: "heap_used s k" "k + n \<le> bitmap_bits (kvb s)"
    and mem: "2 * n \<le> kfree s"
  obtains t pas where "get_kernel_pages (of_nat n) s = Inr (kpage s k, t)" and "heap_ok t" and "same_setup s t"
    and "heap_used t (k + n)" and "kfree s \<le> kfree t + 2 * n" and "ufree s \<le> ufree t + n"
    and "length pas = n" and "\<forall>i < n. mapped t (kpage s (k + i)) = Some (pas ! i)" and "unused_pages t pas"
    and "\<forall>a \<in> set pas. \<not> avail t a \<and> (\<forall>i < 1024. pmem t (a + 4 * of_nat i) = 0)"
    and "\<forall>a. a - kpage s k < of_nat n * PG_SIZE \<longrightarrow> bytes t a = 0"
    and "\<forall>x. upper x \<and> (\<forall>i < n. frame x \<noteq> kpage s (k + i)) \<longrightarrow> mapped t x = mapped s x"
proof -
  obtain t pas where t: "get_kernel_pages (of_nat n) s = Inr (kpage s k, t)" "heap_ok t" "same_setup s t"
    "length pas = n" "distinct pas" "\<forall>a \<in> set pas. free_page (kernel_pool s) (bytes s) a \<and> \<not> avail t a"
    "\<forall>i < n. mapped t (kpage s (k + i)) = Some (pas ! i)" "unused_pages t pas"
    "\<forall>a. a - kpage s k < of_nat n * PG_SIZE \<longrightarrow> bytes t a = 0"
    "\<forall>a \<in> set pas. \<forall>i < 1024. pmem t (a + 4 * of_nat i) = 0"
    "\<forall>x. upper x \<and> (\<forall>i < n. frame x \<noteq> kpage s (k + i)) \<longrightarrow> mapped t x = mapped s x"
    "\<forall>j < bitmap_bits (kvb s). bit_free (kvb s) (bytes t) j \<longleftrightarrow> bit_free (kvb s) (bytes s) j \<and> j \<notin> {k..<k + n}"
    "kfree s \<le> kfree t + 2 * n" "ufree s \<le> ufree t + n"
    by (rule get_kernel_pages_ok [OF ok n heap_used_run [OF used n(1)] mem])
  have "kvb t = kvb s" using t(3) by (simp add: same_setup_def kvb_def)
  then have used': "heap_used t (k + n)" using t(12) used(1) by (auto simp: heap_used_def)
  have "\<forall>a \<in> set pas. \<not> avail t a \<and> (\<forall>i < 1024. pmem t (a + 4 * of_nat i) = 0)" using t(6,10) by simp
  from that [OF t(1-3) used' t(13,14,4,7,8) this t(9,11)] show thesis .
qed

section \<open>A concrete memory\<close>

definition sample_pool :: "nat \<Rightarrow> u32 \<Rightarrow> pool" where
  "sample_pool k a = \<lparr>pool_bitmap = \<lparr>btmp_bytes_len = 1, bits = 0xc009a000 + of_nat k\<rparr>, phy_addr_start = a,
     pool_size = 0x8000, pool_lock = 0x5000\<rparr>"

definition sample_pmem :: "u32 \<Rightarrow> u32" where
  "sample_pmem = (\<lambda>_. 0)(pde_pa 0x100000 (-1) := 0x100007, pde_pa 0x100000 0xc0000000 := 0x101007)"

definition sample_mm :: "'a kstate_scheme \<Rightarrow> 'a kstate_scheme" where
  "sample_mm s = s\<lparr>cr3 := 0x100000, pmem := sample_pmem, bytes := \<lambda>_. 0, kernel_pool := sample_pool 0 0x200000,
     user_pool := sample_pool 1 0x300000,
     kernel_vaddr := \<lparr>vaddr_bitmap = \<lparr>btmp_bytes_len = 1, bits = 0xc009a000 + of_nat 2\<rparr>, vaddr_start = K_HEAP_START\<rparr>\<rparr>"

lemma sample_fields [simp]:
  "cr3 (sample_mm s) = 0x100000" "pmem (sample_mm s) = sample_pmem" "bytes (sample_mm s) = (\<lambda>_. 0)"
  "kernel_pool (sample_mm s) = sample_pool 0 0x200000" "user_pool (sample_mm s) = sample_pool 1 0x300000"
  "kernel_vaddr (sample_mm s) =
     \<lparr>vaddr_bitmap = \<lparr>btmp_bytes_len = 1, bits = 0xc009a000 + of_nat 2\<rparr>, vaddr_start = K_HEAP_START\<rparr>"
  by (simp_all add: sample_mm_def)

lemma pdi_768: "pdi 0xc0000000 = 768"
  by (simp add: pdi_def drop_bit_eq_div word_div_def)

lemma sample_pde:
  "sample_pmem (pde_pa 0x100000 x) = (if pdi x = 768 then 0x101007 else if pdi x = 1023 then 0x100007 else 0)"
  by (simp add: sample_pmem_def pde_pa_eq_iff pdi_window(1) pdi_768)

lemma sample_other: "frame a \<noteq> 0x100000 \<Longrightarrow> sample_pmem a = 0"
proof -
  have "frame (0x100000 :: u32) = 0x100000" by (simp add: frame_def)
  then show "frame a \<noteq> 0x100000 \<Longrightarrow> sample_pmem a = 0"
    using frame_pde_pa [of "0x100000"] by (auto simp: sample_pmem_def)
qed

lemma sample_tables:
  "table_at (sample_mm s) x \<longleftrightarrow> pdi x = 768 \<or> pdi x = 1023"
  "table_frame (sample_mm s) x = (if pdi x = 768 then 0x101000 else if pdi x = 1023 then 0x100000 else 0)"
  by (simp_all add: table_at_def table_frame_def sample_pde frame_def)

lemma sample_pool_fields [simp]:
  "pool_pages (sample_pool k a) = 8" "phy_addr_start (sample_pool k a) = a"
  "pool_bitmap (sample_pool k a) = \<lparr>btmp_bytes_len = 1, bits = 0xc009a000 + of_nat k\<rparr>"
  by (simp_all add: sample_pool_def pool_pages_def bitmap_bits_def)

lemma sample_pool_ok: "pool_ok (sample_pool k 0x200000)" "pool_ok (sample_pool k 0x300000)"
  by (simp_all add: pool_ok_def bitmap_wf_def bitmap_bits_def page_aligned_dvd)

lemma sample_page_range:
  assumes "i < 8"
  shows "unat (pool_page (sample_pool k 0x200000) i) \<in> {0x200000..<0x208000}"
    and "unat (pool_page (sample_pool k 0x300000) i) \<in> {0x300000..<0x308000}"
  using assms sample_pool_ok [of k] by (simp_all add: unat_pool_page)

lemma sample_avail:
  assumes "avail (sample_mm s) a"
  shows "0x200000 \<le> unat a"
proof -
  obtain i where i: "i < 8" "a = pool_page (sample_pool 0 0x200000) i \<or> a = pool_page (sample_pool 1 0x300000) i"
    using assms by (auto simp: avail_def free_page_def)
  from i(2) show ?thesis using sample_page_range(1) [OF i(1), of 0] sample_page_range(2) [OF i(1), of 1] by auto
qed

lemma sample_apart: "k \<noteq> l \<Longrightarrow> k < 8 \<Longrightarrow> l < 8 \<Longrightarrow>
  bitmap_apart \<lparr>btmp_bytes_len = 1, bits = 0xc009a000 + of_nat k\<rparr> \<lparr>btmp_bytes_len = 1, bits = 0xc009a000 + of_nat l\<rparr>"
  by (rule bitmap_apart_seq [of _ "0xc009a000" k _ l]) auto

lemma sample_mm_inv: "mm_inv (sample_mm s)"
  unfolding mm_inv_def
proof (intro conjI allI impI)
  show "self_mapped (pmem (sample_mm s)) (cr3 (sample_mm s))"
    using sample_pde [of "-1"] by (simp add: self_mapped_def pdi_window frame_def)
  show "pool_ok (kernel_pool (sample_mm s))" "pool_ok (user_pool (sample_mm s))" using sample_pool_ok by simp_all
  show "bitmap_apart (pool_bitmap (kernel_pool (sample_mm s))) (pool_bitmap (user_pool (sample_mm s)))"
    "bitmap_apart (pool_bitmap (user_pool (sample_mm s))) (pool_bitmap (kernel_pool (sample_mm s)))"
    using sample_apart [of 0 1] sample_apart [of 1 0] by simp_all
next
  fix i j
  assume "i < pool_pages (kernel_pool (sample_mm s))" "j < pool_pages (user_pool (sample_mm s))"
  then show "pool_page (kernel_pool (sample_mm s)) i \<noteq> pool_page (user_pool (sample_mm s)) j"
    using sample_page_range(1) [of i 0] sample_page_range(2) [of j 1] by auto
next
  fix x
  assume "table_at (sample_mm s) x"
  then have "unat (table_frame (sample_mm s) x) < 0x200000" by (auto simp: sample_tables)
  then show "\<not> avail (sample_mm s) (table_frame (sample_mm s) x)" using sample_avail by fastforce
qed (auto simp: sample_tables frame_def)

lemma sample_free [simp]: "free_count (sample_pool k a) (\<lambda>_. 0) = 8"
  by (simp add: free_count_def bit_free_def)

lemma sample_unmapped:
  assumes "pdi x \<noteq> 1023"
  shows "mapped (sample_mm s) x = None"
proof (cases "pdi x = 768")
  case False
  with assms show ?thesis by (simp add: mapped_def translate_def sample_pde)
next
  case True
  have "frame (pte_pa sample_pmem 0x100000 x) = 0x101000" using True by (simp only: frame_pte_pa sample_pde) (simp add: frame_def)
  then have "sample_pmem (pte_pa sample_pmem 0x100000 x) = 0" by (intro sample_other) simp
  then show ?thesis by (simp add: mapped_def translate_def)
qed

lemma sample_kpage: "i < 8 \<Longrightarrow> pdi (kpage (sample_mm s) i) = 768"
proof -
  assume i: "i < 8"
  have "kpage (sample_mm s) i = of_nat (0xc0100000 + i * 4096)" by (simp add: kpage_def nth_page_def)
  then have "unat (kpage (sample_mm s) i) = 0xc0100000 + i * 4096" using i by (simp only:) (rule unat_of_nat_less, simp)
  then have "unat (pdi (kpage (sample_mm s) i)) = (0xc0100000 + i * 4096) div 2 ^ 22"
    by (simp add: pdi_def drop_bit_eq_div unat_div)
  also have "\<dots> = 768" using i by (simp add: div_nat_eqI)
  finally show ?thesis by (simp add: word_unat_eq_iff)
qed

lemma sample_virt: "virt_ok (sample_mm s)" "kernel_run (sample_mm s) 1 0" "heap_apart (sample_mm s)"
proof -
  have kvb: "kvb (sample_mm s) = \<lparr>btmp_bytes_len = 1, bits = 0xc009a000 + of_nat 2\<rparr>" by (simp add: kvb_def)
  have bits: "bitmap_bits \<lparr>btmp_bytes_len = 1, bits = a\<rparr> = 8" for a by (simp add: bitmap_bits_def)
  show "virt_ok (sample_mm s)"
    using sample_apart [of 0 2] sample_apart [of 1 2] sample_apart [of 2 0] sample_apart [of 2 1] sample_kpage [of _ s] sample_unmapped [of _ s]
    by (simp add: virt_ok_def kvb bits pools_apart_def page_aligned_dvd upper_def)
  show "kernel_run (sample_mm s) 1 0"
    unfolding kernel_run_def kvb bits by (auto simp: bit_free_def run_free_def intro!: first_fit_SomeI)
  show "heap_apart (sample_mm s)"
    unfolding heap_apart_def kvb bits
  proof (intro ballI allI impI)
    fix b i j
    assume b: "b \<in> {pool_bitmap (kernel_pool (sample_mm s)), pool_bitmap (user_pool (sample_mm s)), \<lparr>btmp_bytes_len = 1, bits = 0xc009a000 + of_nat 2\<rparr>}"
      and i: "i < bitmap_bits b" and j: "j < (8 :: nat)"
    from b have "b = \<lparr>btmp_bytes_len = 1, bits = 0xc009a000 + of_nat 0\<rparr> \<or> b = \<lparr>btmp_bytes_len = 1, bits = 0xc009a000 + of_nat 1\<rparr> \<or>
        b = \<lparr>btmp_bytes_len = 1, bits = 0xc009a000 + of_nat 2\<rparr>" by simp
    moreover have "(0 :: nat) < 3" "(1 :: nat) < 3" "(2 :: nat) < 3" by simp_all
    ultimately obtain k where k: "k < 3" "b = \<lparr>btmp_bytes_len = 1, bits = 0xc009a000 + of_nat k\<rparr>" by metis
    then have i0: "i div 8 = 0" using i by (simp add: bits)
    have "bits b + of_nat (i div 8) - kpage (sample_mm s) j = of_nat (2 ^ 32 - 0x66000 + k - j * 4096)"
      using k j by (simp add: i0 kpage_def nth_page_def of_nat_diff)
    moreover have "unat (of_nat (2 ^ 32 - 0x66000 + k - j * 4096) :: u32) = 2 ^ 32 - 0x66000 + k - j * 4096"
      using k(1) j by (intro unat_of_nat_less) simp
    ultimately have "unat (bits b + of_nat (i div 8) - kpage (sample_mm s) j) = 2 ^ 32 - 0x66000 + k - j * 4096" by (simp only:)
    then show "\<not> bits b + of_nat (i div 8) - kpage (sample_mm s) j < PG_SIZE"
      using k(1) j by (simp add: word_less_nat_alt)
  qed
qed

section \<open>Properties\<close>

text \<open>C4. \<open>page_table_add\<close> fails its assertion on an address that is mapped already.  On an address that is not mapped it makes the processor
  translate the address to the physical page given, leaves the translation of every other page as it is, and keeps the invariant;
  it uses the page table of the address when there is one, and then takes no page; otherwise the new page table is a page that was free in the kernel
  pool and is free no longer, and the pool has exactly one page less.\<close>

theorem page_table_add_maps:
  assumes "mm_inv s" and "upper va" and "page_aligned pa"
  shows "(mapped s va \<noteq> None \<longrightarrow> page_table_add va pa s = Inl (Panic ''page_table_add'' ''!(*pte & 1)'')) \<and>
    (mapped s va = None \<and> (table_at s va \<or> kfree s \<noteq> 0) \<longrightarrow>
      (\<exists>t. page_table_add va pa s = Inr t \<and> mm_inv t \<and> mapped t va = Some (pa + pgoff va) \<and>
        (\<forall>x. upper x \<and> frame x \<noteq> frame va \<longrightarrow> mapped t x = mapped s x) \<and> table_at t va \<and>
        (if table_at s va then table_frame t va = table_frame s va \<and> bytes t = bytes s
         else free_page (kernel_pool s) (bytes s) (table_frame t va) \<and> \<not> avail t (table_frame t va) \<and> kfree t + 1 = kfree s)))"
proof (intro conjI impI)
  show "page_table_add va pa s = Inl (Panic ''page_table_add'' ''!(*pte & 1)'')" if "mapped s va \<noteq> None"
    using page_table_add_mapped [OF assms(1) that] .
  assume new: "mapped s va = None \<and> (table_at s va \<or> kfree s \<noteq> 0)"
  show "\<exists>t. page_table_add va pa s = Inr t \<and> mm_inv t \<and> mapped t va = Some (pa + pgoff va) \<and>
        (\<forall>x. upper x \<and> frame x \<noteq> frame va \<longrightarrow> mapped t x = mapped s x) \<and> table_at t va \<and>
        (if table_at s va then table_frame t va = table_frame s va \<and> bytes t = bytes s
         else free_page (kernel_pool s) (bytes s) (table_frame t va) \<and> \<not> avail t (table_frame t va) \<and> kfree t + 1 = kfree s)"
  proof (cases "table_at s va")
    case True
    then show ?thesis
      using store_pte_maps [OF assms(1,2) True assms(3)] page_table_add_table [OF assms(1,2) _ assms(3) True] new by auto
  next
    case False
    then have mem: "kfree s \<noteq> 0" using new by simp
    obtain t i where t: "page_table_add va pa s = Inr t" "mm_inv t" "mapped t va = Some (pa + pgoff va)"
      "\<And>x. upper x \<Longrightarrow> frame x \<noteq> frame va \<Longrightarrow> mapped t x = mapped s x" "kfree t = kfree s - 1" "table_at t va"
      "table_frame t va = pool_page (kernel_pool s) i" "i < pool_pages (kernel_pool s)" "bit_free (pool_bitmap (kernel_pool s)) (bytes s) i"
      using page_table_add_no_table [OF assms False mem] by metis
    have "\<not> avail t (table_frame t va)" using t(2,6) by (simp add: mm_inv_def)
    moreover have "free_page (kernel_pool s) (bytes s) (table_frame t va)" using t(7-9) by (auto simp: free_page_def)
    ultimately show ?thesis using t(1-6) False mem by (intro exI [of _ t]) auto
  qed
qed

theorem page_table_add_maps_witness:
  "\<forall>s :: kstate. \<exists>t. page_table_add 0x8048000 0x300000 (sample_mm s) = Inr t \<and> mapped t 0x8048000 = Some 0x300000 \<and>
     page_table_add 0x8048000 0x300000 t = Inl (Panic ''page_table_add'' ''!(*pte & 1)'')"
proof
  fix s :: kstate
  have p: "pdi 0x8048000 = 32" "pgoff 0x8048000 = 0"
    by (simp_all add: pdi_def pgoff_def drop_bit_eq_div word_div_def)
  then have up: "upper 0x8048000" and "mapped (sample_mm s) 0x8048000 = None" and al: "page_aligned 0x300000" and "kfree (sample_mm s) \<noteq> 0"
    using sample_unmapped [of "0x8048000" s] by (simp_all add: upper_def page_aligned_dvd)
  with page_table_add_maps [OF sample_mm_inv up al, of s] p
  obtain t where "page_table_add 0x8048000 0x300000 (sample_mm s) = Inr t" "mm_inv t" "mapped t 0x8048000 = Some 0x300000" by auto
  with page_table_add_maps [OF _ up al, of t]
  show "\<exists>t. page_table_add 0x8048000 0x300000 (sample_mm s) = Inr t \<and> mapped t 0x8048000 = Some 0x300000 \<and>
     page_table_add 0x8048000 0x300000 t = Inl (Panic ''page_table_add'' ''!(*pte & 1)'')" by auto
qed

text \<open>C5. \<open>malloc_page\<close> for the kernel: with a run of free virtual pages and enough free physical pages it returns the
  first fit, maps the consecutive virtual pages to different pages that were free in the kernel pool and are no longer
  free, marks exactly these virtual pages used, and changes no other translation.\<close>

theorem malloc_page_maps:
  assumes "mm_inv s" and "virt_ok s" and "0 < n" and "n < 3840" and "kernel_run s n r" and "2 * n \<le> kfree s"
  shows "\<exists>t pas. malloc_page PF_KERNEL (of_nat n) s = Inr (kpage s r, t) \<and> mm_inv t \<and> virt_ok t \<and>
    length pas = n \<and> distinct pas \<and> (\<forall>a \<in> set pas. free_page (kernel_pool s) (bytes s) a \<and> \<not> avail t a) \<and>
    (\<forall>i < n. mapped t (kpage s (r + i)) = Some (pas ! i)) \<and>
    (\<forall>x. upper x \<and> (\<forall>i < n. frame x \<noteq> kpage s (r + i)) \<longrightarrow> mapped t x = mapped s x) \<and>
    (\<forall>j < bitmap_bits (kvb s). bit_free (kvb s) (bytes t) j \<longleftrightarrow> bit_free (kvb s) (bytes s) j \<and> j \<notin> {r..<r + n})"
  by (rule malloc_kernel_ok [OF assms]) blast

theorem malloc_page_maps_witness:
  "\<forall>s :: kstate. \<exists>t a. malloc_page PF_KERNEL 1 (sample_mm s) = Inr (0xc0100000, t) \<and> mapped t 0xc0100000 = Some a \<and>
     free_page (sample_pool 0 0x200000) (\<lambda>_. 0) a"
proof
  fix s :: kstate
  have k: "kpage (sample_mm s) 0 = 0xc0100000" by (simp add: kpage_def)
  obtain t pas where "malloc_page PF_KERNEL (of_nat 1) (sample_mm s) = Inr (kpage (sample_mm s) 0, t)" "length pas = 1"
    "\<forall>a \<in> set pas. free_page (sample_pool 0 0x200000) (\<lambda>_. 0) a" "mapped t (kpage (sample_mm s) 0) = Some (pas ! 0)"
    using malloc_page_maps [OF sample_mm_inv sample_virt(1) _ _ sample_virt(2), of s] by auto
  then show "\<exists>t a. malloc_page PF_KERNEL 1 (sample_mm s) = Inr (0xc0100000, t) \<and> mapped t 0xc0100000 = Some a \<and>
     free_page (sample_pool 0 0x200000) (\<lambda>_. 0) a"
    by (auto simp: k)
qed

text \<open>C6. \<open>get_kernel_pages(n)\<close> returns the first kernel address with \<open>n\<close> free pages from it on; they are mapped to \<open>n\<close>
  different pages that were free; every byte and every word of them reads 0; no other translation changes and the
  invariant is kept.\<close>

theorem get_kernel_pages_zeroed:
  assumes "heap_ok s" and "0 < n" and "n < 3840" and "kernel_run s n r" and "2 * n \<le> kfree s"
  shows "\<exists>t pas. get_kernel_pages (of_nat n) s = Inr (kpage s r, t) \<and> heap_ok t \<and>
    length pas = n \<and> distinct pas \<and> (\<forall>a \<in> set pas. free_page (kernel_pool s) (bytes s) a) \<and>
    (\<forall>i < n. mapped t (kpage s (r + i)) = Some (pas ! i)) \<and>
    (\<forall>a \<in> set pas. \<forall>i < 1024. pmem t (a + 4 * of_nat i) = 0) \<and>
    (\<forall>a. a - kpage s r < of_nat n * PG_SIZE \<longrightarrow> bytes t a = 0) \<and>
    (\<forall>x. upper x \<and> (\<forall>i < n. frame x \<noteq> kpage s (r + i)) \<longrightarrow> mapped t x = mapped s x)"
  by (rule get_kernel_pages_ok [OF assms]) blast

theorem get_kernel_pages_zeroed_witness:
  "\<forall>s :: kstate. \<exists>t pa. get_kernel_pages 1 (sample_mm s) = Inr (0xc0100000, t) \<and> mapped t 0xc0100000 = Some pa \<and>
    pmem t pa = 0 \<and> bytes t 0xc0100fff = 0"
proof
  fix s :: kstate
  have k: "kpage (sample_mm s) 0 = 0xc0100000" by (simp add: kpage_def)
  have ok: "heap_ok (sample_mm s)" using sample_mm_inv [of s] sample_virt(1,3) [of s] by (simp add: heap_ok_def)
  obtain t pas where t: "get_kernel_pages (of_nat 1) (sample_mm s) = Inr (0xc0100000, t)" "length pas = 1"
    "\<forall>i < 1. mapped t (kpage (sample_mm s) (0 + i)) = Some (pas ! i)"
    "\<forall>a \<in> set pas. \<forall>i < 1024. pmem t (a + 4 * of_nat i) = 0" "\<forall>a. a - 0xc0100000 < of_nat 1 * PG_SIZE \<longrightarrow> bytes t a = 0"
    using get_kernel_pages_zeroed [OF ok _ _ sample_virt(2)] unfolding k by auto
  have "pas ! 0 \<in> set pas" using t(2) by simp
  from t(4) [rule_format, OF this, of 0] have "pmem t (pas ! 0) = 0" by simp
  with t(1,3) t(5) [rule_format, of "0xc0100fff"] k
  show "\<exists>t pa. get_kernel_pages 1 (sample_mm s) = Inr (0xc0100000, t) \<and> mapped t 0xc0100000 = Some pa \<and>
    pmem t pa = 0 \<and> bytes t 0xc0100fff = 0"
    by auto
qed

text \<open>\<open>palloc\<close> hands out a page of its pool that was free, never NULL, and marks it used, so the pool has one page
  less; with no free page left it does not return NULL but fails the assertion of \<open>bitmap_scan\<close>.\<close>

theorem palloc_takes_free_page:
  assumes "pool_ok p"
  shows "if free_count p (bytes s) = 0
    then palloc p s = Inl (Panic ''bitmap_scan'' ''idx_byte < btmp->btmp_bytes_len'')
    else \<exists>a t. palloc p s = Inr (a, t) \<and> a \<noteq> NULL \<and> page_aligned a \<and> free_page p (bytes s) a \<and>
      free_page p (bytes t) = (\<lambda>x. free_page p (bytes s) x \<and> x \<noteq> a) \<and>
      free_count p (bytes t) = free_count p (bytes s) - 1"
proof (cases "free_count p (bytes s) = 0")
  case True
  then show ?thesis by (simp add: palloc_full)
next
  case False
  obtain i where i: "i < pool_pages p" "bit_free (pool_bitmap p) (bytes s) i"
    "palloc p s = Inr (pool_page p i, s\<lparr>bytes := mark_bit (pool_bitmap p) i (bytes s)\<rparr>)"
    by (rule palloc_fresh [OF assms False])
  then have "free_page p (bytes s) (pool_page p i)" by (auto simp: free_page_def)
  with False i(3) pool_page_props(1,2) [OF assms i(1)] free_page_mark [OF assms i(1)] free_count_mark [OF assms i(1,2)]
  show ?thesis by (auto simp: fun_eq_iff)
qed

theorem palloc_takes_free_page_witness:
  "\<forall>s :: kstate. \<exists>a t. palloc (sample_pool 0 0x200000) (sample_mm s) = Inr (a, t) \<and> free_count (sample_pool 0 0x200000) (bytes t) = 7"
proof
  fix s :: kstate
  show "\<exists>a t. palloc (sample_pool 0 0x200000) (sample_mm s) = Inr (a, t) \<and> free_count (sample_pool 0 0x200000) (bytes t) = 7"
    using palloc_takes_free_page [OF sample_pool_ok(1), of 0 "sample_mm s"] by auto
qed

end
