(* ===== verification/MemFrame.thy ===== *)
theory MemFrame
  imports MemoryProps
begin

text \<open>
  What the page allocator leaves alone: \<open>mem_step s t\<close> says that \<open>t\<close> differs from \<open>s\<close> at most in byte
  memory, in the words of physical memory and on the screen.  Every operation of \<open>Memory\<close> that
  allocates is such a step, so threads, lists and locks are not touched by it.
\<close>

definition mem_step :: "'a kstate_scheme \<Rightarrow> 'a kstate_scheme \<Rightarrow> bool" where
  "mem_step s t \<longleftrightarrow>
     eflags t = eflags s \<and> outp t = outp s \<and> idt t = idt s \<and> intr_name t = intr_name s \<and> idt_table t = idt_table s \<and>
     intr_entry_table t = intr_entry_table s \<and> after_entries t = after_entries s \<and> idtr t = idtr s \<and> lprev t = lprev s \<and> lnext t = lnext s \<and>
     cr3 t = cr3 s \<and> esp t = esp s \<and> tasks t = tasks s \<and> tstacks t = tstacks s \<and> istacks t = istacks s \<and>
     sem_value t = sem_value s \<and> lk_holder t = lk_holder s \<and> lk_repeat t = lk_repeat s \<and>
     kernel_pool t = kernel_pool s \<and> user_pool t = user_pool s \<and> kernel_vaddr t = kernel_vaddr s \<and>
     main_thread t = main_thread s \<and> thread_ready_list t = thread_ready_list s \<and> thread_all_list t = thread_all_list s \<and>
     thread_tag t = thread_tag s \<and> pid_lock t = pid_lock s \<and> next_pid t = next_pid s \<and> kstate.more t = kstate.more s"

lemma mem_step_refl [simp]: "mem_step s s"
  by (simp add: mem_step_def)

lemma mem_step_trans: "mem_step s t \<Longrightarrow> mem_step t u \<Longrightarrow> mem_step s u"
  unfolding mem_step_def by (elim conjE) (intro conjI; simp)

lemma mem_step_upd:
  "mem_step (s\<lparr>scr := a\<rparr>) t \<longleftrightarrow> mem_step s t" "mem_step (s\<lparr>bytes := b\<rparr>) t \<longleftrightarrow> mem_step s t"
  "mem_step (s\<lparr>pmem := c\<rparr>) t \<longleftrightarrow> mem_step s t"
  by (simp_all add: mem_step_def)

lemma mem_step_step [simp]:
  "mem_step s (t\<lparr>scr := a\<rparr>) \<longleftrightarrow> mem_step s t" "mem_step s (t\<lparr>bytes := b\<rparr>) \<longleftrightarrow> mem_step s t"
  "mem_step s (t\<lparr>pmem := c\<rparr>) \<longleftrightarrow> mem_step s t"
  by (simp_all add: mem_step_def)

lemma mem_step_fields:
  assumes "mem_step s t"
  shows "eflags t = eflags s" "lprev t = lprev s" "lnext t = lnext s" "tasks t = tasks s" "esp t = esp s"
    "tstacks t = tstacks s" "sem_value t = sem_value s" "lk_holder t = lk_holder s" "lk_repeat t = lk_repeat s"
    "main_thread t = main_thread s" "thread_ready_list t = thread_ready_list s" "thread_all_list t = thread_all_list s"
    "pid_lock t = pid_lock s" "next_pid t = next_pid s" "running_thread t = running_thread s" "cr3 t = cr3 s"
    "kernel_pool t = kernel_pool s" "user_pool t = user_pool s" "kernel_vaddr t = kernel_vaddr s"
    "istacks t = istacks s" "kstate.more t = kstate.more s" "intr_get_status t = intr_get_status s"
    "idt_table t = idt_table s" "outp t = outp s" "list_at t l xs = list_at s l xs"
  using assms by (simp_all add: mem_step_def running_thread_def intr_get_status_def list_at_def)

section \<open>The operations of the allocator\<close>

lemma mem_step_vstore: "vstore32 va v s = Inr t \<Longrightarrow> mem_step s t"
  by (auto simp: vstore32_def split: option.splits)

lemma mem_step_vzero: "vzero n va s = Inr t \<Longrightarrow> mem_step s t"
  by (induction n va s rule: vzero.induct) (auto intro: mem_step_trans mem_step_vstore)

lemma mem_step_palloc: "palloc p s = Inr (a, t) \<Longrightarrow> mem_step s t"
  by (auto simp: palloc_def split: if_splits)

lemma mem_step_vaddr_get:
  assumes "vaddr_get pf n s = Inr (a, t)"
  shows "mem_step s t"
proof (cases pf)
  case PF_KERNEL
  with assms have "t = s \<or> (\<exists>m. t = s\<lparr>bytes := m\<rparr>)"
    unfolding vaddr_get_def Let_def by (auto split: if_splits)
  then show ?thesis by auto
next
  case PF_USER
  with assms have "t = s \<or> (\<exists>m. t = s\<lparr>bytes := m\<rparr>)"
    unfolding vaddr_get_def Let_def by (auto split: if_splits)
  then show ?thesis by auto
qed

lemma mem_step_table_new:
  assumes "page_table_new va s = Inr t"
  shows "mem_step s t"
proof -
  obtain a u v where "palloc (kernel_pool s) s = Inr (a, u)"
    "vstore32 (pde_ptr va) (a OR PG_US_U OR PG_RW_W OR PG_P_1) (kput_str ''\<newline>'' (kput_int a u)) = Inr v"
    "\<exists>e. vzero 1024 (pte_ptr va AND 0xfffff000) (kput_str ''\<newline>'' (kput_int e v)) = Inr t"
    using assms by (auto simp: page_table_new_def Let_def)
  then show ?thesis
    by (auto dest!: mem_step_palloc mem_step_vstore mem_step_vzero simp: mem_step_upd) (meson mem_step_trans)
qed

lemma mem_step_table_add: "page_table_add va pa s = Inr t \<Longrightarrow> mem_step s t"
  by (auto simp: page_table_add_def Let_def split: if_splits
      dest!: mem_step_table_new mem_step_vstore intro: mem_step_trans)

lemma mem_step_malloc_loop: "malloc_loop pf n va s = Inr (ok, t) \<Longrightarrow> mem_step s t"
proof (induction n arbitrary: va s)
  case (Suc n)
  then show ?case
    by (auto simp: Let_def split: if_splits dest!: mem_step_palloc mem_step_table_add intro: mem_step_trans)
qed simp

lemma mem_step_malloc: "malloc_page pf n s = Inr (a, t) \<Longrightarrow> mem_step s t"
  by (auto simp: malloc_page_def split: if_splits dest!: mem_step_vaddr_get mem_step_malloc_loop intro: mem_step_trans)

lemma mem_step_memset: "memset_pages va n s = Inr t \<Longrightarrow> mem_step s t"
  by (auto simp: memset_pages_def dest!: mem_step_vzero simp: mem_step_upd)

lemma mem_step_get_kernel_pages: "get_kernel_pages n s = Inr (a, t) \<Longrightarrow> mem_step s t"
  by (auto simp: get_kernel_pages_def split: if_splits dest!: mem_step_malloc mem_step_memset intro: mem_step_trans)

end
