(* ===== verification/Thread.thy ===== *)
theory Thread
  imports MemFrame
begin

text \<open>
  The creation of threads: \<open>kernel_thread\<close>, \<open>thread_create\<close>, \<open>allocate_pid\<close>, \<open>init_thread\<close>, \<open>thread_start\<close>,
  \<open>make_main_thread\<close> and \<open>thread_init\<close> of \<open>src/thread/thread.c\<close>.  The addresses of functions, which the
  linker chose, are arguments.  \<open>allocate_pid\<close> takes a lock and can be switched out, so it and the
  functions that call it are runs.

  \<open>self_kstack\<close> is a \<open>uint32_t *\<close>: subtracting the size of a structure from it moves it by four times as
  many bytes.
\<close>

section \<open>Model\<close>

abbreviation (input) sizeof_intr_stack :: u32 where "sizeof_intr_stack \<equiv> 76"
abbreviation (input) sizeof_thread_stack :: u32 where "sizeof_thread_stack \<equiv> 32"

text \<open>\<open>kernel_thread\<close> calls \<open>function\<close> on \<open>func_arg\<close>; the call is the run \<open>body\<close>.\<close>

definition kernel_thread :: "('a kstate_scheme \<Rightarrow> ('a kstate_scheme, 'r) run) \<Rightarrow> 'a kstate_scheme \<Rightarrow> ('a kstate_scheme, 'r) run" where
  "kernel_thread body s = body (sti s)"

definition thread_create :: "u32 \<Rightarrow> addr \<Rightarrow> u32 \<Rightarrow> u32 \<Rightarrow> 'a kstate_scheme \<Rightarrow> 'a kstate_scheme" where
  "thread_create kt_addr pthread function func_arg s =
     (let s = upd_task pthread (\<lambda>t. t\<lparr>self_kstack := self_kstack t - 4 * sizeof_intr_stack\<rparr>) s;
          s = upd_task pthread (\<lambda>t. t\<lparr>self_kstack := self_kstack t - 4 * sizeof_thread_stack\<rparr>) s;
          kthread_stack = self_kstack (tasks s pthread)
      in s\<lparr>tstacks := (tstacks s)(kthread_stack := (tstacks s kthread_stack)
            \<lparr>ts_eip := kt_addr, ts_function := function, ts_func_arg := func_arg,
             ts_ebp := 0, ts_ebx := 0, ts_esi := 0, ts_edi := 0\<rparr>)\<rparr>)"

definition allocate_pid :: "'a kstate_scheme \<Rightarrow> ('a kstate_scheme, u16) run" where
  "allocate_pid s =
     bindR (lock_acquire (pid_lock s) s) (\<lambda>_ s.
     let pid = next_pid s + 1; s = s\<lparr>next_pid := pid\<rparr> in
     bindR (stepR (lock_release (pid_lock s) s)) (\<lambda>_ s. Return pid s))"

text \<open>A \<open>task_struct\<close> of zero bytes; its two list elements are in the heap of list elements.\<close>

definition zero_task :: task_struct where
  "zero_task = \<lparr>self_kstack = 0, pid = 0, status = TASK_RUNNING, priority = 0, name = replicate 16 0, ticks = 0,
     elapsed_ticks = 0, pgdir = 0, userprog_vaddr = \<lparr>vaddr_bitmap = \<lparr>btmp_bytes_len = 0, bits = 0\<rparr>, vaddr_start = 0\<rparr>,
     stack_magic = 0\<rparr>"

definition memset_task :: "addr \<Rightarrow> 'a kstate_scheme \<Rightarrow> 'a kstate_scheme res" where
  "memset_task pthread s =
     ASSERT (pthread \<noteq> NULL) ''memset'' ''dst''
      (let s = s\<lparr>lprev := (lprev s)(general_tag pthread := 0, all_list_tag pthread := 0)\<rparr>;
           s = s\<lparr>lnext := (lnext s)(general_tag pthread := 0, all_list_tag pthread := 0)\<rparr>
       in Inr (upd_task pthread (\<lambda>_. zero_task) s))"

text \<open>\<open>strcpy(pthread->name, name)\<close>: the characters, without the NUL.  A name that does not fit is written
  over the members behind the array.\<close>

definition strcpy_name :: "u8 list \<Rightarrow> string \<Rightarrow> u8 list res" where
  "strcpy_name dst src =
     (if length src \<le> length dst then Inr (map of_char src @ drop (length src) dst)
      else Inl (OutOfBounds (length dst)))"

definition init_thread :: "addr \<Rightarrow> string \<Rightarrow> u32 \<Rightarrow> 'a kstate_scheme \<Rightarrow> ('a kstate_scheme, unit) run" where
  "init_thread pthread nm prio s =
     bindR (stepR (memset_task pthread s)) (\<lambda>_ s.
     bindR (allocate_pid s) (\<lambda>new_pid s.
     let s = upd_task pthread (\<lambda>t. t\<lparr>pid := new_pid\<rparr>) s in
     bindR (stepR (bindE (strcpy_name (name (tasks s pthread)) nm) (\<lambda>n.
       Inr (upd_task pthread (\<lambda>t. t\<lparr>name := n\<rparr>) s)))) (\<lambda>_ s.
     let s = upd_task pthread (\<lambda>t. t\<lparr>status := (if pthread = main_thread s then TASK_RUNNING else TASK_READY)\<rparr>) s;
         s = upd_task pthread (\<lambda>t. t\<lparr>ticks := ucast prio\<rparr>) s;
         s = upd_task pthread (\<lambda>t. t\<lparr>priority := ticks t\<rparr>) s;
         s = upd_task pthread (\<lambda>t. t\<lparr>elapsed_ticks := 0\<rparr>) s;
         s = upd_task pthread (\<lambda>t. t\<lparr>pgdir := NULL\<rparr>) s;
         s = upd_task pthread (\<lambda>t. t\<lparr>self_kstack := pthread + PG_SIZE\<rparr>) s
     in Return () (upd_task pthread (\<lambda>t. t\<lparr>stack_magic := 0x19851122\<rparr>) s))))"

text \<open>The thread enters the list of ready threads and the list of all threads; \<open>fn\<close> is the function that
  contains the two assertions.\<close>

definition enter_ready :: "string \<Rightarrow> addr \<Rightarrow> 'a kstate_scheme \<Rightarrow> 'a kstate_scheme res" where
  "enter_ready fn thread s =
     bindE (of_loop (elem_find (thread_ready_list s) (general_tag thread) s)) (\<lambda>found.
     ASSERT (\<not> found) fn ''!elem_find(&thread_ready_list, &thread->general_tag)''
      (Inr (list_append (thread_ready_list s) (general_tag thread) s)))"

definition enter_all :: "string \<Rightarrow> string \<Rightarrow> addr \<Rightarrow> 'a kstate_scheme \<Rightarrow> 'a kstate_scheme res" where
  "enter_all fn txt thread s =
     bindE (of_loop (elem_find (thread_all_list s) (all_list_tag thread) s)) (\<lambda>found.
     ASSERT (\<not> found) fn txt (Inr (list_append (thread_all_list s) (all_list_tag thread) s)))"

definition thread_start :: "u32 \<Rightarrow> string \<Rightarrow> u32 \<Rightarrow> u32 \<Rightarrow> u32 \<Rightarrow> 'a kstate_scheme \<Rightarrow> ('a kstate_scheme, addr) run" where
  "thread_start kt_addr nm prio function func_arg s =
     bindR (liftR (get_kernel_pages 1 s)) (\<lambda>thread s.
     bindR (init_thread thread nm prio s) (\<lambda>_ s.
     let s = thread_create kt_addr thread function func_arg s in
     bindR (stepR (enter_ready ''thread_start'' thread s)) (\<lambda>_ s.
     bindR (stepR (enter_all ''thread_start'' ''!elem_find(&thread_all_list, &thread->all_list_tag)'' thread s)) (\<lambda>_ s.
     Return thread s))))"

definition make_main_thread :: "'a kstate_scheme \<Rightarrow> ('a kstate_scheme, unit) run" where
  "make_main_thread s =
     (let s = s\<lparr>main_thread := running_thread s\<rparr> in
      bindR (init_thread (main_thread s) ''main'' 31 s) (\<lambda>_ s.
      stepR (enter_all ''make_main_thread'' ''!elem_find(&thread_all_list, &main_thread->all_list_tag)'' (main_thread s) s)))"

definition thread_init :: "'a kstate_scheme \<Rightarrow> ('a kstate_scheme, unit) run" where
  "thread_init s =
     (let s = kput_str ''thread_init start\<newline>'' s;
          s = list_init (thread_ready_list s) s;
          s = list_init (thread_all_list s) s;
          s = lock_init (pid_lock s) s
      in bindR (make_main_thread s) (\<lambda>_ s. Return () (kput_str ''thread_init end\<newline>'' s)))"

section \<open>Locks that the running thread can take\<close>

text \<open>The lock is free, or was last held by the running thread: taking it does not block.\<close>

definition lock_avail :: "'a kstate_scheme \<Rightarrow> addr \<Rightarrow> bool" where
  "lock_avail s plock \<longleftrightarrow>
     lk_repeat s plock = 0 \<and> (lk_holder s plock = running_thread s \<or> sem_value s (lock_sema plock) = 1)"

text \<open>The lock taken by the running thread; and what is left after its release.\<close>

definition lock_held :: "addr \<Rightarrow> u32 \<Rightarrow> 'a kstate_scheme \<Rightarrow> 'a kstate_scheme" where
  "lock_held plock n s =
     s\<lparr>sem_value := (if lk_holder s plock = running_thread s then sem_value s else (sem_value s)(lock_sema plock := 0)),
       lk_holder := (lk_holder s)(plock := running_thread s), lk_repeat := (lk_repeat s)(plock := n)\<rparr>"

lemma lock_acquire_avail: "lock_avail s plock \<Longrightarrow> lock_acquire plock s = Return () (lock_held plock 1 s)"
proof (cases "lk_holder s plock = running_thread s")
  case True
  then show "lock_avail s plock \<Longrightarrow> ?thesis"
    by (simp add: lock_avail_def lock_acquire_def lock_held_def fun_upd_idem)
next
  case False
  then show "lock_avail s plock \<Longrightarrow> ?thesis"
    by (simp add: lock_avail_def lock_acquire_free lock_held_def)
qed

lemma lock_held_fields [simp]:
  "lk_holder (lock_held plock n s) plock = running_thread s" "lk_repeat (lock_held plock n s) plock = n"
  "running_thread (lock_held plock n s) = running_thread s" "pid_lock (lock_held plock n s) = pid_lock s"
  "tasks (lock_held plock n s) = tasks s" "next_pid (lock_held plock n s) = next_pid s"
  "scr (lock_held plock n s) = scr s"
  by (simp_all add: lock_held_def running_thread_def)

lemma lock_avail_again: "lock_avail (lock_held plock 0 s) plock"
  by (simp add: lock_avail_def)

lemma lock_avail_held_other: "l' \<noteq> l \<Longrightarrow> lock_avail (lock_held l n s) l' = lock_avail s l'"
  by (simp add: lock_avail_def lock_sema_def) (simp add: lock_held_def lock_sema_def)

lemma lock_held_release: "n \<noteq> 0 \<Longrightarrow> lock_release plock (lock_held plock n s) = Inr (lock_held plock (n - 1) s)"
  by (simp add: lock_release_cases) (simp add: lock_held_def)

section \<open>Creating a thread\<close>

lemma allocate_pid_ok:
  assumes "lock_avail s (pid_lock s)"
  shows "allocate_pid s = Return (next_pid s + 1) (lock_held (pid_lock s) 0 (s\<lparr>next_pid := next_pid s + 1\<rparr>))"
proof -
  let ?l = "pid_lock s" and ?s = "s\<lparr>next_pid := next_pid s + 1\<rparr>"
  have run: "running_thread ?s = running_thread s" by (simp add: running_thread_def)
  have "(lock_held ?l 1 s)\<lparr>next_pid := next_pid s + 1\<rparr> = lock_held ?l 1 ?s"
    unfolding lock_held_def run by simp
  then have "allocate_pid s = bindR (stepR (lock_release ?l (lock_held ?l 1 ?s))) (\<lambda>_ s'. Return (next_pid s + 1) s')"
    using lock_acquire_avail [OF assms] by (simp add: allocate_pid_def Let_def)
  also have "lock_release ?l (lock_held ?l 1 ?s) = Inr (lock_held ?l 0 ?s)"
    using lock_held_release [of 1] by simp
  finally show ?thesis by simp
qed

text \<open>The structure that \<open>init_thread\<close> leaves.\<close>

definition new_task :: "addr \<Rightarrow> string \<Rightarrow> u32 \<Rightarrow> u16 \<Rightarrow> task_status \<Rightarrow> task_struct" where
  "new_task p nm prio n st = zero_task\<lparr>self_kstack := p + PG_SIZE, pid := n, status := st, priority := ucast prio,
     name := map of_char nm @ replicate (16 - length nm) 0, ticks := ucast prio, stack_magic := 0x19851122\<rparr>"

definition zero_tags :: "addr \<Rightarrow> 'a kstate_scheme \<Rightarrow> 'a kstate_scheme" where
  "zero_tags p s = s\<lparr>lprev := (lprev s)(general_tag p := 0, all_list_tag p := 0),
     lnext := (lnext s)(general_tag p := 0, all_list_tag p := 0)\<rparr>"

lemma upd_task_twice [simp]: "upd_task p f (upd_task p g s) = upd_task p (\<lambda>t. f (g t)) s"
  by (simp add: upd_task_def)

lemma zero_tags_fields [simp]:
  "tasks (zero_tags p s) = tasks s" "pid_lock (zero_tags p s) = pid_lock s" "next_pid (zero_tags p s) = next_pid s"
  "main_thread (zero_tags p s) = main_thread s" "running_thread (zero_tags p s) = running_thread s"
  "lock_avail (zero_tags p s) l = lock_avail s l" "esp (zero_tags p s) = esp s" "eflags (zero_tags p s) = eflags s"
  by (simp_all add: zero_tags_def lock_avail_def)

lemma lock_avail_upd_task [simp]: "lock_avail (upd_task p f s) l = lock_avail s l"
  by (simp add: lock_avail_def running_thread_def upd_task_def)

lemma upd_task_commute [simp]:
  "lock_held l n (upd_task p f s) = upd_task p f (lock_held l n s)"
  "(upd_task p f s)\<lparr>next_pid := k\<rparr> = upd_task p f (s\<lparr>next_pid := k\<rparr>)"
  "pid_lock (upd_task p f s) = pid_lock s" "next_pid (upd_task p f s) = next_pid s"
  "main_thread (upd_task p f s) = main_thread s"
  by (simp_all add: upd_task_def lock_held_def running_thread_def)

lemma main_thread_held [simp]: "main_thread (lock_held l n s) = main_thread s"
  by (simp add: lock_held_def)

lemma memset_task_ok: "p \<noteq> NULL \<Longrightarrow> memset_task p s = Inr (upd_task p (\<lambda>_. zero_task) (zero_tags p s))"
  by (simp add: memset_task_def zero_tags_def)

lemma init_thread_ok:
  assumes p: "p \<noteq> NULL" and lk: "lock_avail s (pid_lock s)" and nm: "length nm \<le> 16"
  shows "init_thread p nm prio s = Return ()
    (upd_task p (\<lambda>_. new_task p nm prio (next_pid s + 1) (if p = main_thread s then TASK_RUNNING else TASK_READY))
      (lock_held (pid_lock s) 0 ((zero_tags p s)\<lparr>next_pid := next_pid s + 1\<rparr>)))"
proof -
  let ?s1 = "upd_task p (\<lambda>_. zero_task) (zero_tags p s)"
  have "allocate_pid ?s1 = Return (next_pid s + 1)
      (upd_task p (\<lambda>_. zero_task) (lock_held (pid_lock s) 0 ((zero_tags p s)\<lparr>next_pid := next_pid s + 1\<rparr>)))"
    using allocate_pid_ok [of ?s1] lk by simp
  then show ?thesis
    using nm by (simp add: init_thread_def memset_task_ok [OF p] Let_def strcpy_name_def)
      (simp add: new_task_def zero_task_def)
qed

text \<open>The page \<open>p\<close> holds no element of the two lists of threads, and is not the page of the running thread.\<close>

definition page_fresh :: "'a kstate_scheme \<Rightarrow> addr list \<Rightarrow> addr list \<Rightarrow> addr \<Rightarrow> bool" where
  "page_fresh s ps as p \<longleftrightarrow> running_thread s \<noteq> p \<and>
     (\<forall>x \<in> set (list_nodes (thread_ready_list s) (map general_tag ps)) \<union>
            set (list_nodes (thread_all_list s) (map all_list_tag as)). \<not> x - p < PG_SIZE)"

lemma page_fresh_tags:
  assumes "page_fresh s ps as p"
  shows "general_tag p \<notin> set (list_nodes (thread_ready_list s) (map general_tag ps))"
    "all_list_tag p \<notin> set (list_nodes (thread_ready_list s) (map general_tag ps))"
    "general_tag p \<notin> set (list_nodes (thread_all_list s) (map all_list_tag as))"
    "all_list_tag p \<notin> set (list_nodes (thread_all_list s) (map all_list_tag as))"
proof -
  have "general_tag p - p < PG_SIZE" "all_list_tag p - p < PG_SIZE" by (simp_all add: general_tag_def all_list_tag_def)
  with assms show "general_tag p \<notin> set (list_nodes (thread_ready_list s) (map general_tag ps))"
    "all_list_tag p \<notin> set (list_nodes (thread_ready_list s) (map general_tag ps))"
    "general_tag p \<notin> set (list_nodes (thread_all_list s) (map all_list_tag as))"
    "all_list_tag p \<notin> set (list_nodes (thread_all_list s) (map all_list_tag as))"
    unfolding page_fresh_def by blast+
qed

text \<open>The lists of threads: the ready threads \<open>ps\<close> and all threads \<open>as\<close>, with no element in common.\<close>

definition threads_inv :: "'a kstate_scheme \<Rightarrow> addr list \<Rightarrow> addr list \<Rightarrow> bool" where
  "threads_inv s ps as \<longleftrightarrow> sched_inv s ps \<and> list_at s (thread_all_list s) (map all_list_tag as) \<and>
     set (list_nodes (thread_all_list s) (map all_list_tag as)) \<inter>
     set (list_nodes (thread_ready_list s) (map general_tag ps)) = {}"

lemma threads_inv_cong:
  assumes "threads_inv s ps as" and "p \<notin> set ps" and "p \<noteq> running_thread s"
    and "\<And>q. q \<noteq> p \<Longrightarrow> tasks t q = tasks s q" and "esp t = esp s"
    and "thread_ready_list t = thread_ready_list s" and "thread_all_list t = thread_all_list s"
    and "\<And>x. x \<noteq> general_tag p \<Longrightarrow> x \<noteq> all_list_tag p \<Longrightarrow> lnext t x = lnext s x \<and> lprev t x = lprev s x"
    and "page_fresh s ps as p"
  shows "threads_inv t ps as"
proof -
  note tags = page_fresh_tags [OF assms(9)]
  have same: "lnext t x = lnext s x \<and> lprev t x = lprev s x"
    if "x \<in> set (list_nodes (thread_ready_list s) (map general_tag ps)) \<union> set (list_nodes (thread_all_list s) (map all_list_tag as))" for x
    using that tags by (intro assms(8)) auto
  have inv: "sched_inv s ps" "list_at s (thread_all_list s) (map all_list_tag as)"
    "list_at s (thread_ready_list s) (map general_tag ps)"
    using assms(1) by (simp_all add: threads_inv_def sched_inv_def ready_queue_def)
  have all: "list_at t (thread_all_list s) (map all_list_tag as)"
    using inv(2) by (rule list_at_cong) (use same in auto)
  have rq: "list_at t (thread_ready_list s) (map general_tag ps)"
    using inv(3) by (rule list_at_cong) (use same in auto)
  have run: "running_thread t = running_thread s" using assms(5) by (simp add: running_thread_def)
  have "status (tasks t q) = TASK_READY \<and> saved_ok t q" if "q \<in> set ps" for q
  proof -
    have "tasks t q = tasks s q" using assms(2,4) that by metis
    then show ?thesis using inv(1) that by (auto simp: sched_inv_def saved_ok_def)
  qed
  moreover have "tasks t (running_thread s) = tasks s (running_thread s)" using assms(3,4) by metis
  ultimately have "sched_inv t ps"
    using inv(1) rq by (simp add: sched_inv_def ready_queue_def run assms(5,6) stack_ok_def tag_apart_def Let_def)
  with all assms(1,6,7) show ?thesis by (simp add: threads_inv_def)
qed

lemma page_fresh_not:
  assumes "page_fresh s ps as p"
  shows "p \<notin> set ps" and "p \<notin> set as" and "p \<noteq> running_thread s" and "tag_apart s p"
  using page_fresh_tags [OF assms] assms by (auto simp: list_nodes_def page_fresh_def tag_apart_def)

lemma all_list_tag_inj [simp]: "all_list_tag p = all_list_tag q \<longleftrightarrow> p = q"
  by (simp add: all_list_tag_def)

lemma general_all_tag [simp]: "general_tag p \<noteq> all_list_tag p" "all_list_tag p \<noteq> general_tag p"
  by (simp_all add: general_tag_def all_list_tag_def)

lemma list_append_fields [simp]:
  "thread_all_list (list_append l e s) = thread_all_list s" "running_thread (list_append l e s) = running_thread s"
  "pid_lock (list_append l e s) = pid_lock s" "next_pid (list_append l e s) = next_pid s"
  "tstacks (list_append l e s) = tstacks s" "main_thread (list_append l e s) = main_thread s"
  "lock_avail (list_append l e s) = lock_avail s" "lk_repeat (list_append l e s) = lk_repeat s"
  "lk_holder (list_append l e s) = lk_holder s"
  by (simp_all add: list_append_def list_insert_before_eq running_thread_def lock_avail_def fun_eq_iff)

text \<open>A thread with a saved stack enters the two lists.\<close>

lemma enter_threads:
  assumes inv: "threads_inv s ps as" and fr: "page_fresh s ps as p"
    and st: "status (tasks s p) = TASK_READY" and sv: "saved_ok s p"
  defines "t1 \<equiv> list_append (thread_ready_list s) (general_tag p) s"
  defines "t \<equiv> list_append (thread_all_list s) (all_list_tag p) t1"
  shows "enter_ready fn p s = Inr t1" and "enter_all fn txt p t1 = Inr t" and "threads_inv t (ps @ [p]) (as @ [p])"
proof -
  let ?rl = "thread_ready_list s" and ?al = "thread_all_list s"
  let ?R = "set (list_nodes ?rl (map general_tag ps))" and ?A = "set (list_nodes ?al (map all_list_tag as))"
  note tags = page_fresh_tags [OF fr] and not = page_fresh_not [OF fr]
  have sc: "sched_inv s ps" and rq: "list_at s ?rl (map general_tag ps)" and al: "list_at s ?al (map all_list_tag as)"
    and dis: "?A \<inter> ?R = {}"
    using inv by (simp_all add: threads_inv_def sched_inv_def ready_queue_def)
  show "enter_ready fn p s = Inr t1"
    using kq.has_at [OF rq] not(1) by (simp add: enter_ready_def t1_def image_iff)
  have rq1: "list_at t1 ?rl (map general_tag (ps @ [p]))" using kq.at_append [OF rq tags(1)] by (simp add: t1_def)
  have al1: "list_at t1 ?al (map all_list_tag as)"
    unfolding t1_def using rq al dis tags(3) by (rule list_at_frame_append)
  show "enter_all fn txt p t1 = Inr t"
    using kq.has_at [OF al1] not(2) by (simp add: enter_all_def t_def t1_def image_iff)
  have al2: "list_at t ?al (map all_list_tag (as @ [p]))"
    unfolding t_def using kq.at_append [OF al1 tags(4)] by simp
  have R1: "set (list_nodes ?rl (map general_tag (ps @ [p]))) = insert (general_tag p) ?R"
    and A1: "set (list_nodes ?al (map all_list_tag (as @ [p]))) = insert (all_list_tag p) ?A"
    by (auto simp: list_nodes_def)
  have rq2: "list_at t ?rl (map general_tag (ps @ [p]))"
    unfolding t_def using al1 rq1 by (rule list_at_frame_append) (use dis tags R1 in auto)
  have fields: "tasks t = tasks s" "esp t = esp s" "thread_ready_list t = ?rl" "thread_all_list t = ?al"
    "running_thread t = running_thread s"
    by (simp_all add: t_def t1_def)
  have "sched_inv t (ps @ [p])"
    using sc rq2 st sv not by (auto simp: sched_inv_def ready_queue_def fields saved_ok_def stack_ok_def tag_apart_def Let_def)
  moreover have "insert (all_list_tag p) ?A \<inter> insert (general_tag p) ?R = {}" using dis tags by auto
  ultimately show "threads_inv t (ps @ [p]) (as @ [p])"
    unfolding threads_inv_def fields R1 A1 using al2 by simp
qed

section \<open>Memory seen by the allocator\<close>

definition same_mem :: "'a kstate_scheme \<Rightarrow> 'a kstate_scheme \<Rightarrow> bool" where
  "same_mem s t \<longleftrightarrow> pmem t = pmem s \<and> cr3 t = cr3 s \<and> bytes t = bytes s \<and> kernel_pool t = kernel_pool s \<and>
     user_pool t = user_pool s \<and> kernel_vaddr t = kernel_vaddr s"

lemma same_mem_heap:
  assumes "same_mem s t"
  shows "heap_ok t = heap_ok s" "heap_used t k = heap_used s k" "kpage t = kpage s" "kvb t = kvb s"
    "kfree t = kfree s" "ufree t = ufree s" "mapped t = mapped s"
proof -
  have pm: "pmem t = pmem s" "cr3 t = cr3 s" "bytes t = bytes s" "kernel_pool t = kernel_pool s"
    "user_pool t = user_pool s" "kernel_vaddr t = kernel_vaddr s" using assms by (simp_all add: same_mem_def)
  show kv: "kpage t = kpage s" "kvb t = kvb s" "mapped t = mapped s" "kfree t = kfree s" "ufree t = ufree s"
    by (simp_all add: kpage_def kvb_def mapped_def pm fun_eq_iff)
  have "mm_inv t = mm_inv s" by (simp add: mm_inv_def table_at_def table_frame_def avail_def pm)
  moreover have "virt_ok t = virt_ok s" by (simp add: virt_ok_def pools_apart_def kv pm)
  moreover have "heap_apart t = heap_apart s" by (simp add: heap_apart_def kv pm)
  ultimately show "heap_ok t = heap_ok s" by (simp add: heap_ok_def)
  show "heap_used t k = heap_used s k" by (simp add: heap_used_def kv pm)
qed

lemma same_mem_steps [simp]:
  "same_mem s (upd_task p f t) = same_mem s t" "same_mem s (lock_held l n t) = same_mem s t"
  "same_mem s (zero_tags p t) = same_mem s t" "same_mem s (list_append l e t) = same_mem s t"
  "same_mem s (t\<lparr>next_pid := i\<rparr>) = same_mem s t" "same_mem s (t\<lparr>tstacks := x\<rparr>) = same_mem s t"
  "same_mem s (thread_create kt p fn arg t) = same_mem s t" "same_mem s s"
  by (simp_all add: same_mem_def upd_task_def lock_held_def zero_tags_def list_append_def list_insert_before_eq
      thread_create_def Let_def)

text \<open>What the creation of threads leaves alone: the interrupt handlers, the locks other than \<open>pid_lock\<close>, the fields
  of later components.\<close>

definition lock_fields :: "'a kstate_scheme \<Rightarrow> addr \<Rightarrow> addr \<times> u32 \<times> u8" where
  "lock_fields s l = (lk_holder s l, lk_repeat s l, sem_value s (lock_sema l))"

lemma lock_avail_fields: "lock_fields t l = lock_fields s l \<Longrightarrow> esp t = esp s \<Longrightarrow> lock_avail t l = lock_avail s l"
  by (simp add: lock_fields_def lock_avail_def running_thread_def)

lemma lock_sema_inj [simp]: "lock_sema l = lock_sema l' \<longleftrightarrow> l = l'"
  by (simp add: lock_sema_def)

definition kept :: "'a kstate_scheme \<Rightarrow> 'a kstate_scheme \<Rightarrow> bool" where
  "kept s t \<longleftrightarrow> idt_table t = idt_table s \<and> kstate.more t = kstate.more s \<and> pid_lock t = pid_lock s \<and> esp t = esp s \<and>
     (\<forall>l. l \<noteq> pid_lock s \<longrightarrow> lock_fields t l = lock_fields s l)"

lemma kept_trans: "kept s t \<Longrightarrow> kept t u \<Longrightarrow> kept s u"
  by (simp add: kept_def)

lemma kept_lock_avail: "kept s t \<Longrightarrow> l \<noteq> pid_lock s \<Longrightarrow> lock_avail t l = lock_avail s l"
  by (rule lock_avail_fields) (simp_all add: kept_def)

section \<open>Starting a thread\<close>

text \<open>The frame that a new thread is switched in from, 432 bytes below the end of its page.\<close>

abbreviation (input) new_stack :: "addr \<Rightarrow> addr" where "new_stack p \<equiv> p + 3664"

lemma thread_create_eq:
  assumes "self_kstack (tasks s p) = p + PG_SIZE"
  shows "tasks (thread_create kt p fn arg s) = (tasks s)(p := (tasks s p)\<lparr>self_kstack := new_stack p\<rparr>)"
    and "tstacks (thread_create kt p fn arg s) = (tstacks s)(new_stack p := (tstacks s (new_stack p))
      \<lparr>ts_eip := kt, ts_function := fn, ts_func_arg := arg, ts_ebp := 0, ts_ebx := 0, ts_esi := 0, ts_edi := 0\<rparr>)"
  using assms by (simp_all add: thread_create_def Let_def upd_task_def add.commute [of 3664 p])

lemma thread_create_fields [simp]:
  "lnext (thread_create kt p fn arg s) = lnext s" "lprev (thread_create kt p fn arg s) = lprev s"
  "esp (thread_create kt p fn arg s) = esp s" "eflags (thread_create kt p fn arg s) = eflags s"
  "thread_ready_list (thread_create kt p fn arg s) = thread_ready_list s"
  "thread_all_list (thread_create kt p fn arg s) = thread_all_list s"
  "pid_lock (thread_create kt p fn arg s) = pid_lock s" "next_pid (thread_create kt p fn arg s) = next_pid s"
  "main_thread (thread_create kt p fn arg s) = main_thread s"
  "lock_avail (thread_create kt p fn arg s) l = lock_avail s l"
  by (simp_all add: thread_create_def Let_def upd_task_def lock_avail_def running_thread_def)

lemma new_stack_saved:
  assumes "page_aligned p" and "self_kstack (tasks s p) = new_stack p"
  shows "saved_ok s p"
  using aligned_plus_fields(1) [OF assms(1), of 919] aligned_plus_fields(1) [OF assms(1), of 921]
    aligned_plus_fields(1) [OF assms(1), of 923] assms(2)
  by (simp add: saved_ok_def Let_def add.assoc)

text \<open>A thread is prepared: its structure and its stack frame are built; it is not in a list yet.\<close>

definition prepared :: "u32 \<Rightarrow> addr \<Rightarrow> string \<Rightarrow> u32 \<Rightarrow> u32 \<Rightarrow> u32 \<Rightarrow> 'a kstate_scheme \<Rightarrow> 'a kstate_scheme" where
  "prepared kt p nm prio fn arg s = thread_create kt p fn arg
     (upd_task p (\<lambda>_. new_task p nm prio (next_pid s + 1) TASK_READY)
       (lock_held (pid_lock s) 0 ((zero_tags p s)\<lparr>next_pid := next_pid s + 1\<rparr>)))"

lemma prepared_fields:
  "tasks (prepared kt p nm prio fn arg s) =
     (tasks s)(p := (new_task p nm prio (next_pid s + 1) TASK_READY)\<lparr>self_kstack := new_stack p\<rparr>)"
  "tstacks (prepared kt p nm prio fn arg s) = (tstacks s)(new_stack p := (tstacks s (new_stack p))
      \<lparr>ts_eip := kt, ts_function := fn, ts_func_arg := arg, ts_ebp := 0, ts_ebx := 0, ts_esi := 0, ts_edi := 0\<rparr>)"
  "esp (prepared kt p nm prio fn arg s) = esp s" "eflags (prepared kt p nm prio fn arg s) = eflags s"
  "thread_ready_list (prepared kt p nm prio fn arg s) = thread_ready_list s"
  "thread_all_list (prepared kt p nm prio fn arg s) = thread_all_list s"
  "pid_lock (prepared kt p nm prio fn arg s) = pid_lock s" "next_pid (prepared kt p nm prio fn arg s) = next_pid s + 1"
  "main_thread (prepared kt p nm prio fn arg s) = main_thread s"
  "lnext (prepared kt p nm prio fn arg s) = lnext (zero_tags p s)"
  "lprev (prepared kt p nm prio fn arg s) = lprev (zero_tags p s)"
  "same_mem s (prepared kt p nm prio fn arg s)" "lock_avail (prepared kt p nm prio fn arg s) (pid_lock s)"
  "running_thread (prepared kt p nm prio fn arg s) = running_thread s"
proof -
  let ?u = "upd_task p (\<lambda>_. new_task p nm prio (next_pid s + 1) TASK_READY)
       (lock_held (pid_lock s) 0 ((zero_tags p s)\<lparr>next_pid := next_pid s + 1\<rparr>))"
  have k: "self_kstack (tasks ?u p) = p + PG_SIZE" by (simp add: new_task_def)
  have u: "tasks ?u = (tasks s)(p := new_task p nm prio (next_pid s + 1) TASK_READY)" "tstacks ?u = tstacks s"
    by (simp_all add: upd_task_def lock_held_def zero_tags_def)
  show "tasks (prepared kt p nm prio fn arg s) =
     (tasks s)(p := (new_task p nm prio (next_pid s + 1) TASK_READY)\<lparr>self_kstack := new_stack p\<rparr>)"
    "tstacks (prepared kt p nm prio fn arg s) = (tstacks s)(new_stack p := (tstacks s (new_stack p))
      \<lparr>ts_eip := kt, ts_function := fn, ts_func_arg := arg, ts_ebp := 0, ts_ebx := 0, ts_esi := 0, ts_edi := 0\<rparr>)"
    unfolding prepared_def thread_create_eq [OF k] u by simp_all
  show "lock_avail (prepared kt p nm prio fn arg s) (pid_lock s)" "same_mem s (prepared kt p nm prio fn arg s)"
    by (simp_all add: prepared_def lock_avail_again)
  show "esp (prepared kt p nm prio fn arg s) = esp s" "eflags (prepared kt p nm prio fn arg s) = eflags s"
    "thread_ready_list (prepared kt p nm prio fn arg s) = thread_ready_list s"
    "thread_all_list (prepared kt p nm prio fn arg s) = thread_all_list s"
    "pid_lock (prepared kt p nm prio fn arg s) = pid_lock s" "next_pid (prepared kt p nm prio fn arg s) = next_pid s + 1"
    "main_thread (prepared kt p nm prio fn arg s) = main_thread s"
    "lnext (prepared kt p nm prio fn arg s) = lnext (zero_tags p s)"
    "lprev (prepared kt p nm prio fn arg s) = lprev (zero_tags p s)"
    "running_thread (prepared kt p nm prio fn arg s) = running_thread s"
    by (simp_all add: prepared_def lock_held_def zero_tags_def upd_task_def running_thread_def)
qed

lemma kept_prepared: "kept s (prepared kt p nm prio fn arg s)"
  by (simp add: kept_def lock_fields_def) (simp add: prepared_def thread_create_def upd_task_def lock_held_def zero_tags_def Let_def)

lemma kept_ops:
  "kept s (t\<lparr>scr := x\<rparr>) = kept s t" "kept s (t\<lparr>main_thread := p\<rparr>) = kept s t" "kept s (t\<lparr>next_pid := n\<rparr>) = kept s t"
  "kept s (upd_task p f t) = kept s t" "kept s (zero_tags p t) = kept s t" "kept s (list_append l e t) = kept s t"
  "kept s (list_init l t) = kept s t" "kept s s"
  by (simp_all add: kept_def lock_fields_def)
    (simp_all add: upd_task_def zero_tags_def list_append_def list_insert_before_eq list_init_def Let_def)

lemma lock_avail_init_other: "l' \<noteq> l \<Longrightarrow> lock_avail (lock_init l s) l' = lock_avail s l'"
  by (simp add: lock_avail_def running_thread_def lock_init_def sema_init_def list_init_def Let_def)

lemma kept_pid_lock:
  assumes "l = pid_lock s"
  shows "kept s (lock_init l t) = kept s t" and "kept s (lock_held l n t) = kept s t"
  using assms
  by (auto simp: kept_def lock_fields_def lock_init_def sema_init_def list_init_def lock_held_def Let_def)

lemma prepare_ok:
  assumes "p \<noteq> NULL" and "lock_avail s (pid_lock s)" and "length nm \<le> 16" and "p \<noteq> main_thread s"
  obtains u where "init_thread p nm prio s = Return () u" and "thread_create kt p fn arg u = prepared kt p nm prio fn arg s"
  using init_thread_ok [OF assms(1-3)] assms(4) by (simp add: prepared_def)

lemma threads_inv_prepared:
  assumes "threads_inv s ps as" and "page_fresh s ps as p"
  shows "threads_inv (prepared kt p nm prio fn arg s) ps as" and "page_fresh (prepared kt p nm prio fn arg s) ps as p"
proof -
  let ?t = "prepared kt p nm prio fn arg s"
  show "threads_inv ?t ps as"
    by (rule threads_inv_cong [OF assms(1) page_fresh_not(1,3) [OF assms(2)] _ _ _ _ _ assms(2)])
      (simp_all add: prepared_fields zero_tags_def)
  show "page_fresh ?t ps as p" using assms(2) by (simp add: page_fresh_def prepared_fields)
qed

text \<open>The list at \<open>l\<close> with elements \<open>xs\<close> shares no node with the two lists of threads and with the page \<open>p\<close>.\<close>

definition list_outside :: "'a kstate_scheme \<Rightarrow> addr list \<Rightarrow> addr list \<Rightarrow> addr \<Rightarrow> addr \<Rightarrow> addr list \<Rightarrow> bool" where
  "list_outside s ps as p l xs \<longleftrightarrow> (\<forall>x \<in> set (list_nodes l xs).
     x \<notin> set (list_nodes (thread_ready_list s) (map general_tag ps)) \<and> x \<notin> set (list_nodes (thread_all_list s) (map all_list_tag as)) \<and>
     \<not> x - p < PG_SIZE)"

lemma list_outside_enter:
  assumes inv: "threads_inv s ps as" and fr: "page_fresh s ps as p" and at: "list_at s l xs" and out: "list_outside s ps as p l xs"
  shows "list_at (list_append (thread_all_list s) (all_list_tag p) (list_append (thread_ready_list s) (general_tag p) s)) l xs"
proof -
  let ?rl = "thread_ready_list s" and ?al = "thread_all_list s"
  let ?t1 = "list_append ?rl (general_tag p) s"
  have rq: "list_at s ?rl (map general_tag ps)" and al: "list_at s ?al (map all_list_tag as)"
    and dis: "set (list_nodes ?al (map all_list_tag as)) \<inter> set (list_nodes ?rl (map general_tag ps)) = {}"
    using inv by (simp_all add: threads_inv_def sched_inv_def ready_queue_def)
  have tag: "general_tag p - p < PG_SIZE" "all_list_tag p - p < PG_SIZE" by (simp_all add: general_tag_def all_list_tag_def)
  have "general_tag p \<notin> set (list_nodes ?al (map all_list_tag as))" using fr tag by (auto simp: page_fresh_def)
  with rq al dis have al1: "list_at ?t1 ?al (map all_list_tag as)" by (rule list_at_frame_append)
  have "list_at ?t1 l xs" using rq at by (rule list_at_frame_append) (use out tag in \<open>auto simp: list_outside_def\<close>)
  with al1 show ?thesis by (rule list_at_frame_append) (use out tag in \<open>auto simp: list_outside_def\<close>)
qed

lemma thread_start_ok:
  assumes inv: "threads_inv s ps as" and ok: "heap_ok s" and used: "heap_used s k" "k < bitmap_bits (kvb s)"
    and mem: "2 \<le> kfree s" and lk: "lock_avail s (pid_lock s)" and nm: "length nm \<le> 16"
    and fr: "page_fresh s ps as (kpage s k)" and main: "main_thread s = running_thread s"
  defines "p \<equiv> kpage s k"
  obtains t where "thread_start kt nm prio fn arg s = Return p t" and "threads_inv t (ps @ [p]) (as @ [p])"
    and "heap_ok t" and "heap_used t (k + 1)" and "kvb t = kvb s" and "kpage t = kpage s" and "kfree s \<le> kfree t + 2"
    and "lock_avail t (pid_lock t)" and "next_pid t = next_pid s + 1" and "main_thread t = running_thread t"
    and "running_thread t = running_thread s" and "eflags t = eflags s"
    and "thread_ready_list t = thread_ready_list s" and "thread_all_list t = thread_all_list s" and "kept s t"
    and "tasks t = (tasks s)(p := (new_task p nm prio (next_pid s + 1) TASK_READY)\<lparr>self_kstack := new_stack p\<rparr>)"
    and "tstacks t = (tstacks s)(new_stack p := (tstacks s (new_stack p))
      \<lparr>ts_eip := kt, ts_function := fn, ts_func_arg := arg, ts_ebp := 0, ts_ebx := 0, ts_esi := 0, ts_edi := 0\<rparr>)"
    and "\<forall>l xs. list_at s l xs \<longrightarrow> list_outside s ps as p l xs \<longrightarrow> list_at t l xs"
proof -
  have v: "virt_ok s" using ok by (simp add: heap_ok_def)
  note kp = kpage_props [OF v used(2)]
  obtain u where u: "get_kernel_pages 1 s = Inr (p, u)" "heap_ok u" "same_setup s u" "heap_used u (k + 1)" "kfree s \<le> kfree u + 2"
    by (rule get_kernel_pages_next [of s 1 k]) (use ok used mem in \<open>simp_all add: p_def\<close>)
  note m = mem_step_fields [OF mem_step_get_kernel_pages [OF u(1)]]
  have inv_u: "threads_inv u ps as"
    using inv by (simp add: threads_inv_def sched_inv_def ready_queue_def saved_ok_def stack_ok_def tag_apart_def m)
  have fr_u: "page_fresh u ps as p" using fr by (simp add: page_fresh_def m p_def)
  have lk_u: "lock_avail u (pid_lock u)" using lk by (simp add: lock_avail_def m)
  have pm: "p \<noteq> main_thread u" using fr main by (auto simp: page_fresh_def m p_def)
  have p0: "p \<noteq> NULL" "page_aligned p" using kp by (simp_all add: p_def)
  let ?t = "prepared kt p nm prio fn arg u"
  note inv_t = threads_inv_prepared [OF inv_u fr_u, of kt nm prio fn arg]
  have tk: "self_kstack (tasks ?t p) = new_stack p" "status (tasks ?t p) = TASK_READY"
    by (simp_all add: prepared_fields new_task_def)
  note en = enter_threads [OF inv_t tk(2) new_stack_saved [OF p0(2) tk(1)]]
  let ?t2 = "list_append (thread_all_list ?t) (all_list_tag p) (list_append (thread_ready_list ?t) (general_tag p) ?t)"
  obtain w where "init_thread p nm prio u = Return () w" "thread_create kt p fn arg w = ?t"
    by (rule prepare_ok [OF p0(1) lk_u nm pm])
  then have go: "thread_start kt nm prio fn arg s = Return p ?t2"
    using u(1) en(1,2) by (simp add: thread_start_def Let_def)
  have sm: "same_mem u ?t2" by (simp add: prepared_fields)
  note h = same_mem_heap [OF sm]
  have "kvb u = kvb s" "kpage u = kpage s" by (simp_all add: kvb_def kpage_def m fun_eq_iff)
  moreover have "lock_avail ?t2 (pid_lock ?t2)"
    using prepared_fields(13) [of kt p nm prio fn arg u] by (simp add: prepared_fields(7))
  moreover have "kept u ?t2" using kept_prepared by (simp add: kept_ops)
  then have "kept s ?t2" by (rule kept_trans [rotated]) (simp add: kept_def lock_fields_def m)
  moreover have "list_at ?t2 l xs" if "list_at s l xs" "list_outside s ps as p l xs" for l xs
  proof (rule list_outside_enter [OF inv_t])
    have "list_at u l xs" using that(1) by (simp add: list_at_def m)
    then show "list_at ?t l xs"
      by (rule list_at_cong)
        (use that(2) in \<open>auto simp: prepared_fields zero_tags_def list_outside_def general_tag_def all_list_tag_def\<close>)
    show "list_outside ?t ps as p l xs" using that(2) by (simp add: list_outside_def prepared_fields m)
  qed
  ultimately show thesis
    by (intro that [OF go en(3)])
      (use u(2,4,5) h in \<open>simp_all add: prepared_fields m main\<close>)
qed

section \<open>The main thread\<close>

text \<open>The lists of \<open>thread.c\<close> and the waiters of \<open>pid_lock\<close> are different objects, outside the page \<open>p\<close>.\<close>

definition globals_apart :: "'a kstate_scheme \<Rightarrow> addr \<Rightarrow> bool" where
  "globals_apart s p \<longleftrightarrow>
     (let rl = thread_ready_list s; al = thread_all_list s; w = sema_waiters (lock_sema (pid_lock s));
          N = [rl, list_tail rl, al, list_tail al, w, list_tail w]
      in distinct N \<and> (\<forall>x \<in> set N. \<not> x - p < PG_SIZE))"

lemma init_thread_fields [simp]:
  "thread_ready_list (lock_init l s) = thread_ready_list s" "thread_all_list (lock_init l s) = thread_all_list s"
  "pid_lock (lock_init l s) = pid_lock s" "next_pid (lock_init l s) = next_pid s" "esp (lock_init l s) = esp s"
  "tasks (lock_init l s) = tasks s" "eflags (lock_init l s) = eflags s" "tstacks (lock_init l s) = tstacks s"
  "same_mem s (lock_init l s)" "same_mem s (list_init l s)"
  "thread_ready_list (list_init l s) = thread_ready_list s" "thread_all_list (list_init l s) = thread_all_list s"
  "pid_lock (list_init l s) = pid_lock s" "next_pid (list_init l s) = next_pid s" "esp (list_init l s) = esp s"
  "tasks (list_init l s) = tasks s" "eflags (list_init l s) = eflags s" "tstacks (list_init l s) = tstacks s"
  by (simp_all add: lock_init_def sema_init_def list_init_def Let_def same_mem_def)

lemma lock_init_avail: "lock_avail (lock_init l s) l"
  by (simp add: lock_avail_def lock_init_def sema_init_def list_init_def Let_def)

text \<open>\<open>list_init\<close> on one list leaves another alone.\<close>

lemma list_at_frame_init:
  "list_at s k ys \<Longrightarrow> l \<notin> set (list_nodes k ys) \<Longrightarrow> list_tail l \<notin> set (list_nodes k ys) \<Longrightarrow> list_at (list_init l s) k ys"
  by (erule list_at_cong) (auto simp: list_init_def Let_def)

lemma thread_init_lists:
  assumes "globals_apart s p"
  defines "t \<equiv> lock_init (pid_lock s) (list_init (thread_all_list s) (list_init (thread_ready_list s) s))"
  shows "list_at t (thread_ready_list s) []" and "list_at t (thread_all_list s) []"
proof -
  let ?w = "sema_waiters (lock_sema (pid_lock s))" and ?v = "list_init (thread_all_list s) (list_init (thread_ready_list s) s)"
  have t: "t = list_init ?w (?v\<lparr>lk_holder := (lk_holder ?v)(pid_lock s := NULL), lk_repeat := (lk_repeat ?v)(pid_lock s := 0),
      sem_value := (sem_value ?v)(lock_sema (pid_lock s) := 1)\<rparr>)"
    by (simp add: t_def lock_init_def sema_init_def Let_def)
  have "list_at ?v (thread_ready_list s) []" "list_at ?v (thread_all_list s) []"
    using assms(1) by (auto simp: globals_apart_def Let_def list_nodes_def intro!: list_at_frame_init list_at_init)
  then show "list_at t (thread_ready_list s) []" "list_at t (thread_all_list s) []"
    unfolding t using assms(1)
    by (auto intro!: list_at_frame_init simp: globals_apart_def Let_def list_nodes_def)
      (simp_all add: list_at_def)
qed

lemma thread_init_ok:
  assumes st: "stack_ok s p" and p: "p \<noteq> NULL" and ap: "globals_apart s p"
  obtains t where "thread_init s = Return () t" and "threads_inv t [] [p]" and "main_thread t = p" and "running_thread t = p"
    and "tasks t = (tasks s)(p := new_task p ''main'' 31 (next_pid s + 1) TASK_RUNNING)"
    and "next_pid t = next_pid s + 1" and "lock_avail t (pid_lock t)" and "same_mem s t" and "eflags t = eflags s" and "kept s t"
    and "thread_ready_list t = thread_ready_list s" and "thread_all_list t = thread_all_list s" and "esp t = esp s"
proof -
  define s1 where "s1 = kput_str ''thread_init start\<newline>'' s"
  let ?rl = "thread_ready_list s" and ?al = "thread_all_list s"
  define a where "a = lock_init (pid_lock s) (list_init ?al (list_init ?rl s1))"
  define b where "b = a\<lparr>main_thread := p\<rparr>"
  have s1: "thread_ready_list s1 = ?rl" "thread_all_list s1 = ?al" "pid_lock s1 = pid_lock s" "esp s1 = esp s"
    "tasks s1 = tasks s" "next_pid s1 = next_pid s" "eflags s1 = eflags s" "same_mem s s1" "globals_apart s1 p"
    using ap by (simp_all add: s1_def same_mem_def globals_apart_def Let_def)
  have a: "thread_ready_list a = ?rl" "thread_all_list a = ?al" "pid_lock a = pid_lock s" "esp a = esp s"
    "tasks a = tasks s" "next_pid a = next_pid s" "eflags a = eflags s" "same_mem s a"
    using s1 by (simp_all add: a_def) (simp add: same_mem_def lock_init_def sema_init_def list_init_def Let_def)
  have b: "thread_ready_list b = ?rl" "thread_all_list b = ?al" "pid_lock b = pid_lock s" "esp b = esp s"
    "tasks b = tasks s" "next_pid b = next_pid s" "eflags b = eflags s" "same_mem s b" "main_thread b = p"
    using a by (simp_all add: b_def same_mem_def)
  have run: "running_thread a = p" "running_thread b = p"
    using st by (simp_all add: running_thread_frame stack_ok_def a b)
  have lk: "lock_avail b (pid_lock b)"
    using lock_init_avail [of "pid_lock s" "list_init ?al (list_init ?rl s1)"] unfolding lock_avail_def b(3) run
    by (simp add: run b_def flip: a_def)
  define c where "c = upd_task p (\<lambda>_. new_task p ''main'' 31 (next_pid s + 1) TASK_RUNNING)
      (lock_held (pid_lock s) 0 ((zero_tags p b)\<lparr>next_pid := next_pid s + 1\<rparr>))"
  have init: "init_thread p ''main'' 31 b = Return () c"
    using init_thread_ok [OF p lk, of "''main''" 31] by (simp add: b c_def)
  have tags: "general_tag p - p < PG_SIZE" "all_list_tag p - p < PG_SIZE" by (simp_all add: general_tag_def all_list_tag_def)
  have out: "x \<noteq> general_tag p" "x \<noteq> all_list_tag p" if "x \<in> {?rl, list_tail ?rl, ?al, list_tail ?al}" for x
    using that ap tags unfolding globals_apart_def Let_def by auto
  from thread_init_lists [OF s1(9)] have la: "list_at a ?rl []" "list_at a ?al []" by (simp_all add: s1 a_def)
  have lc: "list_at c ?rl []" "list_at c ?al []"
    by (rule list_at_cong [OF la(1)] list_at_cong [OF la(2)];
        use out in \<open>auto simp: list_nodes_def zero_tags_def lock_held_def upd_task_def c_def b_def\<close>)+
  define d where "d = list_append ?al (all_list_tag p) c"
  have fr: "all_list_tag p \<notin> set (list_nodes ?al [])" "all_list_tag p \<notin> set (list_nodes ?rl [])"
    using out by (auto simp: list_nodes_def)
  have al: "thread_all_list c = ?al" "thread_ready_list c = ?rl" "main_thread c = p" "esp c = esp s"
    "pid_lock c = pid_lock s" "next_pid c = next_pid s + 1" "eflags c = eflags s" "same_mem s c"
    "tasks c = (tasks s)(p := new_task p ''main'' 31 (next_pid s + 1) TASK_RUNNING)" "running_thread c = p"
    using b run by (simp_all add: c_def) (simp_all add: lock_held_def zero_tags_def upd_task_def running_thread_def same_mem_def b)
  have lk_c: "lock_avail c (pid_lock s)" by (simp add: c_def lock_avail_again)
  have enter: "enter_all fn tx p c = Inr d" for fn tx
    using kq.has_at [OF lc(2)] by (simp add: enter_all_def al d_def)
  define t where "t = kput_str ''thread_init end\<newline>'' d"
  have "thread_init s = bindR (make_main_thread a) (\<lambda>_ s. Return () (kput_str ''thread_init end\<newline>'' s))"
    by (simp add: thread_init_def Let_def a_def s1_def)
  moreover have "make_main_thread a = Return () d"
    using init enter by (simp add: make_main_thread_def Let_def run al b_def)
  ultimately have go: "thread_init s = Return () t" by (simp add: t_def)
  have la_d: "list_at d ?al [all_list_tag p]" using kq.at_append [OF lc(2) fr(1)] by (simp add: d_def)
  have dis: "set (list_nodes ?rl []) \<inter> set (list_nodes ?al []) = {}"
    using ap by (auto simp: globals_apart_def Let_def list_nodes_def)
  have lr_d: "list_at d ?rl []" unfolding d_def using lc(2) lc(1) dis fr(2) by (rule list_at_frame_append)
  have d: "thread_all_list t = ?al" "thread_ready_list t = ?rl" "main_thread t = p" "esp t = esp s" "tasks t = tasks c"
    "running_thread t = p" "pid_lock t = pid_lock s" "next_pid t = next_pid s + 1" "eflags t = eflags s" "same_mem s t"
    using al by (simp_all add: t_def d_def) (simp add: same_mem_def list_append_def list_insert_before_eq)
  have "list_at t ?rl []" "list_at t ?al [all_list_tag p]" using la_d lr_d by (simp_all add: t_def list_at_def)
  moreover have "status (tasks t p) = TASK_RUNNING" by (simp add: d al new_task_def)
  moreover have "general_tag p \<noteq> ?rl" "general_tag p \<noteq> list_tail ?rl" using out by auto
  ultimately have "threads_inv t [] [p]"
    using st dis fr(2) unfolding threads_inv_def sched_inv_def
    by (auto simp: ready_queue_def Let_def d stack_ok_def tag_apart_def list_nodes_def)
  moreover have "lock_avail t (pid_lock t)" using lk_c by (simp add: t_def d_def lock_avail_def al)
  moreover have "kept s t" by (simp add: t_def d_def c_def b_def a_def s1_def kept_ops kept_pid_lock)
  ultimately show thesis by (intro that [OF go]) (simp_all add: d al)
qed

section \<open>Properties\<close>

text \<open>The concrete memory with a running main thread and no other thread, for the examples.\<close>

definition sample_threads :: "'a kstate_scheme \<Rightarrow> 'a kstate_scheme" where
  "sample_threads s = list_init 0x2000 (list_init 0x1000 ((sample_mm s)\<lparr>eflags := 2, esp := 0xc009ef00,
     tasks := (tasks s)(0xc009e000 := (tasks s 0xc009e000)\<lparr>status := TASK_RUNNING\<rparr>), main_thread := 0xc009e000,
     thread_ready_list := 0x1000, thread_all_list := 0x2000, pid_lock := 0x3000, sem_value := \<lambda>_. 1,
     lk_holder := \<lambda>_. NULL, lk_repeat := \<lambda>_. 0, next_pid := 1\<rparr>))"

lemma sample_threads_fields:
  "thread_ready_list (sample_threads s) = 0x1000" "thread_all_list (sample_threads s) = 0x2000"
  "running_thread (sample_threads s) = 0xc009e000" "main_thread (sample_threads s) = 0xc009e000"
  "pid_lock (sample_threads s) = 0x3000" "next_pid (sample_threads s) = 1" "esp (sample_threads s) = 0xc009ef00"
  "status (tasks (sample_threads s) 0xc009e000) = TASK_RUNNING" "same_mem (sample_mm s) (sample_threads s)"
  "lock_avail (sample_threads s) 0x3000"
  by (simp_all add: sample_threads_def running_thread_def same_mem_def list_init_def Let_def lock_avail_def)

lemma sample_threads_inv: "threads_inv (sample_threads s) [] []"
proof -
  have "list_at (sample_threads s) 0x1000 []" "list_at (sample_threads s) 0x2000 []"
    unfolding sample_threads_def by (auto intro!: list_at_frame_init list_at_init simp: list_nodes_def)
  then show ?thesis
    by (simp add: threads_inv_def sched_inv_def ready_queue_def sample_threads_fields stack_ok_def tag_apart_def
        general_tag_def list_nodes_def frame_def)
qed

lemma sample_threads_heap:
  "heap_ok (sample_threads s)" "heap_used (sample_threads s) 0" "kpage (sample_threads s) 0 = 0xc0100000"
  "bitmap_bits (kvb (sample_threads s)) = 8" "kfree (sample_threads s) = 8"
proof -
  note h = same_mem_heap [OF sample_threads_fields(9)]
  show "heap_ok (sample_threads s)" 
    using sample_mm_inv [of s] sample_virt [of s] unfolding h(1) by (simp add: heap_ok_def)
  show "heap_used (sample_threads s) 0" "kpage (sample_threads s) 0 = 0xc0100000"
    "bitmap_bits (kvb (sample_threads s)) = 8"
    unfolding h by (simp_all add: kpage_def heap_used_def kvb_def bitmap_bits_def bit_free_def)
  show "kfree (sample_threads s) = 8" unfolding h by simp
qed

text \<open>C18. \<open>thread_start\<close> creates a thread on the next free page of the kernel heap: the thread is ready, at the
  end of the ready list and of the list of all threads, with the next pid, which the counter has then reached, and the
  invariants of the scheduler and of the allocator are kept.  The frame at its saved stack pointer makes \<open>switch_to\<close> go to
  \<open>kernel_thread\<close> with the function and its argument.\<close>

theorem thread_start_ready:
  assumes "threads_inv s ps as" and "heap_ok s" and "heap_used s k" and "k < bitmap_bits (kvb s)" and "2 \<le> kfree s"
    and "lock_avail s (pid_lock s)" and "length nm \<le> 16" and "page_fresh s ps as (kpage s k)"
    and "main_thread s = running_thread s"
  shows "\<exists>t. thread_start kt nm prio fn arg s = Return (kpage s k) t \<and> threads_inv t (ps @ [kpage s k]) (as @ [kpage s k]) \<and>
    heap_ok t \<and> heap_used t (k + 1) \<and> running_thread t = running_thread s \<and> next_pid t = next_pid s + 1 \<and>
    (let task = tasks t (kpage s k); st = tstacks t (self_kstack task) in
      status task = TASK_READY \<and> pid task = next_pid s + 1 \<and> priority task = ucast prio \<and> ticks task = ucast prio \<and>
      stack_magic task = 0x19851122 \<and> ts_eip st = kt \<and> ts_function st = fn \<and> ts_func_arg st = arg)"
proof -
  let ?p = "kpage s k"
  obtain t where t: "thread_start kt nm prio fn arg s = Return ?p t" "threads_inv t (ps @ [?p]) (as @ [?p])"
    "heap_ok t" "heap_used t (k + 1)" "running_thread t = running_thread s" "next_pid t = next_pid s + 1"
    "tasks t = (tasks s)(?p := (new_task ?p nm prio (next_pid s + 1) TASK_READY)\<lparr>self_kstack := new_stack ?p\<rparr>)"
    "tstacks t = (tstacks s)(new_stack ?p := (tstacks s (new_stack ?p))
      \<lparr>ts_eip := kt, ts_function := fn, ts_func_arg := arg, ts_ebp := 0, ts_ebx := 0, ts_esi := 0, ts_edi := 0\<rparr>)"
    by (rule thread_start_ok [OF assms])
  then show ?thesis by (intro exI [of _ t]) (simp add: new_task_def Let_def)
qed

theorem thread_start_ready_witness:
  "\<forall>s :: kstate. \<exists>t. thread_start 0xc0001700 ''k_thread_a'' 31 0xc0001600 0xc0005000 (sample_threads s) = Return 0xc0100000 t \<and>
    threads_inv t [0xc0100000] [0xc0100000] \<and> pid (tasks t 0xc0100000) = 2"
proof
  fix s :: kstate
  have fr: "page_fresh (sample_threads s) [] [] 0xc0100000"
    by (simp add: page_fresh_def sample_threads_fields list_nodes_def)
  from thread_start_ready [of "sample_threads s" "[]" "[]" 0 "''k_thread_a''" "0xc0001700" 31 "0xc0001600" "0xc0005000"]
  show "\<exists>t. thread_start 0xc0001700 ''k_thread_a'' 31 0xc0001600 0xc0005000 (sample_threads s) = Return 0xc0100000 t \<and>
    threads_inv t [0xc0100000] [0xc0100000] \<and> pid (tasks t 0xc0100000) = 2"
    using sample_threads_inv [of s] sample_threads_heap [of s] sample_threads_fields [of s] fr by (auto simp: Let_def)
qed

text \<open>C19. \<open>thread_init\<close> makes the code that is running the main thread: on the page of its stack, running, with
  the first pid, in the list of all threads, with an empty ready list.  The invariant of the scheduler
  holds from there on.\<close>

theorem thread_init_main:
  assumes "stack_ok s p" and "p \<noteq> NULL" and "globals_apart s p"
  shows "\<exists>t. thread_init s = Return () t \<and> threads_inv t [] [p] \<and> main_thread t = p \<and> running_thread t = p \<and>
    status (tasks t p) = TASK_RUNNING \<and> pid (tasks t p) = next_pid s + 1 \<and> priority (tasks t p) = 31 \<and>
    name (tasks t p) = map of_char ''main'' @ replicate 12 0 \<and> lock_avail t (pid_lock t)"
proof -
  obtain t where "thread_init s = Return () t" "threads_inv t [] [p]" "main_thread t = p" "running_thread t = p"
    "tasks t = (tasks s)(p := new_task p ''main'' 31 (next_pid s + 1) TASK_RUNNING)" "lock_avail t (pid_lock t)"
    by (rule thread_init_ok [OF assms])
  then show ?thesis by (intro exI [of _ t]) (simp add: new_task_def)
qed

theorem thread_init_main_witness:
  "\<forall>s :: kstate. \<exists>t. thread_init (s\<lparr>esp := 0xc009ef00, thread_ready_list := 0xc0006000, thread_all_list := 0xc0006010,
      pid_lock := 0xc0006020, next_pid := 0\<rparr>) = Return () t \<and> threads_inv t [] [0xc009e000] \<and> pid (tasks t 0xc009e000) = 1"
proof
  fix s :: kstate
  let ?s = "s\<lparr>esp := 0xc009ef00, thread_ready_list := 0xc0006000, thread_all_list := 0xc0006010, pid_lock := 0xc0006020,
      next_pid := 0\<rparr>"
  have "stack_ok ?s 0xc009e000" "globals_apart ?s 0xc009e000"
    by (simp_all add: stack_ok_def frame_def globals_apart_def Let_def sema_waiters_def lock_sema_def)
  with thread_init_main [of ?s "0xc009e000"]
  show "\<exists>t. thread_init ?s = Return () t \<and> threads_inv t [] [0xc009e000] \<and> pid (tasks t 0xc009e000) = 1" by auto
qed

end
