(* ===== verification/SchedFrame.thy ===== *)
theory SchedFrame
  imports Sync
begin

text \<open>
  What the scheduler leaves alone: \<open>sched_step s t\<close> says that \<open>t\<close> differs from \<open>s\<close> at most in the flags, the screen,
  the list elements, the stack pointer, the structures of the threads and \<open>thread_tag\<close>.  Every operation of
  \<open>Sched\<close> is such a step.  In particular the fields with which other components extend the state do not change.
\<close>

definition sched_step :: "'a kstate_scheme \<Rightarrow> 'a kstate_scheme \<Rightarrow> bool" where
  "sched_step s t \<longleftrightarrow>
     outp t = outp s \<and> idt_table t = idt_table s \<and> bytes t = bytes s \<and> pmem t = pmem s \<and> cr3 t = cr3 s \<and>
     tstacks t = tstacks s \<and> istacks t = istacks s \<and> sem_value t = sem_value s \<and> lk_holder t = lk_holder s \<and>
     lk_repeat t = lk_repeat s \<and> kernel_pool t = kernel_pool s \<and> user_pool t = user_pool s \<and>
     kernel_vaddr t = kernel_vaddr s \<and> main_thread t = main_thread s \<and> thread_ready_list t = thread_ready_list s \<and>
     thread_all_list t = thread_all_list s \<and> pid_lock t = pid_lock s \<and> next_pid t = next_pid s \<and>
     kstate.more t = kstate.more s"

lemma sched_step_refl [simp]: "sched_step s s"
  by (simp add: sched_step_def)

lemma sched_step_trans: "sched_step s t \<Longrightarrow> sched_step t u \<Longrightarrow> sched_step s u"
  unfolding sched_step_def by (elim conjE) (intro conjI; simp)

lemma sched_step_upd [simp]:
  "sched_step s (t\<lparr>scr := a\<rparr>) = sched_step s t" "sched_step s (t\<lparr>eflags := b\<rparr>) = sched_step s t"
  "sched_step s (t\<lparr>esp := c\<rparr>) = sched_step s t" "sched_step s (t\<lparr>thread_tag := d\<rparr>) = sched_step s t"
  "sched_step s (upd_task p f t) = sched_step s t"
  "sched_step s (t\<lparr>lprev := e\<rparr>) = sched_step s t" "sched_step s (t\<lparr>lnext := g\<rparr>) = sched_step s t"
  by (simp_all add: sched_step_def upd_task_def)

lemma sched_step_ops [simp]:
  "sched_step s (list_append l e t) = sched_step s t" "sched_step s (list_push l e t) = sched_step s t"
  "sched_step s (snd (list_pop l t)) = sched_step s t" "sched_step s (snd (intr_disable t)) = sched_step s t"
  "sched_step s (snd (intr_set_status st t)) = sched_step s t" "sched_step s (schedule_back t) = sched_step s t"
  by (simp_all add: list_append_def list_push_def list_pop_def list_insert_before_eq list_remove_eq Let_def cli_eq
      restore_intr_eq schedule_back_def)

lemma sched_step_block_back [simp]: "sched_step s (thread_block_back old t) = sched_step s t"
  by (simp add: thread_block_back_def)

lemma sched_step_switch_to [simp]: "sched_step s (switch_to cur nxt t) = sched_step s t"
  by (simp add: switch_to_def Let_def)

lemma sched_step_requeue: "schedule_requeue s = Inr t \<Longrightarrow> sched_step s t"
  by (auto simp: schedule_requeue_def Let_def split: if_splits)

lemma sched_step_pick: "schedule_pick cur s = Inr t \<Longrightarrow> sched_step s t"
  by (auto simp: schedule_pick_def Let_def split_beta)

lemma sched_step_schedule: "schedule_out s = Inr t \<Longrightarrow> sched_step s t"
  by (auto simp: schedule_out_def Let_def dest!: sched_step_requeue sched_step_pick intro: sched_step_trans)

lemma sched_step_block:
  assumes "thread_block_out stat s = Inr (old, t)"
  shows "sched_step s t"
proof -
  have "schedule_out (upd_task (running_thread (cli s)) (\<lambda>t. t\<lparr>status := stat\<rparr>) (cli s)) = Inr t"
    using assms by (auto simp: thread_block_out_def split_beta Let_def)
  then have "sched_step (upd_task (running_thread (cli s)) (\<lambda>t. t\<lparr>status := stat\<rparr>) (cli s)) t" by (rule sched_step_schedule)
  with sched_step_trans [OF _ this, of s] show ?thesis by simp
qed

lemma sched_step_unblock: "thread_unblock p s = Inr t \<Longrightarrow> sched_step s t"
  by (auto simp: thread_unblock_def split_beta Let_def split: if_splits)

lemma sched_step_fields:
  assumes "sched_step s t"
  shows "sem_value t = sem_value s" "lk_holder t = lk_holder s" "lk_repeat t = lk_repeat s" "bytes t = bytes s"
    "pmem t = pmem s" "cr3 t = cr3 s" "thread_ready_list t = thread_ready_list s" "thread_all_list t = thread_all_list s"
    "pid_lock t = pid_lock s" "next_pid t = next_pid s" "main_thread t = main_thread s" "idt_table t = idt_table s"
    "kernel_pool t = kernel_pool s" "user_pool t = user_pool s" "kernel_vaddr t = kernel_vaddr s"
    "kstate.more t = kstate.more s"
  using assms by (simp_all add: sched_step_def)

end
