(* ===== verification/IOQueue.thy ===== *)
theory IOQueue
  imports Thread SchedFrame "HOL-Library.Signed_Division"
begin

text \<open>
  \<open>src/device/ioqueue.c\<close>: the ring buffer between an interrupt handler and the threads that read it.
  The members of a \<open>struct ioqueue\<close> at address \<open>q\<close> are where the other parts of the model expect
  them: the lock is the lock at \<open>q\<close>, the pointers \<open>producer\<close> and \<open>consumer\<close> are cells of \<open>wslot\<close> at \<open>q + 28\<close>
  and \<open>q + 32\<close>, and the buffer with its two indices is \<open>ioqs s q\<close>.

  \<open>queue_of\<close> reads the ring as a sequence.  The locale \<open>char_queue\<close> is what a user of the queue relies on as long
  as nobody has to wait; the interpretation shows that \<open>ioq_putchar\<close> and \<open>ioq_getchar\<close> provide it.
\<close>

section \<open>Model\<close>

abbreviation (input) bufsize :: nat where "bufsize \<equiv> 64"

record ioqueue =
  ioq_buf :: "u8 list"
  ioq_head :: u32
  ioq_tail :: u32

record kio = kstate +
  wslot :: "addr \<Rightarrow> addr"
  ioqs :: "addr \<Rightarrow> ioqueue"

definition ioq_producer :: "addr \<Rightarrow> addr" where
  "ioq_producer ioq = ioq + 28"

definition ioq_consumer :: "addr \<Rightarrow> addr" where
  "ioq_consumer ioq = ioq + 32"

definition upd_ioq :: "addr \<Rightarrow> (ioqueue \<Rightarrow> ioqueue) \<Rightarrow> 'a kio_scheme \<Rightarrow> 'a kio_scheme" where
  "upd_ioq ioq f s = s\<lparr>ioqs := (ioqs s)(ioq := f (ioqs s ioq))\<rparr>"

definition set_slot :: "addr \<Rightarrow> addr \<Rightarrow> 'a kio_scheme \<Rightarrow> 'a kio_scheme" where
  "set_slot waiter p s = s\<lparr>wslot := (wslot s)(waiter := p)\<rparr>"

definition ioqueue_init :: "addr \<Rightarrow> 'a kio_scheme \<Rightarrow> 'a kio_scheme" where
  "ioqueue_init ioq s =
     (let s = lock_init ioq s;
          s = set_slot (ioq_producer ioq) NULL (set_slot (ioq_consumer ioq) NULL s)
      in upd_ioq ioq (\<lambda>q. q\<lparr>ioq_head := 0\<rparr>) (upd_ioq ioq (\<lambda>q. q\<lparr>ioq_tail := 0\<rparr>) s))"

text \<open>\<open>(pos + 1) % bufsize\<close> on \<open>int32_t\<close>: the remainder has the sign of the dividend.\<close>

definition next_pos :: "u32 \<Rightarrow> u32" where
  "next_pos pos = word_of_int ((sint pos + 1) smod int bufsize)"

definition ioq_full :: "addr \<Rightarrow> 'a kio_scheme \<Rightarrow> bool res" where
  "ioq_full ioq s =
     ASSERT (INTR_OFF = intr_get_status s) ''ioq_full'' ''INTR_OFF == intr_get_status()''
      (Inr (next_pos (ioq_head (ioqs s ioq)) = ioq_tail (ioqs s ioq)))"

definition ioq_empty :: "addr \<Rightarrow> 'a kio_scheme \<Rightarrow> bool res" where
  "ioq_empty ioq s =
     ASSERT (INTR_OFF = intr_get_status s) ''ioq_empty'' ''INTR_OFF == intr_get_status()''
      (Inr (ioq_head (ioqs s ioq) = ioq_tail (ioqs s ioq)))"

definition ioq_wait :: "addr \<Rightarrow> 'a kio_scheme \<Rightarrow> ('a kio_scheme, unit) run" where
  "ioq_wait waiter s =
     assertR (waiter \<noteq> NULL \<and> wslot s waiter = NULL) ''ioq_wait'' ''waiter != NULL && *waiter == NULL''
      (thread_block TASK_BLOCKED (set_slot waiter (running_thread s) s))"

definition wakeup :: "addr \<Rightarrow> 'a kio_scheme \<Rightarrow> 'a kio_scheme res" where
  "wakeup waiter s =
     ASSERT (wslot s waiter \<noteq> NULL) ''wakeup'' ''*waiter''
      (bindE (thread_unblock (wslot s waiter) s) (\<lambda>s. Inr (set_slot waiter NULL s)))"

text \<open>The body of the two waiting loops.\<close>

definition ioq_wait_pass :: "addr \<Rightarrow> addr \<Rightarrow> 'a kio_scheme \<Rightarrow> ('a kio_scheme, unit) run" where
  "ioq_wait_pass ioq waiter s =
     bindR (lock_acquire ioq s) (\<lambda>_ s.
     bindR (ioq_wait waiter s) (\<lambda>_ s. stepR (lock_release ioq s)))"

text \<open>What \<open>ioq_getchar\<close> and \<open>ioq_putchar\<close> do behind their loops.\<close>

definition ioq_take :: "addr \<Rightarrow> 'a kio_scheme \<Rightarrow> (u8 \<times> 'a kio_scheme) res" where
  "ioq_take ioq s =
     (let q = ioqs s ioq; i = unat (ioq_tail q) in
      if length (ioq_buf q) \<le> i then Inl (OutOfBounds i)
      else
        let byte = ioq_buf q ! i;
            s = upd_ioq ioq (\<lambda>q. q\<lparr>ioq_tail := next_pos (ioq_tail q)\<rparr>) s
        in bindE (if wslot s (ioq_producer ioq) \<noteq> NULL then wakeup (ioq_producer ioq) s else Inr s)
             (\<lambda>s. Inr (byte, s)))"

definition ioq_store :: "addr \<Rightarrow> u8 \<Rightarrow> 'a kio_scheme \<Rightarrow> 'a kio_scheme res" where
  "ioq_store ioq byte s =
     (let q = ioqs s ioq; i = unat (ioq_head q) in
      if length (ioq_buf q) \<le> i then Inl (OutOfBounds i)
      else
        let s = upd_ioq ioq (\<lambda>q. q\<lparr>ioq_buf := (ioq_buf q)[i := byte]\<rparr>) s;
            s = upd_ioq ioq (\<lambda>q. q\<lparr>ioq_head := next_pos (ioq_head q)\<rparr>) s
        in if wslot s (ioq_consumer ioq) \<noteq> NULL then wakeup (ioq_consumer ioq) s else Inr s)"

definition ioq_getchar :: "addr \<Rightarrow> 'a kio_scheme \<Rightarrow> ('a kio_scheme, u8) run" where
  "ioq_getchar ioq s =
     assertR (INTR_OFF = intr_get_status s) ''ioq_getchar'' ''INTR_OFF == intr_get_status()''
      (bindR (whileR (ioq_empty ioq) (ioq_wait_pass ioq (ioq_consumer ioq)) (Return () s)) (\<lambda>_ s.
       liftR (ioq_take ioq s)))"

definition ioq_putchar :: "addr \<Rightarrow> u8 \<Rightarrow> 'a kio_scheme \<Rightarrow> ('a kio_scheme, unit) run" where
  "ioq_putchar ioq byte s =
     assertR (INTR_OFF = intr_get_status s) ''ioq_putchar'' ''INTR_OFF == intr_get_status()''
      (bindR (whileR (ioq_full ioq) (ioq_wait_pass ioq (ioq_producer ioq)) (Return () s)) (\<lambda>_ s.
       stepR (ioq_store ioq byte s)))"

section \<open>The ring as a sequence\<close>

definition ring_ok :: "ioqueue \<Rightarrow> bool" where
  "ring_ok q \<longleftrightarrow> length (ioq_buf q) = bufsize \<and> unat (ioq_head q) < bufsize \<and> unat (ioq_tail q) < bufsize"

definition ring_length :: "ioqueue \<Rightarrow> nat" where
  "ring_length q = (unat (ioq_head q) + bufsize - unat (ioq_tail q)) mod bufsize"

definition queue_of :: "ioqueue \<Rightarrow> u8 list" where
  "queue_of q = map (\<lambda>i. ioq_buf q ! ((unat (ioq_tail q) + i) mod bufsize)) [0..<ring_length q]"

lemma length_queue_of [simp]: "length (queue_of q) = ring_length q"
  by (simp add: queue_of_def)

lemma mod_ring: "a < 2 * bufsize \<Longrightarrow> a mod bufsize = (if a < bufsize then a else a - bufsize)"
  by (simp add: le_mod_geq)

lemma smod_nat: "0 < n \<Longrightarrow> int m smod int n = int (m mod n)"
  by (simp add: smod_int_alt_def sgn_if zmod_int)

lemma next_pos_mod:
  assumes "unat pos < bufsize"
  shows "unat (next_pos pos) = (if Suc (unat pos) = bufsize then 0 else Suc (unat pos))"
proof -
  have "pos < 64" using assms by (simp add: word_less_nat_alt)
  then have "sint pos = uint pos"
    by (simp add: sint_uint signed_take_bit_int_eq_self word_less_def nonneg_ge_neg_numeral)
  then have "sint pos = int (unat pos)" by simp
  then have "(sint pos + 1) smod int bufsize = int (Suc (unat pos)) smod int bufsize" by (simp add: add.commute)
  also have "\<dots> = int (Suc (unat pos) mod bufsize)" by (rule smod_nat) simp
  finally have "next_pos pos = of_nat (Suc (unat pos) mod bufsize)" by (simp add: next_pos_def)
  moreover have "Suc (unat pos) mod bufsize = (if Suc (unat pos) = bufsize then 0 else Suc (unat pos))"
    using assms by (simp add: mod_Suc)
  ultimately have "next_pos pos = of_nat (if Suc (unat pos) = bufsize then 0 else Suc (unat pos))" by (simp only:)
  then show ?thesis using assms by (simp only:) (rule unat_of_nat_less, simp)
qed

lemma ring_length_if:
  assumes "ring_ok q"
  shows "ring_length q = (if unat (ioq_tail q) \<le> unat (ioq_head q) then unat (ioq_head q) - unat (ioq_tail q)
    else unat (ioq_head q) + bufsize - unat (ioq_tail q))"
  using assms unfolding ring_length_def ring_ok_def by (subst mod_ring) auto

text \<open>The two tests, and the two ends.\<close>

lemma ring_full: "ring_ok q \<Longrightarrow> next_pos (ioq_head q) = ioq_tail q \<longleftrightarrow> ring_length q = bufsize - 1"
  unfolding word_unat_eq_iff by (simp add: ring_length_if) (auto simp: ring_ok_def next_pos_mod)

lemma ring_empty: "ring_ok q \<Longrightarrow> ioq_head q = ioq_tail q \<longleftrightarrow> ring_length q = 0"
  unfolding word_unat_eq_iff by (simp add: ring_length_if) (auto simp: ring_ok_def)

lemma ring_length_le: "ring_length q \<le> bufsize - 1"
  by (simp add: ring_length_def less_Suc_eq_le [symmetric])

definition ring_put :: "u8 \<Rightarrow> ioqueue \<Rightarrow> ioqueue" where
  "ring_put c q = q\<lparr>ioq_buf := (ioq_buf q)[unat (ioq_head q) := c], ioq_head := next_pos (ioq_head q)\<rparr>"

definition ring_get :: "ioqueue \<Rightarrow> ioqueue" where
  "ring_get q = q\<lparr>ioq_tail := next_pos (ioq_tail q)\<rparr>"

lemma ring_put_ok:
  assumes "ring_ok q" and "ring_length q < bufsize - 1"
  shows "ring_ok (ring_put c q)" and "queue_of (ring_put c q) = queue_of q @ [c]"
proof -
  let ?h = "unat (ioq_head q)" and ?t = "unat (ioq_tail q)" and ?n = "ring_length q"
  have b: "?h < 64" "?t < 64" "length (ioq_buf q) = 64" using assms(1) by (simp_all add: ring_ok_def)
  show ok: "ring_ok (ring_put c q)" using b by (simp add: ring_ok_def ring_put_def next_pos_mod)
  have fields: "unat (ioq_head (ring_put c q)) = (if Suc ?h = 64 then 0 else Suc ?h)" "ioq_tail (ring_put c q) = ioq_tail q"
    using b by (simp_all add: ring_put_def next_pos_mod)
  have len: "ring_length (ring_put c q) = Suc ?n"
    using b assms(2) unfolding ring_length_if [OF ok] ring_length_if [OF assms(1)] fields by (auto split: if_splits)
  have at: "(?t + i) mod 64 = (if ?t + i < 64 then ?t + i else ?t + i - 64)" if "i \<le> ?n" for i
    using that b assms(2) by (intro mod_ring) simp
  have h: "(?t + ?n) mod 64 = ?h"
    using b unfolding at [OF order_refl] ring_length_if [OF assms(1)] by (auto split: if_splits)
  have "?h \<noteq> (?t + i) mod 64" if "i < ?n" for i
    using that b at [of i] unfolding ring_length_if [OF assms(1)] by (auto split: if_splits)
  then have "map (\<lambda>i. ioq_buf (ring_put c q) ! ((?t + i) mod 64)) [0..<?n] = queue_of q"
    unfolding queue_of_def by (intro map_cong refl) (simp add: ring_put_def)
  moreover have "ioq_buf (ring_put c q) ! ((?t + ?n) mod 64) = c" using b by (simp add: h ring_put_def)
  ultimately show "queue_of (ring_put c q) = queue_of q @ [c]"
    unfolding queue_of_def [of "ring_put c q"] len fields(2) by simp
qed

lemma ring_get_ok:
  assumes "ring_ok q" and "0 < ring_length q"
  shows "ring_ok (ring_get q)" and "queue_of q = ioq_buf q ! unat (ioq_tail q) # queue_of (ring_get q)"
proof -
  let ?h = "unat (ioq_head q)" and ?t = "unat (ioq_tail q)"
  have b: "?h < 64" "?t < 64" "length (ioq_buf q) = 64" using assms(1) by (simp_all add: ring_ok_def)
  show ok: "ring_ok (ring_get q)" using b by (simp add: ring_ok_def ring_get_def next_pos_mod)
  have fields: "unat (ioq_tail (ring_get q)) = (if Suc ?t = 64 then 0 else Suc ?t)" "ioq_head (ring_get q) = ioq_head q"
    "ioq_buf (ring_get q) = ioq_buf q"
    using b by (simp_all add: ring_get_def next_pos_mod)
  have len: "ring_length q = Suc (ring_length (ring_get q))"
    using b assms(2) unfolding ring_length_if [OF ok] ring_length_if [OF assms(1)] fields by (auto split: if_splits)
  have shift: "(?t + Suc i) mod 64 = (unat (ioq_tail (ring_get q)) + i) mod 64" for i
    unfolding fields using b by (cases "Suc ?t = 64") (simp_all add: mod_add_left_eq [of 64 64 i, symmetric] flip: add_Suc)
  have "queue_of q = ioq_buf q ! ((?t + 0) mod 64) #
      map (\<lambda>i. ioq_buf q ! ((?t + i) mod 64)) (map Suc [0..<ring_length (ring_get q)])"
    unfolding queue_of_def len map_Suc_upt by (simp add: upt_conv_Cons del: upt_Suc)
  also have "map (\<lambda>i. ioq_buf q ! ((?t + i) mod 64)) (map Suc [0..<ring_length (ring_get q)]) = queue_of (ring_get q)"
    using shift by (simp add: queue_of_def fields(3))
  finally show "queue_of q = ioq_buf q ! ?t # queue_of (ring_get q)" using b by simp
qed

section \<open>Queues of characters\<close>

text \<open>The characters \<open>cs\<close> put one after another, and \<open>n\<close> characters taken.\<close>

fun put_list :: "(u8 \<Rightarrow> 's \<Rightarrow> ('s, unit) run) \<Rightarrow> u8 list \<Rightarrow> 's \<Rightarrow> ('s, unit) run" where
  "put_list put [] s = Return () s"
| "put_list put (c # cs) s = bindR (put c s) (\<lambda>_. put_list put cs)"

fun get_list :: "('s \<Rightarrow> ('s, u8) run) \<Rightarrow> nat \<Rightarrow> 's \<Rightarrow> ('s, u8 list) run" where
  "get_list get 0 s = Return [] s"
| "get_list get (Suc n) s = bindR (get s) (\<lambda>c s. bindR (get_list get n s) (\<lambda>cs s. Return (c # cs) s))"

locale char_queue =
  fixes ok :: "'s \<Rightarrow> bool" and contents :: "'s \<Rightarrow> u8 list" and cap :: nat
    and put :: "u8 \<Rightarrow> 's \<Rightarrow> ('s, unit) run" and get :: "'s \<Rightarrow> ('s, u8) run"
  assumes length_contents: "ok s \<Longrightarrow> length (contents s) \<le> cap"
    and put_ok: "ok s \<Longrightarrow> length (contents s) < cap \<Longrightarrow>
      \<exists>t. put c s = Return () t \<and> ok t \<and> contents t = contents s @ [c]"
    and get_ok: "ok s \<Longrightarrow> contents s = c # cs \<Longrightarrow> \<exists>t. get s = Return c t \<and> ok t \<and> contents t = cs"
begin

lemma put_all:
  assumes "ok s" and "length (contents s) + length cs \<le> cap"
  shows "\<exists>t. put_list put cs s = Return () t \<and> ok t \<and> contents t = contents s @ cs"
  using assms
proof (induction cs arbitrary: s)
  case (Cons c cs)
  from put_ok [OF Cons.prems(1), of c] Cons.prems(2) obtain u where
    u: "put c s = Return () u" "ok u" "contents u = contents s @ [c]" by auto
  from Cons.IH [OF u(2)] Cons.prems(2) u show ?case by auto
qed simp

lemma get_all:
  assumes "ok s" and "contents s = cs @ ds"
  shows "\<exists>t. get_list get (length cs) s = Return cs t \<and> ok t \<and> contents t = ds"
  using assms
proof (induction cs arbitrary: s)
  case (Cons c cs)
  from get_ok [OF Cons.prems(1), of c "cs @ ds"] Cons.prems(2) obtain u where
    u: "get s = Return c u" "ok u" "contents u = cs @ ds" by auto
  from Cons.IH [OF u(2,3)] u(1) show ?case by auto
qed simp

lemma put_get:
  assumes "ok s" and "contents s = []" and "length cs \<le> cap"
  shows "\<exists>t. bindR (put_list put cs s) (\<lambda>_. get_list get (length cs)) = Return cs t \<and> ok t \<and> contents t = []"
proof -
  obtain u where u: "put_list put cs s = Return () u" "ok u" "contents u = cs" using put_all assms by fastforce
  with get_all [of u cs "[]"] show ?thesis by auto
qed

end

text \<open>No thread waits for the queue, and interrupts are off.\<close>

definition ioq_quiet :: "addr \<Rightarrow> 'a kio_scheme \<Rightarrow> bool" where
  "ioq_quiet ioq s \<longleftrightarrow> ring_ok (ioqs s ioq) \<and> intr_get_status s = INTR_OFF \<and>
     wslot s (ioq_producer ioq) = NULL \<and> wslot s (ioq_consumer ioq) = NULL"

lemma upd_ioq_fields [simp]:
  "ioqs (upd_ioq ioq f s) = (ioqs s)(ioq := f (ioqs s ioq))" "wslot (upd_ioq ioq f s) = wslot s"
  "intr_get_status (upd_ioq ioq f s) = intr_get_status s" "running_thread (upd_ioq ioq f s) = running_thread s"
  "tasks (upd_ioq ioq f s) = tasks s" "eflags (upd_ioq ioq f s) = eflags s"
  "ioqs (set_slot w p s) = ioqs s" "wslot (set_slot w p s) = (wslot s)(w := p)"
  "intr_get_status (set_slot w p s) = intr_get_status s" "running_thread (set_slot w p s) = running_thread s"
  "tasks (set_slot w p s) = tasks s" "eflags (set_slot w p s) = eflags s"
  "upd_ioq ioq f (upd_ioq ioq g s) = upd_ioq ioq (\<lambda>q. f (g q)) s"
  by (simp_all add: upd_ioq_def set_slot_def intr_get_status_def running_thread_def)

lemma ioq_putchar_room:
  assumes "ring_ok (ioqs s ioq)" and "ring_length (ioqs s ioq) < bufsize - 1" and "intr_get_status s = INTR_OFF"
  shows "ioq_putchar ioq c s = stepR (if wslot s (ioq_consumer ioq) \<noteq> NULL
    then wakeup (ioq_consumer ioq) (upd_ioq ioq (ring_put c) s) else Inr (upd_ioq ioq (ring_put c) s))"
proof -
  have "ioq_full ioq s = Inr False" using assms ring_full [OF assms(1)] by (simp add: ioq_full_def)
  moreover have "ioq_store ioq c s = (if wslot s (ioq_consumer ioq) \<noteq> NULL
    then wakeup (ioq_consumer ioq) (upd_ioq ioq (ring_put c) s) else Inr (upd_ioq ioq (ring_put c) s))"
    using assms(1) by (simp add: ioq_store_def Let_def ring_ok_def) (simp add: upd_ioq_def ring_put_def)
  ultimately show ?thesis using assms(3) by (simp add: ioq_putchar_def whileR_Return_done)
qed

lemma ioq_getchar_ready:
  assumes "ring_ok (ioqs s ioq)" and "0 < ring_length (ioqs s ioq)" and "intr_get_status s = INTR_OFF"
  shows "ioq_getchar ioq s = liftR (bindE (if wslot s (ioq_producer ioq) \<noteq> NULL
    then wakeup (ioq_producer ioq) (upd_ioq ioq ring_get s) else Inr (upd_ioq ioq ring_get s))
    (\<lambda>t. Inr (hd (queue_of (ioqs s ioq)), t)))"
proof -
  have "ioq_empty ioq s = Inr False" using assms ring_empty [OF assms(1)] by (simp add: ioq_empty_def)
  moreover have "ioq_take ioq s = bindE (if wslot s (ioq_producer ioq) \<noteq> NULL
    then wakeup (ioq_producer ioq) (upd_ioq ioq ring_get s) else Inr (upd_ioq ioq ring_get s))
    (\<lambda>t. Inr (hd (queue_of (ioqs s ioq)), t))"
    using assms(1) ring_get_ok(2) [OF assms(1,2)]
    by (simp add: ioq_take_def Let_def ring_ok_def ring_get_def [abs_def])
  ultimately show ?thesis using assms(3) by (simp add: ioq_getchar_def whileR_Return_done)
qed

interpretation ioq: char_queue "ioq_quiet q" "\<lambda>s. queue_of (ioqs s q)" "bufsize - 1" "ioq_putchar q" "ioq_getchar q"
  for q
proof
  fix s :: "'b kio_scheme" and c cs
  assume q: "ioq_quiet q s"
  show "length (queue_of (ioqs s q)) \<le> bufsize - 1" using ring_length_le [of "ioqs s q"] by simp
  show "\<exists>t. ioq_putchar q c s = Return () t \<and> ioq_quiet q t \<and> queue_of (ioqs t q) = queue_of (ioqs s q) @ [c]"
    if "length (queue_of (ioqs s q)) < bufsize - 1"
    using that q ring_put_ok [of "ioqs s q" c] by (simp add: ioq_quiet_def ioq_putchar_room)
  show "\<exists>t. ioq_getchar q s = Return c t \<and> ioq_quiet q t \<and> queue_of (ioqs t q) = cs" if cons: "queue_of (ioqs s q) = c # cs"
  proof -
    have "0 < ring_length (ioqs s q)" using arg_cong [OF cons, of length] by simp
    with q ring_get_ok [of "ioqs s q"] cons show ?thesis by (simp add: ioq_quiet_def ioq_getchar_ready)
  qed
qed

section \<open>Waiting\<close>

lemma ioq_slots [simp]: "ioq_producer q \<noteq> ioq_consumer q" "ioq_consumer q \<noteq> ioq_producer q"
  by (simp_all add: ioq_producer_def ioq_consumer_def)

lemma more_fields:
  fixes s t :: "'a kio_scheme"
  assumes "kstate.more t = kstate.more s"
  shows "wslot t = wslot s" and "ioqs t = ioqs s"
  using assms by (cases s; cases t; simp)+

lemma lock_held_more [simp]:
  fixes s :: "'a kio_scheme"
  shows "wslot (lock_held l n s) = wslot s" "ioqs (lock_held l n s) = ioqs s"
    "intr_get_status (lock_held l n s) = intr_get_status s" "eflags (lock_held l n s) = eflags s"
    "esp (lock_held l n s) = esp s" "thread_ready_list (lock_held l n s) = thread_ready_list s"
  by (simp_all add: lock_held_def intr_get_status_def)

lemma sched_inv_fields:
  "sched_inv (lock_held l n s) ps = sched_inv s ps"
  by (simp add: lock_held_def sched_inv_def ready_queue_def saved_ok_def stack_ok_def tag_apart_def running_thread_def list_at_def)

lemma sched_inv_io [simp]:
  fixes s :: "'a kio_scheme"
  shows "sched_inv (set_slot w p s) ps = sched_inv s ps" "sched_inv (upd_ioq q f s) ps = sched_inv s ps"
  by (simp_all add: set_slot_def upd_ioq_def sched_inv_def ready_queue_def saved_ok_def stack_ok_def tag_apart_def
      running_thread_def list_at_def)

text \<open>A pass of the waiting loop: the thread is entered as the one that waits, blocked, and switched out; it
  keeps the lock.\<close>

lemma ioq_wait_pass_switch:
  fixes s :: "'a kio_scheme"
  assumes inv: "sched_inv s (p # ps)" and w: "w \<noteq> NULL" "wslot s w = NULL" and lk: "lock_avail s ioq"
    and off: "intr_get_status s = INTR_OFF"
  obtains s' where "ioq_wait_pass ioq w s = Switch s' (\<lambda>t. stepR (lock_release ioq (thread_block_back INTR_OFF t)))"
    and "sched_inv (schedule_back s') ps" and "running_thread s' = p"
    and "status (tasks s' (running_thread s)) = TASK_BLOCKED" and "saved_ok s' (running_thread s)"
    and "wslot s' = (wslot s)(w := running_thread s)" and "ioqs s' = ioqs s"
    and "lk_holder s' ioq = running_thread s" and "lk_repeat s' ioq = 1" and "intr_get_status s' = INTR_OFF"
proof -
  let ?me = "running_thread s"
  let ?u = "set_slot w ?me (lock_held ioq 1 s)"
  have inv_u: "sched_inv ?u (p # ps)" using inv by (simp add: sched_inv_fields)
  have u: "running_thread ?u = ?me" "intr_get_status ?u = INTR_OFF" using off by simp_all
  obtain s' where s': "thread_block_out TASK_BLOCKED ?u = Inr (INTR_OFF, s')" "sched_inv (schedule_back s') ps"
    "running_thread s' = p" "status (tasks s' ?me) = TASK_BLOCKED" "intr_get_status s' = INTR_OFF" "saved_ok s' ?me"
    using thread_block_out_inv [OF inv_u, of TASK_BLOCKED] unfolding u by (metis blocked_status_simps(1))
  note fr = sched_step_fields [OF sched_step_block [OF s'(1)]]
  have "ioq_wait_pass ioq w s = Switch s' (\<lambda>t. stepR (lock_release ioq (thread_block_back INTR_OFF t)))"
    using w s'(1) by (simp add: ioq_wait_pass_def lock_acquire_avail [OF lk] ioq_wait_def thread_block_def)
  moreover have "wslot s' = (wslot s)(w := ?me)" "ioqs s' = ioqs s" using more_fields [OF fr(16)] by simp_all
  moreover have "lk_holder s' ioq = ?me" "lk_repeat s' ioq = 1" by (simp_all add: fr(2,3) set_slot_def)
  ultimately show thesis using s' by (intro that [of s']) simp_all
qed

text \<open>A waiting thread is woken.\<close>

lemma wakeup_ok:
  fixes s :: "'a kio_scheme"
  assumes inv: "sched_inv s ps" and w: "wslot s w = r" "r \<noteq> NULL" and r: "status (tasks s r) = TASK_BLOCKED" "saved_ok s r" "tag_apart s r"
  obtains t where "wakeup w s = Inr t" and "sched_inv t (r # ps)" and "eflags t = eflags s" and "wslot t = (wslot s)(w := NULL)"
    and "ioqs t = ioqs s" and "status (tasks t r) = TASK_READY" and "running_thread t = running_thread s"
    and "lk_holder t = lk_holder s" and "lk_repeat t = lk_repeat s"
proof -
  obtain u where u: "thread_unblock r s = Inr u" "sched_inv u (r # ps)" "eflags u = eflags s"
    "tasks u = (tasks s)(r := (tasks s r)\<lparr>status := TASK_READY\<rparr>)" "running_thread u = running_thread s"
    using thread_unblock_inv [OF inv _ r(2,3)] r(1) by (metis blocked_status_simps(1))
  note fr = sched_step_fields [OF sched_step_unblock [OF u(1)]]
  show thesis
    by (rule that [of "set_slot w NULL u"])
      (use w u more_fields [OF fr(16)] in \<open>simp_all add: wakeup_def\<close>, simp_all add: set_slot_def fr)
qed

text \<open>A reader that comes back from its switch still holds the lock; it gives it back and reads again.\<close>

lemma block_back_status: "intr_get_status (thread_block_back INTR_OFF t) = INTR_OFF"
  by (simp add: thread_block_back_def intr_set_status_def)

lemma getchar_resume:
  fixes t :: "'a kio_scheme"
  assumes "lk_holder t q = running_thread (thread_block_back INTR_OFF t)" and "lk_repeat t q = 1"
    and "ring_ok (ioqs t q)" and "queue_of (ioqs t q) = c # cs" and "wslot t (ioq_producer q) = NULL"
  shows "\<exists>t'. bindR (whileR (ioq_empty q) (ioq_wait_pass q w) (stepR (lock_release q (thread_block_back INTR_OFF t))))
      (\<lambda>_ s. liftR (ioq_take q s)) = Return c t' \<and> queue_of (ioqs t' q) = cs \<and> lk_holder t' q = lk_holder t q"
proof -
  let ?b = "thread_block_back INTR_OFF t"
  let ?u = "?b\<lparr>lk_repeat := (lk_repeat ?b)(q := 0)\<rparr>"
  note b = sched_step_fields [of t ?b, simplified]
  have io: "wslot ?b = wslot t" "ioqs ?b = ioqs t" by (rule more_fields [OF b(16)])+
  have rel: "lock_release q ?b = Inr ?u" using assms(1,2) by (simp add: lock_release_cases b(2,3))
  have off: "intr_get_status ?u = INTR_OFF" using block_back_status [of t] by (simp add: intr_get_status_def)
  have len: "0 < ring_length (ioqs t q)" using arg_cong [OF assms(4), of length] by simp
  have e: "ioq_empty q ?u = Inr False" using ring_empty [OF assms(3)] len off by (simp add: ioq_empty_def io)
  have "ioq_getchar q ?u = liftR (ioq_take q ?u)" using e off by (simp add: ioq_getchar_def whileR_Return_done)
  moreover have "ioq_getchar q ?u = Return c (upd_ioq q ring_get ?u)"
    using ioq_getchar_ready [of ?u q] assms(3-5) len off by (simp add: io)
  ultimately have "bindR (whileR (ioq_empty q) (ioq_wait_pass q w) (stepR (lock_release q ?b))) (\<lambda>_ s. liftR (ioq_take q s)) =
      Return c (upd_ioq q ring_get ?u)"
    using e rel by (simp add: whileR_Return_done)
  moreover have "queue_of (ioqs (upd_ioq q ring_get ?u) q) = cs"
    using ring_get_ok(2) [OF assms(3) len] assms(4) by (simp add: io)
  moreover have "lk_holder (upd_ioq q ring_get ?u) q = lk_holder t q" by (simp add: upd_ioq_def b(2))
  ultimately show ?thesis by blast
qed

section \<open>Properties\<close>

text \<open>C24. The ring buffer is a FIFO queue of at most 63 characters: with interrupts off and nobody waiting,
  \<open>ioq_putchar\<close> adds at the end as long as there is room, \<open>ioq_getchar\<close> takes the first character when there is one,
  \<open>ioq_full\<close> and \<open>ioq_empty\<close> tell when this is not so; each keeps the queue well formed.\<close>

theorem ioq_refines_fifo:
  assumes "ioq_quiet q s"
  shows "(length (queue_of (ioqs s q)) < 63 \<longrightarrow>
      (\<exists>t. ioq_putchar q c s = Return () t \<and> ioq_quiet q t \<and> queue_of (ioqs t q) = queue_of (ioqs s q) @ [c])) \<and>
    (queue_of (ioqs s q) \<noteq> [] \<longrightarrow>
      (\<exists>t. ioq_getchar q s = Return (hd (queue_of (ioqs s q))) t \<and> ioq_quiet q t \<and>
           queue_of (ioqs t q) = tl (queue_of (ioqs s q)))) \<and>
    ioq_full q s = Inr (length (queue_of (ioqs s q)) = 63) \<and> ioq_empty q s = Inr (queue_of (ioqs s q) = [])"
proof -
  have r: "ring_ok (ioqs s q)" "intr_get_status s = INTR_OFF" using assms by (simp_all add: ioq_quiet_def)
  have "ioq_full q s = Inr (length (queue_of (ioqs s q)) = 63)" "ioq_empty q s = Inr (queue_of (ioqs s q) = [])"
    using r by (simp_all add: ioq_full_def ioq_empty_def ring_full ring_empty flip: length_0_conv)
  moreover have "\<exists>t. ioq_putchar q c s = Return () t \<and> ioq_quiet q t \<and> queue_of (ioqs t q) = queue_of (ioqs s q) @ [c]"
    if "length (queue_of (ioqs s q)) < 63"
    using ioq.put_ok [OF assms, of c] that by simp
  moreover have "\<exists>t. ioq_getchar q s = Return (hd (queue_of (ioqs s q))) t \<and> ioq_quiet q t \<and>
      queue_of (ioqs t q) = tl (queue_of (ioqs s q))" if "queue_of (ioqs s q) \<noteq> []"
    using ioq.get_ok [OF assms, of "hd (queue_of (ioqs s q))"] that by simp
  ultimately show ?thesis by blast
qed

text \<open>An empty queue at \<open>0x4000\<close>, for the examples.\<close>

definition empty_ioq :: "'a kio_scheme \<Rightarrow> 'a kio_scheme" where
  "empty_ioq s = s\<lparr>wslot := \<lambda>_. NULL, ioqs := \<lambda>_. \<lparr>ioq_buf = replicate 64 0, ioq_head = 63, ioq_tail = 63\<rparr>\<rparr>"

lemma empty_ioq_fields:
  "ring_ok (ioqs (empty_ioq s) q)" "queue_of (ioqs (empty_ioq s) q) = []" "wslot (empty_ioq s) w = NULL"
  "intr_get_status (empty_ioq s) = intr_get_status s" "running_thread (empty_ioq s) = running_thread s"
  "sched_inv (empty_ioq s) ps = sched_inv s ps" "lock_avail (empty_ioq s) = lock_avail s"
  by (simp_all add: empty_ioq_def ring_ok_def queue_of_def ring_length_def intr_get_status_def running_thread_def sched_inv_def
      ready_queue_def saved_ok_def stack_ok_def tag_apart_def lock_avail_def list_at_def fun_eq_iff)

theorem ioq_refines_fifo_witness:
  "\<forall>s :: kio. \<exists>t u. ioq_putchar 0x4000 0x61 (empty_ioq (s\<lparr>eflags := 2\<rparr>)) = Return () t \<and>
    queue_of (ioqs t 0x4000) = [0x61] \<and> ioq_getchar 0x4000 t = Return 0x61 u"
proof
  fix s :: kio
  let ?s = "empty_ioq (s\<lparr>eflags := 2\<rparr>)"
  have q: "ioq_quiet 0x4000 ?s" by (simp add: ioq_quiet_def empty_ioq_fields) (simp add: intr_get_status_def)
  obtain t where t: "ioq_putchar 0x4000 0x61 ?s = Return () t" "ioq_quiet 0x4000 t" "queue_of (ioqs t 0x4000) = [0x61]"
    using ioq_refines_fifo [OF q, of "0x61"] by (auto simp: empty_ioq_fields simp del: length_queue_of)
  with ioq_refines_fifo [OF t(2)] show "\<exists>t u. ioq_putchar 0x4000 0x61 ?s = Return () t \<and>
    queue_of (ioqs t 0x4000) = [0x61] \<and> ioq_getchar 0x4000 t = Return 0x61 u" by auto
qed

text \<open>What is typed is what is read: up to 63 characters that are put into an empty queue are read back, in
  order, and the queue is empty again.\<close>

theorem ioq_roundtrip:
  assumes "ioq_quiet q s" and "queue_of (ioqs s q) = []" and "length cs \<le> 63"
  shows "\<exists>t. bindR (put_list (ioq_putchar q) cs s) (\<lambda>_. get_list (ioq_getchar q) (length cs)) = Return cs t \<and>
    ioq_quiet q t \<and> queue_of (ioqs t q) = []"
  by (rule ioq.put_get) (use assms in simp_all)

theorem ioq_roundtrip_witness:
  "\<forall>s :: kio. \<exists>t. bindR (put_list (ioq_putchar 0x4000) [0x68, 0x69] (empty_ioq (s\<lparr>eflags := 2\<rparr>)))
     (\<lambda>_. get_list (ioq_getchar 0x4000) 2) = Return [0x68, 0x69] t"
proof
  fix s :: kio
  let ?s = "empty_ioq (s\<lparr>eflags := 2\<rparr>)"
  have q: "ioq_quiet 0x4000 ?s" by (simp add: ioq_quiet_def empty_ioq_fields) (simp add: intr_get_status_def)
  have "length [0x68, 0x69 :: u8] \<le> 63" by simp
  from ioq_roundtrip [OF q empty_ioq_fields(2) this]
  show "\<exists>t. bindR (put_list (ioq_putchar 0x4000) [0x68, 0x69] ?s) (\<lambda>_. get_list (ioq_getchar 0x4000) 2) = Return [0x68, 0x69] t"
    by (auto simp: numeral_2_eq_2)
qed

text \<open>C25. A thread that reads an empty queue takes the lock of the queue, is entered as its consumer, blocked, and
  switched out.  When it comes back, still the holder of the lock, and there is a character, \<open>ioq_getchar\<close> returns it.\<close>

theorem ioq_getchar_waits:
  fixes s :: "'a kio_scheme"
  assumes "sched_inv s (p # ps)" and "intr_get_status s = INTR_OFF" and "ring_ok (ioqs s q)" and "queue_of (ioqs s q) = []"
    and "wslot s (ioq_consumer q) = NULL" and "ioq_consumer q \<noteq> NULL" and "lock_avail s q"
  shows "\<exists>s' k. ioq_getchar q s = Switch s' k \<and> running_thread s' = p \<and> sched_inv (schedule_back s') ps \<and>
    wslot s' (ioq_consumer q) = running_thread s \<and> status (tasks s' (running_thread s)) = TASK_BLOCKED \<and>
    lk_holder s' q = running_thread s \<and>
    (\<forall>t c cs. lk_holder t q = running_thread (thread_block_back INTR_OFF t) \<and> lk_repeat t q = 1 \<and>
       ring_ok (ioqs t q) \<and> queue_of (ioqs t q) = c # cs \<and> wslot t (ioq_producer q) = NULL \<longrightarrow>
       (\<exists>t'. k t = Return c t' \<and> queue_of (ioqs t' q) = cs))"
proof -
  let ?w = "ioq_consumer q"
  obtain s' where s': "ioq_wait_pass q ?w s = Switch s' (\<lambda>t. stepR (lock_release q (thread_block_back INTR_OFF t)))"
    "sched_inv (schedule_back s') ps" "running_thread s' = p" "status (tasks s' (running_thread s)) = TASK_BLOCKED"
    "saved_ok s' (running_thread s)" "wslot s' = (wslot s)(?w := running_thread s)" "ioqs s' = ioqs s"
    "lk_holder s' q = running_thread s" "lk_repeat s' q = 1" "intr_get_status s' = INTR_OFF"
    by (rule ioq_wait_pass_switch [OF assms(1,6,5,7,2)])
  let ?k = "\<lambda>t. bindR (whileR (ioq_empty q) (ioq_wait_pass q ?w) (stepR (lock_release q (thread_block_back INTR_OFF t))))
      (\<lambda>_ s. liftR (ioq_take q s))"
  have "ioq_empty q s = Inr True"
    using assms(2-4) ring_empty [OF assms(3)] by (simp add: ioq_empty_def flip: length_0_conv)
  then have "ioq_getchar q s = Switch s' ?k"
    using assms(2) s'(1) by (simp add: ioq_getchar_def whileR_Return_again)
  moreover have "\<exists>t'. ?k t = Return c t' \<and> queue_of (ioqs t' q) = cs"
    if "lk_holder t q = running_thread (thread_block_back INTR_OFF t) \<and> lk_repeat t q = 1 \<and>
       ring_ok (ioqs t q) \<and> queue_of (ioqs t q) = c # cs \<and> wslot t (ioq_producer q) = NULL" for t c cs
    using getchar_resume [of t q c cs ?w] that by blast
  ultimately show ?thesis using s' by (intro exI [of _ s'] exI [of _ ?k]) auto
qed

theorem ioq_getchar_waits_witness:
  "\<forall>s :: kio. \<exists>s' k. ioq_getchar 0x4000 (empty_ioq (two_threads (s\<lparr>sem_value := \<lambda>_. 1, lk_repeat := \<lambda>_. 0\<rparr>))) = Switch s' k \<and>
    running_thread s' = 0xc0100000 \<and> wslot s' (ioq_consumer 0x4000) = 0xc009e000"
proof
  fix s :: kio
  let ?t = "two_threads (s\<lparr>sem_value := \<lambda>_. 1, lk_repeat := \<lambda>_. 0\<rparr>)"
  have inv: "sched_inv (empty_ioq ?t) [0xc0100000]" by (simp add: empty_ioq_fields two_threads_inv)
  have "lock_avail (empty_ioq ?t) 0x4000"
    by (simp add: empty_ioq_fields lock_avail_def) (simp add: two_threads_def list_init_def Let_def list_append_def list_insert_before_eq)
  with ioq_getchar_waits [OF inv, of "0x4000"]
  show "\<exists>s' k. ioq_getchar 0x4000 (empty_ioq ?t) = Switch s' k \<and> running_thread s' = 0xc0100000 \<and>
    wslot s' (ioq_consumer 0x4000) = 0xc009e000"
    by (auto simp: empty_ioq_fields two_threads_fields ioq_consumer_def)
qed

text \<open>C26. \<open>ioq_putchar\<close> on a queue whose consumer waits adds the character and puts the consumer at the front of the
  ready list; the queue has no consumer then, and the invariant of the scheduler is kept.\<close>

theorem ioq_putchar_wakes:
  fixes s :: "'a kio_scheme"
  assumes "sched_inv s ps" and "intr_get_status s = INTR_OFF" and "ring_ok (ioqs s q)" and "length (queue_of (ioqs s q)) < 63"
    and "wslot s (ioq_consumer q) = r" and "r \<noteq> NULL" and "status (tasks s r) = TASK_BLOCKED" and "saved_ok s r" and "tag_apart s r"
  shows "\<exists>t. ioq_putchar q c s = Return () t \<and> sched_inv t (r # ps) \<and> queue_of (ioqs t q) = queue_of (ioqs s q) @ [c] \<and>
    wslot t (ioq_consumer q) = NULL \<and> status (tasks t r) = TASK_READY \<and> running_thread t = running_thread s"
proof -
  let ?u = "upd_ioq q (ring_put c) s"
  have room: "ring_length (ioqs s q) < 63" using assms(4) by simp
  note put = ring_put_ok [OF assms(3), of c]
  have u: "sched_inv ?u ps" "wslot ?u (ioq_consumer q) = r" "status (tasks ?u r) = TASK_BLOCKED" "saved_ok ?u r" "tag_apart ?u r"
    using assms by (simp_all add: saved_ok_def) (simp add: tag_apart_def upd_ioq_def)
  obtain t where "wakeup (ioq_consumer q) ?u = Inr t" "sched_inv t (r # ps)" "wslot t = (wslot ?u)(ioq_consumer q := NULL)"
    "ioqs t = ioqs ?u" "status (tasks t r) = TASK_READY" "running_thread t = running_thread ?u"
    by (rule wakeup_ok [OF u(1,2) assms(6) u(3-5)])
  then show ?thesis using ioq_putchar_room [OF assms(3) _ assms(2), of c] room put(2) assms(5,6) by simp
qed

theorem ioq_putchar_wakes_witness:
  "\<forall>s :: kio. \<exists>t. ioq_putchar 0x4000 0x61 (set_slot (ioq_consumer 0x4000) 0xc0200000 (empty_ioq ((two_threads s)
      \<lparr>tasks := (tasks (two_threads s))(0xc0200000 := (tasks s 0)\<lparr>status := TASK_BLOCKED, self_kstack := 0xc0200e50\<rparr>)\<rparr>))) = Return () t \<and>
    sched_inv t [0xc0200000, 0xc0100000] \<and> queue_of (ioqs t 0x4000) = [0x61]"
proof
  fix s :: kio
  let ?u = "(two_threads s)\<lparr>tasks := (tasks (two_threads s))
      (0xc0200000 := (tasks s 0)\<lparr>status := TASK_BLOCKED, self_kstack := 0xc0200e50\<rparr>)\<rparr>"
  let ?s = "set_slot (ioq_consumer 0x4000) 0xc0200000 (empty_ioq ?u)"
  have "sched_inv ?u [0xc0100000]"
    using two_threads_inv [of s]
    by (simp add: sched_inv_def ready_queue_def saved_ok_def stack_ok_def tag_apart_def two_threads_fields)
  then have inv: "sched_inv ?s [0xc0100000]" by (simp add: empty_ioq_fields)
  have "intr_get_status ?u = INTR_OFF" using two_threads_fields(4) [of s] by (simp add: intr_get_status_def)
  moreover have "tasks ?s = tasks ?u" by (simp add: empty_ioq_def)
  moreover have "tag_apart ?s 0xc0200000"
    by (simp add: tag_apart_def general_tag_def set_slot_def empty_ioq_def two_threads_def list_init_def Let_def)
  ultimately show "\<exists>t. ioq_putchar 0x4000 0x61 ?s = Return () t \<and> sched_inv t [0xc0200000, 0xc0100000] \<and> queue_of (ioqs t 0x4000) = [0x61]"
    using ioq_putchar_wakes [OF inv, of "0x4000" "0xc0200000" "0x61"]
    by (simp add: empty_ioq_fields saved_ok_def frame_def) auto
qed

end
