(* ===== verification/Console.thy ===== *)
theory Console
  imports IOQueue
begin

text \<open>
  \<open>src/device/console.c\<close>: output under a lock.  The lock makes the output of one thread whole; because a
  lock is never given back (\<open>Sync\<close>), only the first thread that prints can ever print again.
\<close>

section \<open>Model\<close>

record kcon = kio +
  console_lock :: addr

definition console_init :: "'a kcon_scheme \<Rightarrow> 'a kcon_scheme" where
  "console_init s = lock_init (console_lock s) s"

definition console_acquire :: "'a kcon_scheme \<Rightarrow> ('a kcon_scheme, unit) run" where
  "console_acquire s = lock_acquire (console_lock s) s"

definition console_release :: "'a kcon_scheme \<Rightarrow> 'a kcon_scheme res" where
  "console_release s = lock_release (console_lock s) s"

definition console_put_str :: "string \<Rightarrow> 'a kcon_scheme \<Rightarrow> ('a kcon_scheme, unit) run" where
  "console_put_str str s = bindR (console_acquire s) (\<lambda>_ s. stepR (console_release (kput_str str s)))"

definition console_put_char :: "u8 \<Rightarrow> 'a kcon_scheme \<Rightarrow> ('a kcon_scheme, unit) run" where
  "console_put_char char_asci s = bindR (console_acquire s) (\<lambda>_ s. stepR (console_release (kput_char char_asci s)))"

definition console_put_int :: "u32 \<Rightarrow> 'a kcon_scheme \<Rightarrow> ('a kcon_scheme, unit) run" where
  "console_put_int num s = bindR (console_acquire s) (\<lambda>_ s. stepR (console_release (kput_int num s)))"

section \<open>Output under a lock\<close>

text \<open>The common form of the three functions.\<close>

definition locked_output :: "(screen \<Rightarrow> screen) \<Rightarrow> 'a kcon_scheme \<Rightarrow> ('a kcon_scheme, unit) run" where
  "locked_output f s = bindR (lock_acquire (console_lock s) s) (\<lambda>_ s. stepR (lock_release (console_lock s) (s\<lparr>scr := f (scr s)\<rparr>)))"

lemma console_put_eq:
  "console_put_str str = locked_output (put_str str)" "console_put_char c = locked_output (put_char c)"
  "console_put_int n = locked_output (put_int n)"
  by (simp_all add: fun_eq_iff console_put_str_def console_put_char_def console_put_int_def locked_output_def
      console_acquire_def console_release_def)

lemma locked_output_avail:
  assumes "lock_avail s (console_lock s)"
  shows "locked_output f s = Return () (lock_held (console_lock s) 0 (s\<lparr>scr := f (scr s)\<rparr>))"
proof -
  let ?l = "console_lock s" and ?s = "s\<lparr>scr := f (scr s)\<rparr>"
  have "(lock_held ?l 1 s)\<lparr>scr := f (scr s)\<rparr> = lock_held ?l 1 ?s" by (simp add: lock_held_def)
  moreover have "console_lock (lock_held ?l 1 s) = ?l" by (simp add: lock_held_def)
  ultimately have "locked_output f s = stepR (lock_release ?l (lock_held ?l 1 ?s))"
    using lock_acquire_avail [OF assms] by (simp add: locked_output_def)
  with lock_held_release [of 1 ?l ?s] show ?thesis by simp
qed

lemma bindR_assoc: "bindR (bindR m f) g = bindR m (\<lambda>a s. bindR (f a s) g)"
proof (coinduction arbitrary: m rule: run.coinduct_strong)
  case Eq_run
  show ?case by (cases m) (auto simp: rel_fun_def)
qed

lemma locked_output_starves:
  fixes s :: "'a kcon_scheme"
  assumes "sem_value s (lock_sema (console_lock s)) = 0" and "lk_holder s (console_lock s) \<noteq> running_thread s"
  shows "\<not> may_return (\<lambda>t. sem_value t (lock_sema (console_lock s)) = 0) (locked_output f s)"
proof
  let ?l = "console_lock s"
  assume m: "may_return (\<lambda>t. sem_value t (lock_sema ?l) = 0) (locked_output f s)"
  obtain g where "locked_output f s = bindR (sema_down_loop (lock_sema ?l) (intr_get_status s) (cli s)) g"
    using assms(2) by (auto simp: locked_output_def lock_acquire_def sema_down_def split_beta bindR_assoc)
  from sema_down_loop_starves [OF m this] assms(1) show False by simp
qed

section \<open>Properties\<close>

text \<open>C32. The console works for one thread only.  A thread that finds the console lock free, or was the last to hold it,
  prints and keeps the lock; every other thread that prints from then on waits for ever, whatever it prints, as
  long as the semaphore is 0, and the output of the first thread leaves it 0.\<close>

theorem console_first_thread_only:
  fixes s :: "'a kcon_scheme"
  assumes "lock_avail s (console_lock s)"
    and "lk_holder s (console_lock s) = running_thread s \<Longrightarrow> sem_value s (lock_sema (console_lock s)) = 0"
  shows "\<exists>t. console_put_str str s = Return () t \<and> scr t = put_str str (scr s) \<and> lock_avail t (console_lock t) \<and>
    lk_holder t (console_lock t) = running_thread s \<and> sem_value t (lock_sema (console_lock t)) = 0 \<and>
    (\<forall>u :: 'a kcon_scheme. console_lock u = console_lock t \<and> lk_holder u = lk_holder t \<and> sem_value u = sem_value t \<and>
       running_thread u \<noteq> running_thread s \<longrightarrow>
       (\<forall>str' c n. \<not> may_return (\<lambda>v. sem_value v (lock_sema (console_lock t)) = 0) (console_put_str str' u) \<and>
          \<not> may_return (\<lambda>v. sem_value v (lock_sema (console_lock t)) = 0) (console_put_char c u) \<and>
          \<not> may_return (\<lambda>v. sem_value v (lock_sema (console_lock t)) = 0) (console_put_int n u)))"
proof -
  let ?t = "lock_held (console_lock s) 0 (s\<lparr>scr := put_str str (scr s)\<rparr>)"
  have l: "console_lock ?t = console_lock s" by (simp add: lock_held_def)
  have t: "scr ?t = put_str str (scr s)" "lock_avail ?t (console_lock s)" "lk_holder ?t (console_lock s) = running_thread s"
    "sem_value ?t (lock_sema (console_lock s)) = 0"
    using assms(2) by (simp_all add: lock_avail_again) (auto simp: lock_held_def)
  have "\<not> may_return (\<lambda>v. sem_value v (lock_sema (console_lock ?t)) = 0) (locked_output f u)"
    if "console_lock u = console_lock ?t" "lk_holder u = lk_holder ?t" "sem_value u = sem_value ?t"
      "running_thread u \<noteq> running_thread s" for u :: "'a kcon_scheme" and f
    using locked_output_starves [of u f] that t l by simp
  then show ?thesis
    using locked_output_avail [OF assms(1)] t l by (intro exI [of _ ?t]) (simp add: console_put_eq)
qed

theorem console_first_thread_only_witness:
  "\<forall>s :: kcon. \<exists>t. console_put_str ''Main '' (s\<lparr>esp := 0xc009ef00, sem_value := \<lambda>_. 1, lk_repeat := \<lambda>_. 0,
      lk_holder := \<lambda>_. NULL\<rparr>) = Return () t \<and> lk_holder t (console_lock t) = 0xc009e000"
proof
  fix s :: kcon
  let ?s = "s\<lparr>esp := 0xc009ef00, sem_value := \<lambda>_. 1, lk_repeat := \<lambda>_. 0, lk_holder := \<lambda>_. NULL\<rparr>"
  have run: "running_thread ?s = 0xc009e000" by (simp add: running_thread_def)
  have "lock_avail ?s (console_lock ?s)" by (simp add: lock_avail_def)
  with console_first_thread_only [of ?s "''Main ''"] run
  show "\<exists>t. console_put_str ''Main '' ?s = Return () t \<and> lk_holder t (console_lock t) = 0xc009e000" by auto
qed

end
