(* ===== verification/Timer.thy ===== *)
theory Timer
  imports Console
begin

text \<open>
  \<open>src/device/timer.c\<close>: the timer interrupt.  Each interrupt charges the running thread one tick of its time
  slice; when the slice is used up the handler calls \<open>schedule\<close>.  \<open>total_ticks\<close> is the global variable \<open>ticks\<close>.
\<close>

section \<open>Model\<close>

abbreviation (input) IRQ0_FREQUENCY :: u32 where "IRQ0_FREQUENCY \<equiv> 100"
abbreviation (input) INPUT_FREQUENCY :: u32 where "INPUT_FREQUENCY \<equiv> 1193180"
abbreviation (input) CONTRER0_PORT :: u8 where "CONTRER0_PORT \<equiv> 0x40"
abbreviation (input) COUNTER0_NO :: u8 where "COUNTER0_NO \<equiv> 0"
abbreviation (input) COUNTER_MODE :: u8 where "COUNTER_MODE \<equiv> 2"
abbreviation (input) READ_WRITE_LATCH :: u8 where "READ_WRITE_LATCH \<equiv> 3"
abbreviation (input) PIT_CONTROL_PORT :: u16 where "PIT_CONTROL_PORT \<equiv> 0x43"

record ktim = kcon +
  total_ticks :: u32

definition COUNTER0_VALUE :: u16 where
  "COUNTER0_VALUE = ucast (INPUT_FREQUENCY div IRQ0_FREQUENCY)"

definition frequency_set :: "u8 \<Rightarrow> u8 \<Rightarrow> u8 \<Rightarrow> u8 \<Rightarrow> u16 \<Rightarrow> 'a ktim_scheme \<Rightarrow> 'a ktim_scheme" where
  "frequency_set counter_port counter_no rwl counter_mode counter_value s =
     (let s = outb PIT_CONTROL_PORT (push_bit 6 counter_no OR push_bit 4 rwl OR push_bit 1 counter_mode) s;
          s = outb (ucast counter_port) (ucast counter_value) s
      in outb (ucast counter_port) (ucast (drop_bit 8 counter_value)) s)"

definition intr_timer_handler :: "'a ktim_scheme \<Rightarrow> ('a ktim_scheme, unit) run" where
  "intr_timer_handler s =
     (let cur_thread = running_thread s in
      assertR (stack_magic (tasks s cur_thread) = 0x19851122) ''intr_timer_handler''
        ''cur_thread->stack_magic == 0x19851122''
       (let s = upd_task cur_thread (\<lambda>t. t\<lparr>elapsed_ticks := elapsed_ticks t + 1\<rparr>) s;
            s = s\<lparr>total_ticks := total_ticks s + 1\<rparr>
        in if 0 = ticks (tasks s cur_thread) then schedule s
           else Return () (upd_task cur_thread (\<lambda>t. t\<lparr>ticks := ticks t - 1\<rparr>) s)))"

definition timer_init :: "'a ktim_scheme \<Rightarrow> 'a ktim_scheme res" where
  "timer_init s =
     (let s = kput_str ''timer_init start\<newline>'' s;
          s = frequency_set CONTRER0_PORT COUNTER0_NO READ_WRITE_LATCH COUNTER_MODE COUNTER0_VALUE s
      in bindE (register_handler 0x20 Intr_timer_handler s) (\<lambda>s. Inr (kput_str ''timer_init done\<newline>'' s)))"

section \<open>The time slice\<close>

text \<open>\<open>n\<close> timer interrupts, one after another, in the same thread.\<close>

fun timer_irqs :: "nat \<Rightarrow> 'a ktim_scheme \<Rightarrow> ('a ktim_scheme, unit) run" where
  "timer_irqs 0 s = Return () s"
| "timer_irqs (Suc n) s = bindR (intr_timer_handler s) (\<lambda>_. timer_irqs n)"

text \<open>The state after \<open>n\<close> ticks charged to thread \<open>p\<close>.\<close>

definition charged :: "addr \<Rightarrow> nat \<Rightarrow> 'a ktim_scheme \<Rightarrow> 'a ktim_scheme" where
  "charged p n s = upd_task p (\<lambda>t. t\<lparr>elapsed_ticks := elapsed_ticks t + of_nat n, ticks := ticks t - of_nat n\<rparr>)
     (s\<lparr>total_ticks := total_ticks s + of_nat n\<rparr>)"

lemma charged_fields [simp]:
  "running_thread (charged p n s) = running_thread s" "intr_get_status (charged p n s) = intr_get_status s"
  "tasks (charged p n s) = (tasks s)(p := (tasks s p)\<lparr>elapsed_ticks := elapsed_ticks (tasks s p) + of_nat n,
     ticks := ticks (tasks s p) - of_nat n\<rparr>)" "total_ticks (charged p n s) = total_ticks s + of_nat n"
  by (simp_all add: charged_def upd_task_def running_thread_def intr_get_status_def)

lemma charged_0 [simp]: "charged p 0 s = s"
  by (simp add: charged_def upd_task_def)

lemma charged_charged: "charged p n (charged p 1 s) = charged p (Suc n) s"
  by (simp add: charged_def upd_task_def algebra_simps)

lemma timer_handler_tick:
  assumes "stack_magic (tasks s p) = 0x19851122" and "ticks (tasks s p) \<noteq> 0" and "p = running_thread s"
  shows "intr_timer_handler s = Return () (charged p 1 s)"
  using assms by (simp add: intr_timer_handler_def Let_def charged_def upd_task_def)

lemma timer_irqs_charge:
  assumes "stack_magic (tasks s p) = 0x19851122" and "p = running_thread s" and "n \<le> unat (ticks (tasks s p))"
  shows "timer_irqs n s = Return () (charged p n s)"
  using assms
proof (induction n arbitrary: s)
  case (Suc n)
  then have "ticks (tasks s p) \<noteq> 0" by auto
  moreover from this have "n \<le> unat (ticks (tasks s p) - 1)" using Suc.prems(3) by (simp add: unat_dec)
  ultimately show ?case
    using Suc.IH [of "charged p 1 s"] Suc.prems by (simp add: timer_handler_tick charged_charged [unfolded One_nat_def])
qed simp

lemma sched_inv_charged: "sched_inv (charged p n s) ps = sched_inv s ps"
proof -
  have "tasks (charged p n s) = (tasks s)(p := (tasks s p)\<lparr>elapsed_ticks := elapsed_ticks (tasks s p) + of_nat n,
     ticks := ticks (tasks s p) - of_nat n\<rparr>)" "esp (charged p n s) = esp s"
    "thread_ready_list (charged p n s) = thread_ready_list s" "list_at (charged p n s) l xs = list_at s l xs" for l xs
    by (simp_all add: charged_def upd_task_def list_at_def)
  then show ?thesis
    by (auto simp: sched_inv_def ready_queue_def saved_ok_def stack_ok_def tag_apart_def Let_def)
qed

lemma timer_handler_expired:
  assumes "stack_magic (tasks s p) = 0x19851122" and "ticks (tasks s p) = 0" and "p = running_thread s"
  defines "u \<equiv> (upd_task p (\<lambda>t. t\<lparr>elapsed_ticks := elapsed_ticks t + 1\<rparr>) s)\<lparr>total_ticks := total_ticks s + 1\<rparr>"
  shows "intr_timer_handler s = schedule u" and "sched_inv u ps = sched_inv s ps" and "running_thread u = p"
    and "intr_get_status u = intr_get_status s" and "total_ticks u = total_ticks s + 1"
    and "priority (tasks u p) = priority (tasks s p)"
proof -
  show "intr_timer_handler s = schedule u"
    using assms(1-3) by (simp add: intr_timer_handler_def Let_def upd_task_def u_def)
  show "sched_inv u ps = sched_inv s ps"
    by (auto simp: u_def upd_task_def sched_inv_def ready_queue_def saved_ok_def stack_ok_def tag_apart_def Let_def
        running_thread_def list_at_def)
qed (use assms(3) in \<open>simp_all add: u_def upd_task_def running_thread_def intr_get_status_def\<close>)

section \<open>Properties\<close>

text \<open>C31. A thread runs for its whole time slice and no longer: the first \<open>ticks\<close> timer interrupts leave it running,
  and the next one puts it at the end of the ready list, with its ticks refilled from its priority, and switches
  to the thread at the front.  Every interrupt is counted.\<close>

theorem timer_slice:
  assumes "sched_inv s ps" and "intr_get_status s = INTR_OFF" and "p = running_thread s"
    and "stack_magic (tasks s p) = 0x19851122" and "n = unat (ticks (tasks s p))"
  shows "\<exists>u s'. timer_irqs n s = Return () u \<and> running_thread u = p \<and> total_ticks u = total_ticks s + of_nat n \<and>
    elapsed_ticks (tasks u p) = elapsed_ticks (tasks s p) + of_nat n \<and>
    intr_timer_handler u = Switch s' (\<lambda>t. Return () (schedule_back t)) \<and>
    running_thread s' = hd (ps @ [p]) \<and> sched_inv (schedule_back s') (tl (ps @ [p])) \<and>
    ticks (tasks s' p) = priority (tasks s p)"
proof -
  let ?u = "charged p n s"
  have "timer_irqs n s = Return () ?u" using assms(3-5) by (intro timer_irqs_charge) simp_all
  moreover have t0: "stack_magic (tasks ?u p) = 0x19851122" "ticks (tasks ?u p) = 0" "p = running_thread ?u"
    using assms(3-5) by simp_all
  define v where "v = (upd_task p (\<lambda>t. t\<lparr>elapsed_ticks := elapsed_ticks t + 1\<rparr>) ?u)\<lparr>total_ticks := total_ticks ?u + 1\<rparr>"
  note ex = timer_handler_expired [OF t0, folded v_def]
  have inv: "sched_inv v ps" using assms(1) unfolding ex(2) sched_inv_charged .
  have off: "intr_get_status v = INTR_OFF" using assms(2) ex(4) by simp
  obtain s' where "schedule_out v = Inr s'" "sched_inv (schedule_back s') (tl (ps @ [p]))" "running_thread s' = hd (ps @ [p])"
    "ticks (tasks s' p) = priority (tasks v p)"
    using schedule_out_running [OF inv off] unfolding ex(3) by metis
  moreover have "priority (tasks v p) = priority (tasks s p)" using ex(6) by simp
  ultimately show ?thesis
    using assms(3) ex(1) by (intro exI [of _ ?u] exI [of _ s']) (simp add: schedule_def)
qed

theorem timer_slice_witness:
  "\<forall>s :: ktim. \<exists>u s'. timer_irqs 2 ((two_threads s)\<lparr>tasks := (tasks (two_threads s))(0xc009e000 :=
      (tasks (two_threads s) 0xc009e000)\<lparr>ticks := 2, stack_magic := 0x19851122\<rparr>)\<rparr>) = Return () u \<and>
    intr_timer_handler u = Switch s' (\<lambda>t. Return () (schedule_back t)) \<and> running_thread s' = 0xc0100000"
proof
  fix s :: ktim
  let ?s = "(two_threads s)\<lparr>tasks := (tasks (two_threads s))(0xc009e000 :=
      (tasks (two_threads s) 0xc009e000)\<lparr>ticks := 2, stack_magic := 0x19851122\<rparr>)\<rparr>"
  have run: "running_thread ?s = 0xc009e000" using two_threads_fields(3) [of s] by simp
  have off: "intr_get_status ?s = INTR_OFF" using two_threads_fields(4) [of s] by (simp add: intr_get_status_def)
  have inv: "sched_inv ?s [0xc0100000]"
    using two_threads_inv [of s] run
    by (simp add: sched_inv_def ready_queue_def saved_ok_def stack_ok_def tag_apart_def two_threads_fields)
  from timer_slice [OF inv off run [symmetric], of 2]
  show "\<exists>u s'. timer_irqs 2 ?s = Return () u \<and> intr_timer_handler u = Switch s' (\<lambda>t. Return () (schedule_back t)) \<and>
    running_thread s' = 0xc0100000" by auto
qed

text \<open>\<open>timer_init\<close> programs counter 0 of the timer chip as a rate generator with the divisor 11931, low byte first,
  so that it interrupts 100 times a second (1193180 / 11931), and registers the handler of vector 0x20.\<close>

theorem timer_init_programs:
  "timer_init s = Inr (s\<lparr>outp := outp s @ [(0x43, 0x34), (0x40, 0x9b), (0x40, 0x2e)],
     scr := put_str ''timer_init done\<newline>'' (put_str ''timer_init start\<newline>'' (scr s)),
     idt_table := (idt_table s)[32 := Intr_timer_handler]\<rparr>) \<and>
   unat COUNTER0_VALUE = 0x2e9b \<and> 1193180 div unat COUNTER0_VALUE = 100"
  by (simp add: timer_init_def frequency_set_def COUNTER0_VALUE_def register_handler_def Let_def drop_bit_eq_div)

end
