(* ===== verification/Keyboard.thy ===== *)
theory Keyboard
  imports Timer
begin

text \<open>
  \<open>src/device/keyboard.c\<close>: the keyboard interrupt.  The byte that \<open>inb\<close> reads from the port of the keyboard is
  an argument of the handler.  The handler keeps the state of the modifier keys and of the prefix 0xe0, and puts
  the characters of the other keys into the queue \<open>kbd_buf\<close>.

  The specification works in two phases on a whole sequence of bytes: \<open>strokes\<close> joins prefixes and codes, and
  \<open>typed\<close> turns scan codes into characters under the modifiers, with a key map in which a key is a letter when
  its lower character is one.
\<close>

section \<open>Model\<close>

abbreviation (input) shift_l_make :: u16 where "shift_l_make \<equiv> 0x2a"
abbreviation (input) shift_r_make :: u16 where "shift_r_make \<equiv> 0x36"
abbreviation (input) alt_l_make :: u16 where "alt_l_make \<equiv> 0x38"
abbreviation (input) alt_r_make :: u16 where "alt_r_make \<equiv> 0xe038"
abbreviation (input) ctrl_l_make :: u16 where "ctrl_l_make \<equiv> 0x1d"
abbreviation (input) ctrl_r_make :: u16 where "ctrl_r_make \<equiv> 0xe01d"
abbreviation (input) caps_lock_make :: u16 where "caps_lock_make \<equiv> 0x3a"

text \<open>Control characters; the keys without a character.\<close>

abbreviation (input) esc :: u8 where "esc \<equiv> 0x1b"
abbreviation (input) backspace :: u8 where "backspace \<equiv> 0x08"
abbreviation (input) tab :: u8 where "tab \<equiv> 0x09"
abbreviation (input) enter :: u8 where "enter \<equiv> 0x0d"
abbreviation (input) char_invisible :: u8 where "char_invisible \<equiv> 0"
abbreviation (input) ctrl_l_char :: u8 where "ctrl_l_char \<equiv> char_invisible"
abbreviation (input) shift_l_char :: u8 where "shift_l_char \<equiv> char_invisible"
abbreviation (input) shift_r_char :: u8 where "shift_r_char \<equiv> char_invisible"
abbreviation (input) alt_l_char :: u8 where "alt_l_char \<equiv> char_invisible"
abbreviation (input) caps_lock_char :: u8 where "caps_lock_char \<equiv> char_invisible"

record kkbd = ktim +
  kbd_buf :: addr
  ctrl_status :: bool
  shift_status :: bool
  alt_status :: bool
  caps_lock_status :: bool
  ext_scancode :: bool

text \<open>The characters without and with shift, by scan code; 0 for keys that have none.\<close>

definition keymap :: "(u8 \<times> u8) list" where
  "keymap =
    [(0, 0), (esc, esc), (0x31, 0x21), (0x32, 0x40), (0x33, 0x23), (0x34, 0x24), (0x35, 0x25), (0x36, 0x5e),
     (0x37, 0x26), (0x38, 0x2a), (0x39, 0x28), (0x30, 0x29), (0x2d, 0x5f), (0x3d, 0x2b), (backspace, backspace), (tab, tab),
     (0x71, 0x51), (0x77, 0x57), (0x65, 0x45), (0x72, 0x52), (0x74, 0x54), (0x79, 0x59), (0x75, 0x55), (0x69, 0x49),
     (0x6f, 0x4f), (0x70, 0x50), (0x5b, 0x7b), (0x5d, 0x7d), (enter, enter), (ctrl_l_char, ctrl_l_char), (0x61, 0x41), (0x73, 0x53),
     (0x64, 0x44), (0x66, 0x46), (0x67, 0x47), (0x68, 0x48), (0x6a, 0x4a), (0x6b, 0x4b), (0x6c, 0x4c), (0x3b, 0x3a),
     (0x27, 0x22), (0x60, 0x7e), (shift_l_char, shift_l_char), (0x5c, 0x7c), (0x7a, 0x5a), (0x78, 0x58), (0x63, 0x43), (0x76, 0x56),
     (0x62, 0x42), (0x6e, 0x4e), (0x6d, 0x4d), (0x2c, 0x3c), (0x2e, 0x3e), (0x2f, 0x3f), (shift_r_char, shift_r_char), (0x2a, 0x2a),
     (alt_l_char, alt_l_char), (0x20, 0x20), (caps_lock_char, caps_lock_char)]"

text \<open>Whether the handler takes the shifted character.\<close>

definition shifted :: "u16 \<Rightarrow> bool \<Rightarrow> bool \<Rightarrow> bool" where
  "shifted scancode shift_down_last caps_lock_last =
     (if scancode < 0x0e \<or> scancode = 0x1a \<or> scancode = 0x1b \<or> scancode = 0x2b \<or> scancode = 0x27 \<or> scancode = 0x28 \<or>
         scancode = 0x29 \<or> scancode = 0x33 \<or> scancode = 0x34 \<or> scancode = 0x35
      then shift_down_last
      else if shift_down_last \<and> caps_lock_last then False
      else if shift_down_last \<or> caps_lock_last then True
      else False)"

text \<open>The branch of the handler for a key that goes up.\<close>

definition key_break :: "u16 \<Rightarrow> 'a kkbd_scheme \<Rightarrow> 'a kkbd_scheme" where
  "key_break scancode s =
     (let make_code = scancode AND 0xff7f in
      if ctrl_l_make = make_code \<or> ctrl_r_make = make_code then s\<lparr>ctrl_status := False\<rparr>
      else if shift_l_make = make_code \<or> shift_r_make = make_code then s\<lparr>shift_status := False\<rparr>
      else if alt_l_make = make_code \<or> alt_r_make = make_code then s\<lparr>alt_status := False\<rparr>
      else s)"

text \<open>The branch for a key of the map that goes down.  \<open>scancode &= 0xff\<close> comes before the tests for the modifiers.\<close>

definition key_make :: "u16 \<Rightarrow> bool \<Rightarrow> bool \<Rightarrow> 'a kkbd_scheme \<Rightarrow> ('a kkbd_scheme, unit) run" where
  "key_make scancode shift_down_last caps_lock_last s =
     (let shift = shifted scancode shift_down_last caps_lock_last;
          scancode = scancode AND 0xff;
          index = unat (ucast scancode :: u8)
      in if length keymap \<le> index then Stop (OutOfBounds index)
         else
           let cur_char = (if shift then snd (keymap ! index) else fst (keymap ! index)) in
           if cur_char \<noteq> 0 then
             (case ioq_full (kbd_buf s) s of
                Inl e \<Rightarrow> Stop e
              | Inr full \<Rightarrow>
                  if \<not> full then let s = kput_char cur_char s in ioq_putchar (kbd_buf s) cur_char s
                  else Return () s)
           else if ctrl_l_make = scancode \<or> ctrl_r_make = scancode then Return () (s\<lparr>ctrl_status := True\<rparr>)
           else if shift_l_make = scancode \<or> shift_r_make = scancode then Return () (s\<lparr>shift_status := True\<rparr>)
           else if alt_l_make = scancode \<or> alt_r_make = scancode then Return () (s\<lparr>alt_status := True\<rparr>)
           else Return () (s\<lparr>caps_lock_status := \<not> caps_lock_status s\<rparr>))"

definition intr_keyboard_handler :: "u8 \<Rightarrow> 'a kkbd_scheme \<Rightarrow> ('a kkbd_scheme, unit) run" where
  "intr_keyboard_handler inb_value s =
     (let shift_down_last = shift_status s;
          caps_lock_last = caps_lock_status s;
          scancode = ucast inb_value :: u16
      in if 0xe0 = scancode then Return () (s\<lparr>ext_scancode := True\<rparr>)
         else
           let (scancode, s) =
             (if ext_scancode s then (scancode OR 0xe000, s\<lparr>ext_scancode := False\<rparr>) else (scancode, s))
           in if 0x80 AND scancode \<noteq> 0 then Return () (key_break scancode s)
              else if scancode > 0 \<and> scancode < 0x3B \<or> alt_r_make = scancode \<or> ctrl_r_make = scancode
              then key_make scancode shift_down_last caps_lock_last s
              else Return () (kput_str ''unknown key\<newline>'' s))"

definition keyboard_init :: "'a kkbd_scheme \<Rightarrow> 'a kkbd_scheme res" where
  "keyboard_init s =
     (let s = kput_str ''keyboard init start\<newline>'' s;
          s = ioqueue_init (kbd_buf s) s
      in bindE (register_handler 0x21 Intr_keyboard_handler s) (\<lambda>s. Inr (kput_str ''keyboard init end\<newline>'' s)))"

section \<open>Specification\<close>

record modifiers =
  m_ctrl :: bool
  m_shift :: bool
  m_alt :: bool
  m_caps :: bool

text \<open>Phase one: the bytes of the keyboard as 16-bit codes; \<open>e\<close> says that a prefix 0xe0 was the last byte.\<close>

fun strokes :: "bool \<Rightarrow> u8 list \<Rightarrow> u16 list" where
  "strokes e [] = []"
| "strokes e (b # bs) = (if b = 0xe0 then strokes True bs
     else (if e then ucast b OR 0xe000 else ucast b) # strokes False bs)"

fun pending_prefix :: "bool \<Rightarrow> u8 list \<Rightarrow> bool" where
  "pending_prefix e [] = e"
| "pending_prefix e (b # bs) = pending_prefix (b = 0xe0) bs"

text \<open>Phase two: bit 7 of a code says that the key goes up.\<close>

definition key_of :: "u16 \<Rightarrow> u16" where
  "key_of code = unset_bit 7 code"

definition modifiers_step :: "u16 \<Rightarrow> modifiers \<Rightarrow> modifiers" where
  "modifiers_step code m =
     (let down = (\<not> bit code 7); k = key_of code in
      if k \<in> {0x1d, 0xe01d} then m\<lparr>m_ctrl := down\<rparr>
      else if k \<in> {0x2a, 0x36} then m\<lparr>m_shift := down\<rparr>
      else if k \<in> {0x38, 0xe038} then m\<lparr>m_alt := down\<rparr>
      else if code = 0x3a then m\<lparr>m_caps := \<not> m_caps m\<rparr>
      else m)"

definition is_letter :: "u8 \<Rightarrow> bool" where
  "is_letter c \<longleftrightarrow> 0x61 \<le> c \<and> c \<le> 0x7a"

text \<open>Caps lock applies to letters only.\<close>

definition key_char :: "modifiers \<Rightarrow> u16 \<Rightarrow> u8" where
  "key_char m code =
     (if code < 0x3b then
        let (lower, upper) = keymap ! unat code in
        if (if is_letter lower then m_shift m \<noteq> m_caps m else m_shift m) then upper else lower
      else 0)"

fun typed :: "modifiers \<Rightarrow> u16 list \<Rightarrow> u8 list" where
  "typed m [] = []"
| "typed m (code # codes) =
     (if key_char m code \<noteq> 0 then [key_char m code] else []) @ typed (modifiers_step code m) codes"

definition mods_of :: "'a kkbd_scheme \<Rightarrow> modifiers" where
  "mods_of s = \<lparr>m_ctrl = ctrl_status s, m_shift = shift_status s, m_alt = alt_status s, m_caps = caps_lock_status s\<rparr>"

section \<open>Refinement\<close>

lemma length_keymap [simp]: "length keymap = 0x3b"
  by (simp add: keymap_def)

text \<open>The handler and the specification agree on every entry of the map and every state of shift and caps lock.\<close>

definition map_agrees :: "nat \<Rightarrow> bool \<Rightarrow> bool \<Rightarrow> bool" where
  "map_agrees n sh cl \<longleftrightarrow>
     (if shifted (of_nat n) sh cl then snd (keymap ! n) else fst (keymap ! n)) =
     (if (if is_letter (fst (keymap ! n)) then sh \<noteq> cl else sh) then snd (keymap ! n) else fst (keymap ! n))"

lemma map_agrees_all:
  "list_all (\<lambda>n. map_agrees n True True \<and> map_agrees n True False \<and> map_agrees n False True \<and> map_agrees n False False) [0..<0x3b]"
  by code_simp

lemma shifted_char:
  assumes "code < 0x3b"
  shows "(if shifted code (m_shift m) (m_caps m) then snd (keymap ! unat code) else fst (keymap ! unat code)) = key_char m code"
proof -
  have n: "unat code < 0x3b" using assms by (simp add: word_less_nat_alt)
  have "map_agrees (unat code) (m_shift m) (m_caps m)"
    using map_agrees_all n unfolding list_all_iff by (cases "m_shift m"; cases "m_caps m") auto
  then show ?thesis
    using assms by (simp add: map_agrees_def key_char_def case_prod_beta)
qed

text \<open>Facts about single codes, from the map.\<close>

definition code_facts :: "nat \<Rightarrow> bool" where
  "code_facts n \<longleftrightarrow>
     (let c = of_nat n :: u16 in
      \<not> bit c 7 \<and> c AND 0xff = c \<and> unat (ucast c :: u8) = n \<and>
      (fst (keymap ! n) = 0) = (n \<in> {0, 0x1d, 0x2a, 0x36, 0x38, 0x3a}) \<and> (snd (keymap ! n) = 0) = (fst (keymap ! n) = 0))"

lemma code_facts_all: "list_all code_facts [0..<0x3b]"
  by code_simp

lemma code_less:
  fixes code :: u16
  assumes "code < 0x3b"
  shows "\<not> bit code 7" and "code AND 0xff = code" and "unat (ucast code :: u8) = unat code"
    and "key_char m code = 0 \<longleftrightarrow> code \<in> {0, 0x1d, 0x2a, 0x36, 0x38, 0x3a}"
proof -
  have "unat code < 0x3b" using assms by (simp add: word_less_nat_alt)
  then have f: "code_facts (unat code)" using code_facts_all unfolding list_all_iff by simp
  then show "\<not> bit code 7" "code AND 0xff = code" "unat (ucast code :: u8) = unat code"
    by (simp_all add: code_facts_def Let_def)
  have "code \<in> {0, 0x1d, 0x2a, 0x36, 0x38, 0x3a} \<longleftrightarrow> unat code \<in> {0, 0x1d, 0x2a, 0x36, 0x38, 0x3a}"
    by (simp add: word_unat_eq_iff)
  with f assms show "key_char m code = 0 \<longleftrightarrow> code \<in> {0, 0x1d, 0x2a, 0x36, 0x38, 0x3a}"
    by (simp add: code_facts_def Let_def key_char_def case_prod_beta)
qed

lemma key_char_big: "\<not> code < 0x3b \<Longrightarrow> key_char m code = 0"
  by (simp add: key_char_def)

lemma bit_7_and: "0x80 AND code \<noteq> 0 \<longleftrightarrow> bit code 7" for code :: u16
proof -
  have "(0x80 :: u16) = 2 ^ 7" by simp
  then show ?thesis by (simp only: and.commute [of _ code] and_exp_eq_0_iff_not_bit) simp
qed

lemma key_of_and: "code AND 0xff7f = key_of code"
proof -
  have "(0xff7f :: u16) = NOT (push_bit 7 1)" by code_simp
  then show ?thesis by (simp only: key_of_def unset_bit_eq_and_not)
qed

lemma key_of_down: "\<not> bit code 7 \<Longrightarrow> key_of code = code"
  by (simp add: key_of_def unset_bit_eq_idem_iff)

text \<open>One code, after the prefix has been dealt with.\<close>

definition key_code :: "u16 \<Rightarrow> 'a kkbd_scheme \<Rightarrow> ('a kkbd_scheme, unit) run" where
  "key_code code s =
     (if bit code 7 then Return () (key_break code s)
      else if code > 0 \<and> code < 0x3B \<or> alt_r_make = code \<or> ctrl_r_make = code
      then key_make code (shift_status s) (caps_lock_status s) s
      else Return () (kput_str ''unknown key\<newline>'' s))"

lemma ucast_prefix: "(0xe0 = (ucast b :: u16)) = (b = 0xe0)" for b :: u8
proof
  assume "0xe0 = (ucast b :: u16)"
  then have "(ucast (0xe0 :: u16) :: u8) = ucast (ucast b :: u16)" by simp
  then show "b = 0xe0" by (simp add: ucast_up_ucast_id is_up)
qed simp

lemma ext_same: "\<not> ext_scancode s \<Longrightarrow> s\<lparr>ext_scancode := False\<rparr> = s"
  by (cases s) simp

lemma handler_code:
  "intr_keyboard_handler b s =
     (if b = 0xe0 then Return () (s\<lparr>ext_scancode := True\<rparr>)
      else key_code (if ext_scancode s then ucast b OR 0xe000 else ucast b) (s\<lparr>ext_scancode := False\<rparr>))"
  unfolding intr_keyboard_handler_def Let_def ucast_prefix bit_7_and
  by (cases "ext_scancode s") (simp_all add: key_code_def ext_same)

text \<open>The modifiers and the queue after a code.\<close>

definition kbd_quiet :: "'a kkbd_scheme \<Rightarrow> bool" where
  "kbd_quiet s \<longleftrightarrow> ioq_quiet (kbd_buf s) s"

abbreviation kbd_queue :: "'a kkbd_scheme \<Rightarrow> u8 list" where
  "kbd_queue s \<equiv> queue_of (ioqs s (kbd_buf s))"

definition after_code :: "u16 \<Rightarrow> 'a kkbd_scheme \<Rightarrow> 'a kkbd_scheme \<Rightarrow> bool" where
  "after_code code s t \<longleftrightarrow> kbd_quiet t \<and> kbd_buf t = kbd_buf s \<and> ext_scancode t = ext_scancode s \<and>
     mods_of t = modifiers_step code (mods_of s) \<and>
     kbd_queue t = take 63 (kbd_queue s @ (if key_char (mods_of s) code \<noteq> 0 then [key_char (mods_of s) code] else []))"

lemma kbd_fields [simp]:
  "kbd_quiet (s\<lparr>ctrl_status := b\<rparr>) = kbd_quiet s" "kbd_quiet (s\<lparr>shift_status := b\<rparr>) = kbd_quiet s"
  "kbd_quiet (s\<lparr>alt_status := b\<rparr>) = kbd_quiet s" "kbd_quiet (s\<lparr>caps_lock_status := b\<rparr>) = kbd_quiet s"
  "kbd_quiet (s\<lparr>ext_scancode := b\<rparr>) = kbd_quiet s" "kbd_quiet (s\<lparr>scr := a\<rparr>) = kbd_quiet s"
  "mods_of (s\<lparr>ext_scancode := b\<rparr>) = mods_of s" "mods_of (s\<lparr>scr := a\<rparr>) = mods_of s"
  by (simp_all add: kbd_quiet_def ioq_quiet_def intr_get_status_def mods_of_def)

lemma kbd_queue_take: "kbd_quiet s \<Longrightarrow> take 63 (kbd_queue s) = kbd_queue s"
  using ring_length_le [of "ioqs s (kbd_buf s)"] by simp

lemma key_break_after:
  assumes "kbd_quiet s" and "bit code 7"
  shows "after_code code s (key_break code s)"
proof -
  have "\<not> code < 0x3b" using assms(2) code_less(1) by blast
  moreover have "code \<noteq> 0x3a" using assms(2) by auto
  ultimately show ?thesis
    using assms kbd_queue_take [OF assms(1)]
    by (simp add: after_code_def key_break_def key_of_and Let_def modifiers_step_def key_char_big mods_of_def)
qed

lemma put_key:
  assumes "kbd_quiet s"
  shows "\<exists>t. (case ioq_full (kbd_buf s) s of
        Inl e \<Rightarrow> Stop e
      | Inr full \<Rightarrow> if \<not> full then ioq_putchar (kbd_buf s) c (kput_char c s) else Return () s) = Return () t \<and>
    kbd_quiet t \<and> kbd_buf t = kbd_buf s \<and> ext_scancode t = ext_scancode s \<and> mods_of t = mods_of s \<and>
    kbd_queue t = take 63 (kbd_queue s @ [c])"
proof -
  let ?q = "ioqs s (kbd_buf s)" and ?s = "s\<lparr>scr := put_char c (scr s)\<rparr>"
  have q: "ring_ok ?q" "intr_get_status s = INTR_OFF" "wslot s (ioq_consumer (kbd_buf s)) = NULL"
    using assms by (simp_all add: kbd_quiet_def ioq_quiet_def)
  have full: "ioq_full (kbd_buf s) s = Inr (ring_length ?q = 63)" using q by (simp add: ioq_full_def ring_full)
  show ?thesis
  proof (cases "ring_length ?q = 63")
    case True
    then show ?thesis using assms full by simp
  next
    case False
    then have room: "ring_length ?q < 63" using ring_length_le [of ?q] by simp
    let ?t = "upd_ioq (kbd_buf s) (ring_put c) ?s"
    have "ioq_putchar (kbd_buf s) c ?s = Return () ?t"
      using ioq_putchar_room [of ?s "kbd_buf s" c] q room by (simp add: intr_get_status_def)
    moreover have "kbd_quiet ?t" using assms ring_put_ok(1) [OF q(1)] room
      by (simp add: kbd_quiet_def ioq_quiet_def upd_ioq_def intr_get_status_def)
    moreover have "kbd_buf ?t = kbd_buf s" "ext_scancode ?t = ext_scancode s" "mods_of ?t = mods_of s"
      by (simp_all add: upd_ioq_def mods_of_def)
    moreover have "kbd_queue ?t = kbd_queue s @ [c]"
      using ring_put_ok(2) [OF q(1)] room by (simp add: upd_ioq_def)
    ultimately show ?thesis using full False room by simp
  qed
qed

lemma key_make_after:
  assumes q: "kbd_quiet s" and c: "code < 0x3b" "code \<noteq> 0"
  shows "\<exists>t. key_make code (shift_status s) (caps_lock_status s) s = Return () t \<and> after_code code s t"
proof -
  note cl = code_less [OF c(1)]
  have idx: "unat code < 0x3b" using c(1) by (simp add: word_less_nat_alt)
  have ch: "(if shifted code (shift_status s) (caps_lock_status s) then snd (keymap ! unat code) else fst (keymap ! unat code)) =
      key_char (mods_of s) code"
    using shifted_char [OF c(1), of "mods_of s"] by (simp add: mods_of_def)
  show ?thesis
  proof (cases "key_char (mods_of s) code = 0")
    case False
    then have "code \<notin> {0, 0x1d, 0x2a, 0x36, 0x38, 0x3a}" using cl(4) by blast
    moreover have "code \<noteq> 0xe01d" "code \<noteq> 0xe038" using c(1) by auto
    ultimately have "modifiers_step code (mods_of s) = mods_of s"
      using cl(1) by (simp add: modifiers_step_def key_of_down Let_def)
    moreover have "key_make code (shift_status s) (caps_lock_status s) s = (case ioq_full (kbd_buf s) s of
        Inl e \<Rightarrow> Stop e
      | Inr full \<Rightarrow> if \<not> full then ioq_putchar (kbd_buf s) (key_char (mods_of s) code) (kput_char (key_char (mods_of s) code) s)
          else Return () s)"
      unfolding key_make_def Let_def cl(2,3) ch using False idx by (simp split: sum.split)
    ultimately show ?thesis
      using put_key [OF q, of "key_char (mods_of s) code"] False by (simp only: after_code_def) simp
  next
    case True
    then have m: "code \<in> {0x1d, 0x2a, 0x36, 0x38, 0x3a}" using cl(4) c(2) by blast
    have q': "take 63 (kbd_queue s) = kbd_queue s" using q by (rule kbd_queue_take)
    show ?thesis
      using m True idx cl(1,2,3) ch q q'
      by (auto simp: key_make_def Let_def after_code_def modifiers_step_def key_of_down mods_of_def)
  qed
qed

lemma key_code_after:
  assumes q: "kbd_quiet s"
  shows "\<exists>t. key_code code s = Return () t \<and> after_code code s t"
proof (cases "bit code 7")
  case True
  then show ?thesis using key_break_after [OF q] by (simp add: key_code_def)
next
  case down: False
  have q': "take 63 (kbd_queue s) = kbd_queue s" using q by (rule kbd_queue_take)
  consider "code < 0x3b" "code \<noteq> 0" | "code = 0xe038" | "code = 0xe01d"
    | "code = 0 \<or> \<not> code < 0x3b" "code \<noteq> 0xe038" "code \<noteq> 0xe01d" by blast
  then show ?thesis
  proof cases
    case 1
    then show ?thesis using key_make_after [OF q 1] down by (simp add: key_code_def word_gt_0)
  next
    case 2
    have "(0xe038 :: u16) AND 0xff = 0x38" "\<not> bit (0xe038 :: u16) 7" "keymap ! 0x38 = (0, 0)" by code_simp+
    then show ?thesis
      using 2 q q' by (simp add: key_code_def key_make_def Let_def after_code_def modifiers_step_def key_of_down mods_of_def key_char_big)
  next
    case 3
    have "(0xe01d :: u16) AND 0xff = 0x1d" "\<not> bit (0xe01d :: u16) 7" "keymap ! 0x1d = (0, 0)" by code_simp+
    then show ?thesis
      using 3 q q' by (simp add: key_code_def key_make_def Let_def after_code_def modifiers_step_def key_of_down mods_of_def key_char_big)
  next
    case 4
    then have "modifiers_step code (mods_of s) = mods_of s" using down by (auto simp: modifiers_step_def key_of_down Let_def)
    moreover have "key_char (mods_of s) code = 0" using 4(1) code_less(4) [of 0 "mods_of s"] key_char_big by auto
    moreover have "key_code code s = Return () (kput_str ''unknown key\<newline>'' s)" using 4 down by (auto simp: key_code_def)
    ultimately show ?thesis using q q' by (simp add: after_code_def)
  qed
qed

section \<open>Sequences of interrupts\<close>

fun kbd_bytes :: "u8 list \<Rightarrow> 'a kkbd_scheme \<Rightarrow> ('a kkbd_scheme, unit) run" where
  "kbd_bytes [] s = Return () s"
| "kbd_bytes (b # bs) s = bindR (intr_keyboard_handler b s) (\<lambda>_. kbd_bytes bs)"

lemma take_take_append: "take n (take n xs @ ys) = take n (xs @ ys)"
  by (simp add: min_def)

lemma kbd_bytes_after:
  assumes "kbd_quiet s"
  shows "\<exists>t. kbd_bytes bs s = Return () t \<and> kbd_quiet t \<and> kbd_buf t = kbd_buf s \<and>
    ext_scancode t = pending_prefix (ext_scancode s) bs \<and>
    mods_of t = fold modifiers_step (strokes (ext_scancode s) bs) (mods_of s) \<and>
    kbd_queue t = take 63 (kbd_queue s @ typed (mods_of s) (strokes (ext_scancode s) bs))"
  using assms
proof (induction bs arbitrary: s)
  case Nil
  then show ?case using kbd_queue_take [of s] by simp
next
  case (Cons b bs)
  show ?case
  proof (cases "b = 0xe0")
    case True
    then show ?thesis using Cons.IH [of "s\<lparr>ext_scancode := True\<rparr>"] Cons.prems by (simp add: handler_code)
  next
    case False
    define code where "code = (if ext_scancode s then ucast b OR 0xe000 else ucast b :: u16)"
    let ?s = "s\<lparr>ext_scancode := False\<rparr>"
    have "kbd_quiet ?s" using Cons.prems by simp
    from key_code_after [OF this, of code] obtain u where u: "key_code code ?s = Return () u" "after_code code ?s u" by blast
    then have uq: "kbd_quiet u" and uf: "kbd_buf u = kbd_buf s" "\<not> ext_scancode u" "mods_of u = modifiers_step code (mods_of s)"
      "kbd_queue u = take 63 (kbd_queue s @ (if key_char (mods_of s) code \<noteq> 0 then [key_char (mods_of s) code] else []))"
      by (auto simp: after_code_def simp del: take_append cong: if_cong)
    have st: "strokes (ext_scancode s) (b # bs) = code # strokes False bs" using False by (simp add: code_def)
    have ty: "typed (mods_of s) (strokes (ext_scancode s) (b # bs)) =
        (if key_char (mods_of s) code \<noteq> 0 then [key_char (mods_of s) code] else []) @ typed (mods_of u) (strokes False bs)"
      unfolding st uf(3) by (simp only: typed.simps)
    from Cons.IH [OF uq] obtain t where t: "kbd_bytes bs u = Return () t" "kbd_quiet t" "kbd_buf t = kbd_buf u"
      "ext_scancode t = pending_prefix False bs" "mods_of t = fold modifiers_step (strokes False bs) (mods_of u)"
      "kbd_queue t = take 63 (kbd_queue u @ typed (mods_of u) (strokes False bs))"
      using uf(2) by auto
    have "kbd_queue t = take 63 (kbd_queue s @ typed (mods_of s) (strokes (ext_scancode s) (b # bs)))"
      unfolding t(6) uf(4) ty by (simp only: take_take_append append_assoc)
    moreover have "intr_keyboard_handler b s = Return () u" using u(1) False by (simp only: handler_code if_False code_def)
    moreover have "mods_of t = fold modifiers_step (strokes (ext_scancode s) (b # bs)) (mods_of s)"
      unfolding st t(5) uf(3) by (simp only: fold_simps)
    ultimately show ?thesis using t(1-4) uf(1) False by (intro exI [of _ t]) simp
  qed
qed

section \<open>Properties\<close>

text \<open>C30. The keyboard handler implements the specification on every sequence of bytes: starting with no reader
  waiting, the interrupts for any bytes all return, and leave in the queue what was there and the characters that
  the bytes type, in order, cut off after 63 characters; the modifiers are those of the keys that are down, with
  caps lock toggled, and the prefix flag says whether the last byte was 0xe0.\<close>

theorem keyboard_refines:
  assumes "kbd_quiet s"
  shows "\<exists>t. kbd_bytes bs s = Return () t \<and> kbd_quiet t \<and>
    ext_scancode t = pending_prefix (ext_scancode s) bs \<and>
    mods_of t = fold modifiers_step (strokes (ext_scancode s) bs) (mods_of s) \<and>
    queue_of (ioqs t (kbd_buf t)) =
      take 63 (queue_of (ioqs s (kbd_buf s)) @ typed (mods_of s) (strokes (ext_scancode s) bs))"
  using kbd_bytes_after [OF assms, of bs] by blast

text \<open>The example types \<open>A\<close> with the left shift key, releases shift, types \<open>a\<close>, presses the right control key and types
  \<open>1\<close> with caps lock on.\<close>

theorem keyboard_refines_witness:
  "\<forall>s :: kkbd. \<exists>t. kbd_bytes [0x2a, 0x1e, 0xaa, 0x1e, 0xe0, 0x1d, 0x3a, 0x02]
     ((empty_ioq (s\<lparr>eflags := 2\<rparr>))\<lparr>ctrl_status := False, shift_status := False, alt_status := False,
        caps_lock_status := False, ext_scancode := False\<rparr>) = Return () t \<and>
     queue_of (ioqs t (kbd_buf t)) = [0x41, 0x61, 0x31] \<and> mods_of t = \<lparr>m_ctrl = True, m_shift = False, m_alt = False, m_caps = True\<rparr>"
proof
  fix s :: kkbd
  let ?s = "(empty_ioq (s\<lparr>eflags := 2\<rparr>))\<lparr>ctrl_status := False, shift_status := False, alt_status := False,
        caps_lock_status := False, ext_scancode := False\<rparr>"
  let ?m = "\<lparr>m_ctrl = False, m_shift = False, m_alt = False, m_caps = False\<rparr>"
  let ?bs = "[0x2a, 0x1e, 0xaa, 0x1e, 0xe0, 0x1d, 0x3a, 0x02]"
  have q: "kbd_quiet ?s"
    by (simp add: kbd_quiet_def ioq_quiet_def empty_ioq_fields) (simp add: empty_ioq_def intr_get_status_def ring_ok_def)
  have m: "mods_of ?s = ?m" "queue_of (ioqs ?s (kbd_buf ?s)) = []"
    by (simp_all add: mods_of_def) (simp add: empty_ioq_def queue_of_def ring_length_def)
  have "typed ?m (strokes False ?bs) = [0x41, 0x61, 0x31]" by code_simp
  moreover have "fold modifiers_step (strokes False ?bs) ?m = \<lparr>m_ctrl = True, m_shift = False, m_alt = False, m_caps = True\<rparr>"
    by code_simp
  ultimately show "\<exists>t. kbd_bytes ?bs ?s = Return () t \<and> queue_of (ioqs t (kbd_buf t)) = [0x41, 0x61, 0x31] \<and>
      mods_of t = \<lparr>m_ctrl = True, m_shift = False, m_alt = False, m_caps = True\<rparr>"
    using keyboard_refines [OF q, of ?bs] unfolding m by auto
qed

end
