(* ===== verification/Tss.thy ===== *)
theory Tss
  imports Keyboard
begin

text \<open>
  \<open>src/userprog/tss.c\<close> and the segment descriptor constants of \<open>src/kernel/global.h\<close>: the task state segment
  and the descriptors of the segments that user code runs in.  The descriptor table is \<open>gdt\<close>, by index;
  \<open>gdtr\<close> and \<open>tr\<close> are the registers that \<open>lgdt\<close> and \<open>ltr\<close> load.

  \<open>desc_base\<close>, \<open>desc_limit\<close> and \<open>desc_top\<close> are what the processor reads from a descriptor: the base address, the
  20-bit limit, and the last valid offset, in bytes or in pages as the granularity bit says.
\<close>

section \<open>Model\<close>

record tss =
  backlink :: u32
  esp0 :: u32
  ss0 :: u32
  esp1 :: u32
  ss1 :: u32
  esp2 :: u32
  ss2 :: u32
  tss_cr3 :: u32
  tss_eip :: u32
  tss_eflags :: u32
  tss_eax :: u32
  tss_ecx :: u32
  tss_edx :: u32
  tss_ebx :: u32
  tss_esp :: u32
  tss_ebp :: u32
  tss_esi :: u32
  tss_edi :: u32
  tss_es :: u32
  tss_cs :: u32
  tss_ss :: u32
  tss_ds :: u32
  tss_fs :: u32
  tss_gs :: u32
  ldt :: u32
  trace :: u32
  io_base :: u32

record gdt_desc =
  limit_low_word :: u16
  base_low_word :: u16
  base_mid_byte :: u8
  attr_low_byte :: u8
  limit_high_attr_high :: u8
  base_high_byte :: u8

record ktss = kkbd +
  the_tss :: tss
  gdt :: "nat \<Rightarrow> gdt_desc"
  gdtr :: u64
  tr :: u16

abbreviation (input) sizeof_tss :: u32 where "sizeof_tss \<equiv> 108"
abbreviation (input) LOADER_BASE_ADDR :: u32 where "LOADER_BASE_ADDR \<equiv> 0x900"
abbreviation (input) GDT_BASE :: u32 where "GDT_BASE \<equiv> LOADER_BASE_ADDR"

text \<open>The parts of segment attributes.\<close>

abbreviation (input) DESC_G_4K :: u8 where "DESC_G_4K \<equiv> 1"
abbreviation (input) DESC_D_32 :: u8 where "DESC_D_32 \<equiv> 1"
abbreviation (input) DESC_L :: u8 where "DESC_L \<equiv> 0"
abbreviation (input) DESC_AVL :: u8 where "DESC_AVL \<equiv> 0"
abbreviation (input) DESC_P :: u8 where "DESC_P \<equiv> 1"
abbreviation (input) DESC_DPL_0 :: u8 where "DESC_DPL_0 \<equiv> 0"
abbreviation (input) DESC_DPL_3 :: u8 where "DESC_DPL_3 \<equiv> 3"
abbreviation (input) DESC_S_CODE :: u8 where "DESC_S_CODE \<equiv> 1"
abbreviation (input) DESC_S_DATA :: u8 where "DESC_S_DATA \<equiv> DESC_S_CODE"
abbreviation (input) DESC_S_SYS :: u8 where "DESC_S_SYS \<equiv> 0"
abbreviation (input) DESC_TYPE_CODE :: u8 where "DESC_TYPE_CODE \<equiv> 8"
abbreviation (input) DESC_TYPE_DATA :: u8 where "DESC_TYPE_DATA \<equiv> 2"
abbreviation (input) DESC_TYPE_TSS :: u8 where "DESC_TYPE_TSS \<equiv> 9"
abbreviation (input) TSS_DESC_D :: u8 where "TSS_DESC_D \<equiv> 0"

definition SELECTOR_K_STACK :: u16 where "SELECTOR_K_STACK = push_bit 3 2 OR push_bit 2 TI_GDT_2 OR RPL1_0_0"
definition SELECTOR_TSS :: u16 where "SELECTOR_TSS = push_bit 3 4 OR push_bit 2 TI_GDT_2 OR RPL1_0_0"
definition SELECTOR_U_CODE :: u16 where "SELECTOR_U_CODE = push_bit 3 5 OR push_bit 2 TI_GDT_2 OR RPL1_0_3"
definition SELECTOR_U_DATA :: u16 where "SELECTOR_U_DATA = push_bit 3 6 OR push_bit 2 TI_GDT_2 OR RPL1_0_3"

text \<open>\<open>GDT_ATTR_HIGH\<close> has \<open>||\<close> where the other attributes have \<open>|\<close>.\<close>

definition GDT_ATTR_HIGH :: u8 where
  "GDT_ATTR_HIGH = (if push_bit 7 DESC_G_4K OR push_bit 6 DESC_D_32 \<noteq> 0 \<or> push_bit 5 DESC_L OR push_bit 4 DESC_AVL \<noteq> 0 then 1 else 0)"

definition GDT_CODE_ATTR_LOW_DPL3 :: u8 where
  "GDT_CODE_ATTR_LOW_DPL3 = push_bit 7 DESC_P OR push_bit 5 DESC_DPL_3 OR push_bit 4 DESC_S_CODE OR DESC_TYPE_CODE"

definition GDT_DATA_ATTR_LOW_DPL3 :: u8 where
  "GDT_DATA_ATTR_LOW_DPL3 = push_bit 7 DESC_P OR push_bit 5 DESC_DPL_3 OR push_bit 4 DESC_S_DATA OR DESC_TYPE_DATA"

definition TSS_ATTR_HIGH :: u8 where
  "TSS_ATTR_HIGH = push_bit 7 DESC_G_4K OR push_bit 6 TSS_DESC_D OR push_bit 5 DESC_L OR push_bit 4 DESC_AVL OR 0"

definition TSS_ATTR_LOW :: u8 where
  "TSS_ATTR_LOW = push_bit 7 DESC_P OR push_bit 5 DESC_DPL_0 OR push_bit 4 DESC_S_SYS OR DESC_TYPE_TSS"

definition zero_tss :: tss where
  "zero_tss = \<lparr>backlink = 0, esp0 = 0, ss0 = 0, esp1 = 0, ss1 = 0, esp2 = 0, ss2 = 0, tss_cr3 = 0, tss_eip = 0, tss_eflags = 0,
     tss_eax = 0, tss_ecx = 0, tss_edx = 0, tss_ebx = 0, tss_esp = 0, tss_ebp = 0, tss_esi = 0, tss_edi = 0, tss_es = 0,
     tss_cs = 0, tss_ss = 0, tss_ds = 0, tss_fs = 0, tss_gs = 0, ldt = 0, trace = 0, io_base = 0\<rparr>"

definition update_tss_esp :: "addr \<Rightarrow> 'a ktss_scheme \<Rightarrow> 'a ktss_scheme" where
  "update_tss_esp pthread s = s\<lparr>the_tss := (the_tss s)\<lparr>esp0 := pthread + PG_SIZE\<rparr>\<rparr>"

definition make_gdt_desc :: "u32 \<Rightarrow> u32 \<Rightarrow> u8 \<Rightarrow> u8 \<Rightarrow> gdt_desc" where
  "make_gdt_desc desc_addr limit attr_low attr_high =
     \<lparr>limit_low_word = ucast (limit AND 0xffff), base_low_word = ucast (desc_addr AND 0xffff),
      base_mid_byte = ucast (drop_bit 16 (desc_addr AND 0xff0000)), attr_low_byte = attr_low,
      limit_high_attr_high = ucast (drop_bit 16 (limit AND 0xf0000) OR ucast attr_high :: u32),
      base_high_byte = ucast (drop_bit 24 desc_addr)\<rparr>"

definition gdt_operand :: u64 where
  "gdt_operand = (8 * 7 - 1) OR push_bit 16 (ucast (0xc0000000 + GDT_BASE :: u32))"

text \<open>\<open>tss_addr\<close> is the address of the variable \<open>tss\<close>.\<close>

definition tss_init :: "u32 \<Rightarrow> 'a ktss_scheme \<Rightarrow> 'a ktss_scheme" where
  "tss_init tss_addr s =
     (let s = kput_str ''tss_init start\<newline>'' s;
          s = s\<lparr>the_tss := zero_tss\<rparr>;
          s = s\<lparr>the_tss := (the_tss s)\<lparr>ss0 := ucast SELECTOR_K_STACK\<rparr>\<rparr>;
          s = s\<lparr>the_tss := (the_tss s)\<lparr>io_base := sizeof_tss\<rparr>\<rparr>;
          s = s\<lparr>gdt := (gdt s)(4 := make_gdt_desc tss_addr (sizeof_tss - 1) TSS_ATTR_LOW TSS_ATTR_HIGH)\<rparr>;
          s = s\<lparr>gdt := (gdt s)(5 := make_gdt_desc NULL 0xfffff GDT_CODE_ATTR_LOW_DPL3 GDT_ATTR_HIGH)\<rparr>;
          s = s\<lparr>gdt := (gdt s)(6 := make_gdt_desc NULL 0xfffff GDT_DATA_ATTR_LOW_DPL3 GDT_ATTR_HIGH)\<rparr>;
          s = s\<lparr>gdtr := gdt_operand\<rparr>;
          s = s\<lparr>tr := SELECTOR_TSS\<rparr>
      in kput_str ''tss_init and ltr done\<newline>'' s)"

section \<open>What the processor reads\<close>

definition desc_base :: "gdt_desc \<Rightarrow> u32" where
  "desc_base d = ucast (base_low_word d) OR push_bit 16 (ucast (base_mid_byte d)) OR push_bit 24 (ucast (base_high_byte d))"

definition desc_limit :: "gdt_desc \<Rightarrow> u32" where
  "desc_limit d = ucast (limit_low_word d) OR push_bit 16 (ucast (limit_high_attr_high d) AND 0xf)"

definition desc_top :: "gdt_desc \<Rightarrow> u32" where
  "desc_top d = (if bit (limit_high_attr_high d) 7 then push_bit 12 (desc_limit d) OR 0xfff else desc_limit d)"

definition desc_dpl :: "gdt_desc \<Rightarrow> u8" where
  "desc_dpl d = drop_bit 5 (attr_low_byte d) AND 3"

definition desc_32bit :: "gdt_desc \<Rightarrow> bool" where
  "desc_32bit d = bit (limit_high_attr_high d) 6"

lemma seg_masks:
  "(0xffff :: u32) = mask 16" "(0xf :: u32) = mask 4" "(0xff0000 :: u32) = push_bit 16 (mask 8)"
  "(0xf0000 :: u32) = push_bit 16 (mask 4)" "(0xf :: u8) = mask 4"
  by (simp_all add: mask_eq_exp_minus_1 push_bit_eq_mult)

lemma desc_base_make: "desc_base (make_gdt_desc a l lo hi) = a"
proof (rule bit_word_eqI)
  fix n
  assume n: "n < LENGTH(32)"
  have "bit (desc_base (make_gdt_desc a l lo hi)) n =
      (bit a n \<and> n < 16 \<or> 16 \<le> n \<and> n < 24 \<and> bit a (16 + (n - 16)) \<or> 24 \<le> n \<and> bit a (24 + (n - 24)))"
    unfolding desc_base_def make_gdt_desc_def seg_masks gdt_desc.simps using n by (auto simp: bit_simps simp del: take_bit_eq_mask)
  then show "bit (desc_base (make_gdt_desc a l lo hi)) n = bit a n"
    by (cases "n < 16"; cases "n < 24") auto
qed

lemma desc_limit_make:
  assumes "l < 2 ^ 20" and "hi AND 0xf = 0"
  shows "desc_limit (make_gdt_desc a l lo hi) = l"
proof (rule bit_word_eqI)
  fix n
  assume n: "n < LENGTH(32)"
  have "bit (hi AND 0xf) k = (bit hi k \<and> k < 4)" for k unfolding seg_masks by (auto simp: bit_simps)
  with assms(2) have hi: "\<not> bit hi k" if "k < 4" for k using that by auto
  have "take_bit 20 l = l" using assms(1) by (simp add: word_unat_eq_iff take_bit_eq_mod unat_mod word_less_nat_alt)
  then have l: "\<not> bit l k" if "20 \<le> k" for k using that by (metis bit_take_bit_iff leD)
  have "bit (desc_limit (make_gdt_desc a l lo hi)) n =
      (bit l n \<and> n < 16 \<or> 16 \<le> n \<and> n < 20 \<and> (bit l (16 + (n - 16)) \<or> bit hi (n - 16)))"
    unfolding desc_limit_def make_gdt_desc_def seg_masks gdt_desc.simps using n by (auto simp: bit_simps simp del: take_bit_eq_mask)
  then show "bit (desc_limit (make_gdt_desc a l lo hi)) n = bit l n"
    using hi [of "n - 16"] l [of n] by (cases "n < 16"; cases "n < 20") auto
qed

text \<open>The last offset of the user code segment that \<open>tss_init\<close> describes.\<close>

lemma tss_init_code_top: "desc_top (gdt (tss_init a s) 5) = 0xfffff"
proof -
  have "desc_top (make_gdt_desc NULL 0xfffff GDT_CODE_ATTR_LOW_DPL3 GDT_ATTR_HIGH) = 0xfffff" by code_simp
  then show ?thesis by (simp add: tss_init_def Let_def)
qed

section \<open>Properties\<close>

text \<open>C33. \<open>make_gdt_desc\<close> spreads base and limit over the fields of a descriptor such that the processor reads the same base
  and, when the low half of the high attributes is clear, the same 20-bit limit.  \<open>tss_init\<close> so describes the task state
  segment, with the kernel stack selector and the size of the structure in \<open>io_base\<close>, and loads the task register and a
  table register that covers seven descriptors from 0xc0000900 on.  The limit of the segment counts pages, so that its last
  byte is 0x6bfff, and the half word at offset 102, where the processor looks for the offset of the I/O map, is the high half
  of \<open>trace\<close>, which is 0.\<close>

theorem tss_init_describes:
  "(\<forall>a l lo hi. l < 2 ^ 20 \<and> hi AND 0xf = 0 \<longrightarrow>
     desc_base (make_gdt_desc a l lo hi) = a \<and> desc_limit (make_gdt_desc a l lo hi) = l) \<and>
   (let t = tss_init tss_addr s in
     desc_base (gdt t 4) = tss_addr \<and> desc_limit (gdt t 4) = 107 \<and> attr_low_byte (gdt t 4) = 0x89 \<and>
     desc_top (gdt t 4) = 0x6bfff \<and> drop_bit 16 (trace (the_tss t)) = 0 \<and>
     the_tss t = zero_tss\<lparr>ss0 := 0x10, io_base := 108\<rparr> \<and> tr t = 4 * 8 \<and>
     take_bit 16 (gdtr t) = 7 * 8 - 1 \<and> drop_bit 16 (gdtr t) = 0xc0000900 \<and>
     (\<forall>i. i \<notin> {4, 5, 6} \<longrightarrow> gdt t i = gdt s i))"
proof -
  have "TSS_ATTR_HIGH AND 0xf = 0" "TSS_ATTR_LOW = 0x89" "SELECTOR_TSS = 4 * 8" "ucast SELECTOR_K_STACK = (0x10 :: u32)"
    "take_bit 16 gdt_operand = 7 * 8 - 1" "drop_bit 16 gdt_operand = 0xc0000900"
    by code_simp+
  moreover have "bit TSS_ATTR_HIGH 7" "push_bit 12 107 OR 0xfff = (0x6bfff :: u32)" by code_simp+
  moreover have "bit (limit_high_attr_high (make_gdt_desc tss_addr 107 0x89 TSS_ATTR_HIGH)) 7 = bit TSS_ATTR_HIGH 7"
    by (simp add: make_gdt_desc_def bit_simps)
  ultimately show ?thesis
    by (simp add: tss_init_def Let_def desc_base_make desc_limit_make desc_top_def)
      (simp add: make_gdt_desc_def zero_tss_def)
qed

text \<open>The user segments are too small.  \<open>GDT_ATTR_HIGH\<close> is 1 and not 0xc0: the granularity bit and the 32-bit bit of the
  user code and data segments are clear, so the last offset that user code may use is 0xfffff, below the address
  0x8048000 at which user memory starts.\<close>

theorem user_segments_too_small:
  "let t = tss_init tss_addr s in
   GDT_ATTR_HIGH = 1 \<and>
   (\<forall>i \<in> {5, 6}. desc_dpl (gdt t i) = 3 \<and> desc_base (gdt t i) = 0 \<and> \<not> desc_32bit (gdt t i) \<and>
      desc_top (gdt t i) = 0xfffff \<and> desc_top (gdt t i) < 0x8048000) \<and>
   desc_top (make_gdt_desc NULL 0xfffff GDT_CODE_ATTR_LOW_DPL3 0xc0) = 0xffffffff"
proof -
  have "GDT_ATTR_HIGH = 1" "desc_top (make_gdt_desc NULL 0xfffff GDT_CODE_ATTR_LOW_DPL3 0xc0) = 0xffffffff"
    "list_all (\<lambda>lo. desc_dpl (make_gdt_desc NULL 0xfffff lo 1) = 3 \<and> desc_base (make_gdt_desc NULL 0xfffff lo 1) = 0 \<and>
      \<not> desc_32bit (make_gdt_desc NULL 0xfffff lo 1) \<and> desc_top (make_gdt_desc NULL 0xfffff lo 1) = 0xfffff)
      [GDT_CODE_ATTR_LOW_DPL3, GDT_DATA_ATTR_LOW_DPL3]"
    by code_simp+
  then show ?thesis by (simp add: tss_init_def Let_def)
qed

theorem tss_init_describes_witness:
  "\<forall>s :: ktss. desc_base (gdt (tss_init 0xc0007000 s) 4) = 0xc0007000 \<and> gdt (tss_init 0xc0007000 s) 3 = gdt s 3 \<and>
     desc_limit (make_gdt_desc 0 0x12345 0 0x80) = 0x12345"
proof
  fix s :: ktss
  have "(0x80 :: u8) AND 0xf = 0" by code_simp
  with tss_init_describes [of "0xc0007000" s]
  show "desc_base (gdt (tss_init 0xc0007000 s) 4) = 0xc0007000 \<and> gdt (tss_init 0xc0007000 s) 3 = gdt s 3 \<and>
     desc_limit (make_gdt_desc 0 0x12345 0 0x80) = 0x12345" by (simp add: Let_def)
qed

theorem user_segments_too_small_witness:
  "\<forall>s :: ktss. desc_top (gdt (tss_init 0xc0007000 s) 5) = 0xfffff \<and> desc_top (gdt (tss_init 0xc0007000 s) 6) = 0xfffff"
proof
  fix s :: ktss
  show "desc_top (gdt (tss_init 0xc0007000 s) 5) = 0xfffff \<and> desc_top (gdt (tss_init 0xc0007000 s) 6) = 0xfffff"
    using user_segments_too_small [of "0xc0007000" s] by (simp add: Let_def)
qed

end
