(* ===== verification/Process.thy ===== *)
theory Process
  imports Tss
begin

text \<open>
  \<open>src/userprog/process.c\<close>: user processes.  \<open>process_execute\<close> makes a thread with a page directory of its own,
  which shares the kernel's half of the address space; \<open>process_activate\<close> loads the directory of the thread that
  is to run; \<open>start_process\<close>, the function of the thread, builds the frame from which \<open>intr_exit\<close> of
  \<open>src/kernel/kernel.S\<close> enters user code.

  \<open>memcpy\<close> of a part of the page directory is word copies through the page walk.  \<open>self_kstack\<close> is a pointer to
  words, so adding the size of a structure moves it by four times as many bytes.
\<close>

section \<open>Model\<close>

abbreviation (input) default_prip :: u32 where "default_prip \<equiv> 31"
abbreviation (input) USER_VADDR_START :: u32 where "USER_VADDR_START \<equiv> 0x8048000"

definition USER_STACK3_VADDR :: u32 where
  "USER_STACK3_VADDR = 0xc000000 - PAGE1"

abbreviation (input) EFLAGS_MBS :: u32 where "EFLAGS_MBS \<equiv> push_bit 1 1"
abbreviation (input) EFLAGS_IF_1 :: u32 where "EFLAGS_IF_1 \<equiv> push_bit 9 1"
abbreviation (input) EFLAGS_IOPL_0 :: u32 where "EFLAGS_IOPL_0 \<equiv> push_bit 12 0"

definition user_eflags :: u32 where
  "user_eflags = EFLAGS_IOPL_0 OR EFLAGS_MBS OR EFLAGS_IF_1"

text \<open>The registers that \<open>intr_exit\<close> loads, other than \<open>esp\<close> and the flags, which are in the state.\<close>

record user_regs =
  rg_edi :: u32
  rg_esi :: u32
  rg_ebp :: u32
  rg_ebx :: u32
  rg_edx :: u32
  rg_ecx :: u32
  rg_eax :: u32
  rg_gs :: u32
  rg_fs :: u32
  rg_es :: u32
  rg_ds :: u32
  rg_eip :: u32
  rg_cs :: u32
  rg_ss :: "u32 option"

text \<open>What the processor checks when it loads segment registers at privilege level 0, with the error \<open>Trap\<close> and the number of
  the exception where a check fails.  A selector has an index in bits 3 to 15, the table in bit 2 (there is no local
  table) and a privilege level in bits 0 and 1; its descriptor must lie within the limit in \<open>gdtr\<close>.  The attributes of a
  descriptor: bit 7 present, bit 4 code or data, bit 3 code, bit 2 conforming (code), bit 1 readable (code) or writable
  (data).\<close>

definition sel_null :: "u32 \<Rightarrow> bool" where
  "sel_null sel = (sel AND 0xfffc = 0)"

definition sel_rpl :: "u32 \<Rightarrow> u8" where
  "sel_rpl sel = ucast (sel AND 3)"

definition sel_index :: "u32 \<Rightarrow> nat" where
  "sel_index sel = unat (take_bit 13 (drop_bit 3 sel))"

definition sel_desc :: "u32 \<Rightarrow> 'a ktss_scheme \<Rightarrow> gdt_desc res" where
  "sel_desc sel s =
     (if \<not> bit sel 2 \<and> 8 * sel_index sel + 7 \<le> unat (take_bit 16 (gdtr s)) then Inr (gdt s (sel_index sel)) else Inl (Trap 13))"

abbreviation (input) desc_present :: "gdt_desc \<Rightarrow> bool" where "desc_present d \<equiv> bit (attr_low_byte d) 7"

definition desc_code :: "gdt_desc \<Rightarrow> bool" where
  "desc_code d = (bit (attr_low_byte d) 4 \<and> bit (attr_low_byte d) 3)"

definition desc_conforming :: "gdt_desc \<Rightarrow> bool" where
  "desc_conforming d = (desc_code d \<and> bit (attr_low_byte d) 2)"

definition desc_readable :: "gdt_desc \<Rightarrow> bool" where
  "desc_readable d = (bit (attr_low_byte d) 4 \<and> (bit (attr_low_byte d) 3 \<longrightarrow> bit (attr_low_byte d) 1))"

definition desc_writable :: "gdt_desc \<Rightarrow> bool" where
  "desc_writable d = (bit (attr_low_byte d) 4 \<and> \<not> bit (attr_low_byte d) 3 \<and> bit (attr_low_byte d) 1)"

text \<open>\<open>pop gs\<close> and the like.\<close>

definition pop_seg :: "u32 \<Rightarrow> 'a ktss_scheme \<Rightarrow> unit res" where
  "pop_seg sel s =
     (if sel_null sel then Inr ()
      else bindE (sel_desc sel s) (\<lambda>d.
        if \<not> desc_readable d \<or> \<not> desc_conforming d \<and> desc_dpl d < sel_rpl sel then Inl (Trap 13)
        else if \<not> desc_present d then Inl (Trap 11) else Inr ()))"

text \<open>\<open>iret\<close>: the code segment, and the stack segment for a return to an outer privilege level.\<close>

definition iret_code :: "u32 \<Rightarrow> 'a ktss_scheme \<Rightarrow> gdt_desc res" where
  "iret_code sel s =
     (if sel_null sel then Inl (Trap 13)
      else bindE (sel_desc sel s) (\<lambda>d.
        if \<not> desc_code d \<or> (if desc_conforming d then sel_rpl sel < desc_dpl d else desc_dpl d \<noteq> sel_rpl sel) then Inl (Trap 13)
        else if \<not> desc_present d then Inl (Trap 11) else Inr d))"

definition iret_stack :: "u32 \<Rightarrow> u8 \<Rightarrow> 'a ktss_scheme \<Rightarrow> gdt_desc res" where
  "iret_stack sel rpl s =
     (if sel_null sel then Inl (Trap 13)
      else bindE (sel_desc sel s) (\<lambda>d.
        if sel_rpl sel \<noteq> rpl \<or> \<not> desc_writable d \<or> desc_dpl d \<noteq> rpl then Inl (Trap 13)
        else if \<not> desc_present d then Inl (Trap 12) else Inr d))"

text \<open>The 17 words of the frame up to the flags are popped in any case, the stack pointer and the stack segment only for an
  outer privilege level.  With a 16-bit stack segment only the low half of \<open>esp\<close> is loaded.\<close>

definition iret_esp :: "addr \<Rightarrow> 'a ktss_scheme \<Rightarrow> u32 res" where
  "iret_esp frm s =
     (let i = istacks s frm; rpl = sel_rpl (is_cs i) in
      if rpl = 0 then Inr (frm + 17 * 4)
      else bindE (iret_stack (is_ss i) rpl s) (\<lambda>d.
        Inr (if desc_32bit d then is_esp i else push_bit 16 (drop_bit 16 (frm + 19 * 4)) OR take_bit 16 (is_esp i))))"

text \<open>The selector that a data segment register holds after the return: null when its segment is too privileged.\<close>

definition outer_seg :: "u8 \<Rightarrow> u32 \<Rightarrow> 'a ktss_scheme \<Rightarrow> u32" where
  "outer_seg rpl sel s =
     (case sel_desc sel s of
        Inl e \<Rightarrow> take_bit 16 sel
      | Inr d \<Rightarrow> if \<not> sel_null sel \<and> \<not> desc_conforming d \<and> desc_dpl d < rpl then 0 else take_bit 16 sel)"

text \<open>The return address must lie within the code segment.  The flags of the frame are loaded as they are; they are those of
  interrupted code or \<open>user_eflags\<close>, and never ask for a task switch or for virtual 8086 mode.\<close>

definition intr_exit :: "addr \<Rightarrow> 'a ktss_scheme \<Rightarrow> (user_regs \<times> 'a ktss_scheme) res" where
  "intr_exit frm s =
     (let i = istacks s frm; rpl = sel_rpl (is_cs i) in
      bindE (pop_seg (is_gs i) s) (\<lambda>_.
      bindE (pop_seg (is_fs i) s) (\<lambda>_.
      bindE (pop_seg (is_es i) s) (\<lambda>_.
      bindE (pop_seg (is_ds i) s) (\<lambda>_.
      bindE (iret_code (is_cs i) s) (\<lambda>code.
      bindE (iret_esp frm s) (\<lambda>sp.
      if desc_top code < is_eip i then Inl (Trap 13)
      else Inr
       (\<lparr>rg_edi = is_edi i, rg_esi = is_esi i, rg_ebp = is_ebp i, rg_ebx = is_ebx i, rg_edx = is_edx i, rg_ecx = is_ecx i,
         rg_eax = is_eax i, rg_gs = outer_seg rpl (is_gs i) s, rg_fs = outer_seg rpl (is_fs i) s, rg_es = outer_seg rpl (is_es i) s,
         rg_ds = outer_seg rpl (is_ds i) s, rg_eip = is_eip i, rg_cs = take_bit 16 (is_cs i),
         rg_ss = (if rpl \<noteq> 0 then Some (take_bit 16 (is_ss i)) else None)\<rparr>,
        s\<lparr>eflags := is_eflags i, esp := sp\<rparr>))))))))"

definition upd_istack :: "addr \<Rightarrow> (intr_stack \<Rightarrow> intr_stack) \<Rightarrow> 'a kstate_scheme \<Rightarrow> 'a kstate_scheme" where
  "upd_istack frm f s = s\<lparr>istacks := (istacks s)(frm := f (istacks s frm))\<rparr>"

definition start_process :: "u32 \<Rightarrow> 'a ktss_scheme \<Rightarrow> ('a ktss_scheme, user_regs) run" where
  "start_process filename s =
     (let cur = running_thread s;
          s = upd_task cur (\<lambda>t. t\<lparr>self_kstack := self_kstack t + 4 * sizeof_thread_stack\<rparr>) s;
          proc_stack = self_kstack (tasks s cur);
          s = upd_istack proc_stack (\<lambda>i. i\<lparr>is_edi := 0, is_esi := 0, is_ebp := 0, esp_dummy := 0\<rparr>) s;
          s = upd_istack proc_stack (\<lambda>i. i\<lparr>is_ebx := 0, is_edx := 0, is_ecx := 0, is_eax := 0\<rparr>) s;
          s = upd_istack proc_stack (\<lambda>i. i\<lparr>is_gs := 0\<rparr>) s;
          s = upd_istack proc_stack (\<lambda>i. i\<lparr>is_ds := ucast SELECTOR_U_DATA, is_es := ucast SELECTOR_U_DATA,
                is_fs := ucast SELECTOR_U_DATA\<rparr>) s;
          s = upd_istack proc_stack (\<lambda>i. i\<lparr>is_eip := filename\<rparr>) s;
          s = upd_istack proc_stack (\<lambda>i. i\<lparr>is_cs := ucast SELECTOR_U_CODE\<rparr>) s;
          s = upd_istack proc_stack (\<lambda>i. i\<lparr>is_eflags := user_eflags\<rparr>) s
      in bindR (get_a_page PF_USER USER_STACK3_VADDR s) (\<lambda>va s.
         let s = upd_istack proc_stack (\<lambda>i. i\<lparr>is_esp := va + PG_SIZE\<rparr>) s;
             s = upd_istack proc_stack (\<lambda>i. i\<lparr>is_ss := ucast SELECTOR_U_DATA\<rparr>) s
         in liftR (intr_exit proc_stack s)))"

definition page_dir_activate :: "addr \<Rightarrow> 'a kstate_scheme \<Rightarrow> 'a kstate_scheme res" where
  "page_dir_activate p_thread s =
     bindE (if pgdir (tasks s p_thread) \<noteq> NULL then addr_v2p (pgdir (tasks s p_thread)) s else Inr 0x100000)
       (\<lambda>pagedir_phy_addr. Inr (s\<lparr>cr3 := pagedir_phy_addr\<rparr>))"

definition process_activate :: "addr \<Rightarrow> 'a ktss_scheme \<Rightarrow> 'a ktss_scheme res" where
  "process_activate p_thread s =
     ASSERT (p_thread \<noteq> NULL) ''process_activate'' ''p_thread''
      (bindE (page_dir_activate p_thread s) (\<lambda>s.
       Inr (if pgdir (tasks s p_thread) \<noteq> NULL then update_tss_esp p_thread s else s)))"

text \<open>\<open>memcpy(dst, src, 4 * n)\<close> as \<open>n\<close> word copies.\<close>

fun vcopy :: "nat \<Rightarrow> addr \<Rightarrow> addr \<Rightarrow> 'a kstate_scheme \<Rightarrow> 'a kstate_scheme res" where
  "vcopy 0 dst src s = Inr s"
| "vcopy (Suc n) dst src s =
     bindE (vload32 src s) (\<lambda>v. bindE (vstore32 dst v s) (vcopy n (dst + 4) (src + 4)))"

definition memcpy_words :: "addr \<Rightarrow> addr \<Rightarrow> u32 \<Rightarrow> 'a kstate_scheme \<Rightarrow> 'a kstate_scheme res" where
  "memcpy_words dst src n s =
     ASSERT (dst \<noteq> NULL) ''memcpy'' ''dst'' (ASSERT (src \<noteq> NULL) ''memcpy'' ''src'' (vcopy (unat n div 4) dst src s))"

definition create_page_dir :: "'a kcon_scheme \<Rightarrow> ('a kcon_scheme, addr) run" where
  "create_page_dir s =
     bindR (liftR (get_kernel_pages 1 s)) (\<lambda>page_dir_vaddr s.
     if page_dir_vaddr = NULL then
       bindR (console_put_str ''create_page_dir: get_kernel_pages failed!\<newline>'' s) (\<lambda>_ s. Return NULL s)
     else
       bindR (stepR (memcpy_words (page_dir_vaddr + 0x300 * 4) (0xfffff000 + 0x300 * 4) 1024 s)) (\<lambda>_ s.
       bindR (stepR (bindE (addr_v2p page_dir_vaddr s) (\<lambda>new_page_dir_phy_addr.
         vstore32 (page_dir_vaddr + 4 * 1023) (new_page_dir_phy_addr OR PG_US_U OR PG_RW_W OR PG_P_1) s))) (\<lambda>_ s.
       Return page_dir_vaddr s)))"

definition DIV_ROUND_UP :: "u32 \<Rightarrow> u32 \<Rightarrow> u32" where
  "DIV_ROUND_UP X STEP = (X + STEP - 1) div STEP"

definition user_bitmap_bytes :: u32 where
  "user_bitmap_bytes = (0xc0000000 - USER_VADDR_START) div PG_SIZE div 8"

definition upd_vaddr :: "addr \<Rightarrow> (virtual_addr \<Rightarrow> virtual_addr) \<Rightarrow> 'a kstate_scheme \<Rightarrow> 'a kstate_scheme" where
  "upd_vaddr p f s = upd_task p (\<lambda>t. t\<lparr>userprog_vaddr := f (userprog_vaddr t)\<rparr>) s"

definition create_user_vaddr_bitmap :: "addr \<Rightarrow> 'a kstate_scheme \<Rightarrow> 'a kstate_scheme res" where
  "create_user_vaddr_bitmap user_prog s =
     (let s = upd_vaddr user_prog (\<lambda>v. v\<lparr>vaddr_start := USER_VADDR_START\<rparr>) s;
          bytes_len = user_bitmap_bytes;
          bitmap_pg_cnt = DIV_ROUND_UP bytes_len PG_SIZE
      in bindE (get_kernel_pages bitmap_pg_cnt s) (\<lambda>(va, s).
         let s = upd_vaddr user_prog (\<lambda>v. v\<lparr>vaddr_bitmap := (vaddr_bitmap v)\<lparr>bits := va\<rparr>\<rparr>) s;
             s = upd_vaddr user_prog (\<lambda>v. v\<lparr>vaddr_bitmap := (vaddr_bitmap v)\<lparr>btmp_bytes_len := bytes_len\<rparr>\<rparr>) s
         in bindE (bitmap_init (vaddr_bitmap (userprog_vaddr (tasks s user_prog))) (bytes s)) (\<lambda>m.
            Inr (s\<lparr>bytes := m\<rparr>))))"

text \<open>\<open>kt_addr\<close> and \<open>sp_addr\<close> are the addresses of \<open>kernel_thread\<close> and \<open>start_process\<close>.\<close>

definition process_execute :: "u32 \<Rightarrow> u32 \<Rightarrow> u32 \<Rightarrow> string \<Rightarrow> 'a kcon_scheme \<Rightarrow> ('a kcon_scheme, unit) run" where
  "process_execute kt_addr sp_addr filename nm s =
     bindR (liftR (get_kernel_pages 1 s)) (\<lambda>thread s.
     bindR (console_put_str ''create user thread: name='' s) (\<lambda>_ s.
     bindR (console_put_str nm s) (\<lambda>_ s.
     bindR (console_put_int thread s) (\<lambda>_ s.
     bindR (console_put_str ''\<newline>'' s) (\<lambda>_ s.
     bindR (init_thread thread nm default_prip s) (\<lambda>_ s.
     bindR (stepR (create_user_vaddr_bitmap thread s)) (\<lambda>_ s.
     let s = thread_create kt_addr thread sp_addr filename s in
     bindR (create_page_dir s) (\<lambda>dir s.
     let s = upd_task thread (\<lambda>t. t\<lparr>pgdir := dir\<rparr>) s;
         (old_status, s) = intr_disable s
     in bindR (stepR (enter_ready ''process_execute'' thread s)) (\<lambda>_ s.
     bindR (stepR (enter_all ''process_execute'' ''!elem_find(&thread_all_list, &thread->all_list_tag)'' thread s)) (\<lambda>_ s.
     let (_, s) = intr_set_status old_status s in
     console_put_str ''process_execute end\<newline>'' s))))))))))"

section \<open>Stores to a page that is not a table\<close>

lemma same_mem_mm_inv: "same_mem s t \<Longrightarrow> mm_inv t = mm_inv s"
  by (simp add: mm_inv_def table_at_def table_frame_def avail_def same_mem_def)

lemma upd_istack_twice [simp]: "upd_istack p f (upd_istack p g s) = upd_istack p (\<lambda>i. f (g i)) s"
  by (simp add: upd_istack_def)

text \<open>The words \<open>k\<close> to \<open>k + n - 1\<close> of the page \<open>sa\<close> copied to the page \<open>pa\<close>.\<close>

definition copy_words :: "(u32 \<Rightarrow> u32) \<Rightarrow> u32 \<Rightarrow> u32 \<Rightarrow> nat \<Rightarrow> nat \<Rightarrow> u32 \<Rightarrow> u32" where
  "copy_words pm pa sa k n = (\<lambda>a. if a \<in> (\<lambda>i. pa + 4 * of_nat i) ` {k..<k + n} then pm (a - pa + sa) else pm a)"

lemma copy_words_0 [simp]: "copy_words pm pa sa k 0 = pm"
  by (simp add: copy_words_def)

lemma copy_words_other:
  assumes "page_aligned pa" and "k + n \<le> 1024" and "frame a \<noteq> pa"
  shows "copy_words pm pa sa k n a = pm a"
  using aligned_plus_fields(1) [OF assms(1)] assms(2,3) by (auto simp: copy_words_def)

lemma copy_words_at: "k \<le> i \<Longrightarrow> i < k + n \<Longrightarrow> copy_words pm pa sa k n (pa + 4 * of_nat i) = pm (sa + 4 * of_nat i)"
  by (auto simp: copy_words_def add.commute)

lemma word_index_inj: "i < 1024 \<Longrightarrow> j < 1024 \<Longrightarrow> 4 * of_nat i = (4 * of_nat j :: u32) \<longleftrightarrow> i = j"
proof -
  assume "i < 1024" "j < 1024"
  then have "unat (4 * of_nat i :: u32) = 4 * i" "unat (4 * of_nat j :: u32) = 4 * j"
    using unat_of_nat_less [of "4 * i", where 'a = 32] unat_of_nat_less [of "4 * j", where 'a = 32] by simp_all
  then show ?thesis by (metis mult_left_cancel zero_neq_numeral)
qed

lemma copy_words_out:
  assumes "i < k \<or> k + n \<le> i" and "i < 1024" and "k + n \<le> 1024"
  shows "copy_words pm pa sa k n (pa + 4 * of_nat i) = pm (pa + 4 * of_nat i)"
proof -
  have "4 * of_nat i \<noteq> (4 * of_nat j :: u32)" if "j \<in> {k..<k + n}" for j
    using that assms by (subst word_index_inj) auto
  then have "pa + 4 * of_nat i \<notin> (\<lambda>i. pa + 4 * of_nat i) ` {k..<k + n}" by (simp add: image_iff)
  then show ?thesis unfolding copy_words_def by (rule if_not_P)
qed

lemma copy_words_Suc:
  assumes "page_aligned pa" and "page_aligned sa" and "sa \<noteq> pa" and "k + Suc n \<le> 1024"
  shows "copy_words (pm(pa + 4 * of_nat k := pm (sa + 4 * of_nat k))) pa sa (Suc k) n = copy_words pm pa sa k (Suc n)"
proof
  fix a
  have eq: "{k..<k + Suc n} = insert k {Suc k..<Suc k + n}" by auto
  have src: "sa + 4 * of_nat i \<noteq> pa + 4 * of_nat k" if "i < 1024" for i
    using aligned_plus_fields(1) [OF assms(2) that] aligned_plus_fields(1) [OF assms(1), of k] assms(3,4) by auto
  show "copy_words (pm(pa + 4 * of_nat k := pm (sa + 4 * of_nat k))) pa sa (Suc k) n a = copy_words pm pa sa k (Suc n) a"
  proof (cases "a \<in> (\<lambda>i. pa + 4 * of_nat i) ` {Suc k..<Suc k + n}")
    case True
    then obtain i where i: "a = pa + 4 * of_nat i" "i \<in> {Suc k..<Suc k + n}" by auto
    then have "a - pa + sa \<noteq> pa + 4 * of_nat k" using src [of i] assms(4) by (simp add: add.commute)
    with True show ?thesis unfolding copy_words_def eq by simp
  next
    case False
    then show ?thesis unfolding copy_words_def eq by (auto simp: add.commute)
  qed
qed

text \<open>A store to the page \<open>pa\<close> does not change a translation that does not read \<open>pa\<close>.\<close>

lemma translate_other_page:
  assumes "\<And>a. frame a \<noteq> pa \<Longrightarrow> pm' a = pm a" and "frame dir \<noteq> pa" and "frame (pm (pde_pa dir va)) \<noteq> pa"
  shows "translate pm' dir va = translate pm dir va"
  by (rule translate_cong) (use assms in simp_all)

lemma vcopy_page:
  assumes "page_aligned dst" and "page_aligned src" and "page_aligned sa" and "sa \<noteq> pa"
    and "translate (pmem s) (cr3 s) dst = Some pa" and "translate (pmem s) (cr3 s) src = Some sa"
    and "k + n \<le> 1024" and "frame (cr3 s) \<noteq> pa"
    and "frame (pmem s (pde_pa (cr3 s) dst)) \<noteq> pa" and "frame (pmem s (pde_pa (cr3 s) src)) \<noteq> pa"
  shows "vcopy n (dst + 4 * of_nat k) (src + 4 * of_nat k) s = Inr (s\<lparr>pmem := copy_words (pmem s) pa sa k n\<rparr>)"
  using assms(5-10)
proof (induction n arbitrary: k s)
  case 0
  then show ?case by simp
next
  case (Suc n)
  let ?v = "pmem s (sa + 4 * of_nat k)"
  let ?pm = "(pmem s)(pa + 4 * of_nat k := ?v)"
  let ?s = "s\<lparr>pmem := ?pm\<rparr>"
  have k: "k < 1024" using Suc.prems(3) by simp
  have pa: "page_aligned pa" using Suc.prems(1) assms(1) by (rule translate_aligned)
  have at: "frame (pa + 4 * of_nat k) = pa" using pa k by (rule aligned_plus_fields)
  have other: "?pm a = pmem s a" if "frame a \<noteq> pa" for a using that at by auto
  have load: "vload32 (src + 4 * of_nat k) s = Inr ?v"
    using Suc.prems(2) translate_offset [OF assms(2) k] by (simp add: vload32_def)
  have store: "vstore32 (dst + 4 * of_nat k) ?v s = Inr ?s"
    using Suc.prems(1) translate_offset [OF assms(1) k] by (simp add: vstore32_def)
  have tr: "translate ?pm (cr3 s) dst = translate (pmem s) (cr3 s) dst" "translate ?pm (cr3 s) src = translate (pmem s) (cr3 s) src"
    using Suc.prems(4-6) by (auto intro!: translate_other_page [OF other])
  have pde: "?pm (pde_pa (cr3 s) x) = pmem s (pde_pa (cr3 s) x)" for x using Suc.prems(4) by (intro other) simp
  have "vcopy n (dst + 4 * of_nat (Suc k)) (src + 4 * of_nat (Suc k)) ?s = Inr (?s\<lparr>pmem := copy_words (pmem ?s) pa sa (Suc k) n\<rparr>)"
    using Suc.prems tr pde by (intro Suc.IH) (simp_all del: fun_upd_apply)
  moreover have "dst + 4 * of_nat (Suc k) = dst + 4 * of_nat k + 4" "src + 4 * of_nat (Suc k) = src + 4 * of_nat k + 4"
    by (simp_all add: algebra_simps)
  ultimately show ?case
    using load store copy_words_Suc [OF pa assms(3,4) Suc.prems(3), of "pmem s"]
    by (simp del: fun_upd_apply of_nat_Suc)
qed

text \<open>A page that is no page table can be written without changing a translation or the state of the allocator.\<close>

definition page_written :: "u32 \<Rightarrow> 'a kstate_scheme \<Rightarrow> 'a kstate_scheme \<Rightarrow> bool" where
  "page_written pa s t \<longleftrightarrow> (\<forall>a. frame a \<noteq> pa \<longrightarrow> pmem t a = pmem s a) \<and> bytes t = bytes s \<and> same_setup s t"

lemma page_written_keeps:
  assumes inv: "mm_inv s" and un: "unused_pages s [pa]" and wr: "page_written pa s t"
  shows "pmem t (pde_pa (cr3 s) x) = pmem s (pde_pa (cr3 s) x)" and "mapped t x = mapped s x" and "frame (cr3 s) \<noteq> pa"
    and "unused_pages t [pa]" and "mm_inv t"
proof -
  have cr: "cr3 t = cr3 s" and other: "\<And>a. frame a \<noteq> pa \<Longrightarrow> pmem t a = pmem s a" and su: "same_setup s t" "bytes t = bytes s"
    using wr by (auto simp: page_written_def same_setup_def)
  have "table_at s (-1)" "table_frame s (-1) = frame (cr3 s)"
    using mm_inv_self [OF inv] by (simp_all add: self_mapped_def table_at_def table_frame_def pdi_window)
  then show dir: "frame (cr3 s) \<noteq> pa" using un unfolding unused_pages_def by force
  show pde: "pmem t (pde_pa (cr3 s) x) = pmem s (pde_pa (cr3 s) x)" for x using dir by (intro other) simp
  have "translate (pmem t) (cr3 s) x = translate (pmem s) (cr3 s) x"
  proof (rule translate_cong)
    show "pmem t (pde_pa (cr3 s) x) = pmem s (pde_pa (cr3 s) x)" by (rule pde)
    assume "bit (pmem s (pde_pa (cr3 s) x)) 0"
    then have "frame (pte_pa (pmem s) (cr3 s) x) \<noteq> pa" using un by (auto simp: unused_pages_def table_at_def table_frame_def)
    then show "pmem t (pte_pa (pmem s) (cr3 s) x) = pmem s (pte_pa (pmem s) (cr3 s) x)" by (rule other)
  qed
  then show "mapped t x = mapped s x" by (simp add: mapped_def cr)
  show "unused_pages t [pa]" using un by (simp add: unused_pages_def table_at_def table_frame_def cr pde)
  show "mm_inv t"
    using inv su(1) by (rule mm_inv_keep) (use pde su in \<open>simp_all add: avail_def same_setup_def\<close>)
qed

lemma page_written_heap:
  assumes ok: "heap_ok s" and un: "unused_pages s [pa]" and wr: "page_written pa s t"
  shows "heap_ok t" and "heap_used t k = heap_used s k" and "kfree t = kfree s" and "ufree t = ufree s"
    and "kpage t = kpage s" and "kvb t = kvb s"
proof -
  have inv: "mm_inv s" using ok by (simp add: heap_ok_def)
  have su: "kernel_pool t = kernel_pool s" "user_pool t = user_pool s" "kernel_vaddr t = kernel_vaddr s" "bytes t = bytes s"
    using wr by (simp_all add: page_written_def same_setup_def)
  note keep = page_written_keeps [OF inv un wr]
  show eq: "kpage t = kpage s" "kvb t = kvb s" "kfree t = kfree s" "ufree t = ufree s"
    by (simp_all add: kpage_def kvb_def su fun_eq_iff)
  show "heap_used t k = heap_used s k" by (simp add: heap_used_def eq su)
  have "virt_ok t = virt_ok s" "heap_apart t = heap_apart s"
    by (simp_all add: virt_ok_def heap_apart_def pools_apart_def eq su keep(2))
  with ok keep(5) show "heap_ok t" by (simp add: heap_ok_def)
qed

lemma mapped_table: "mapped s va = Some pa \<Longrightarrow> table_at s va"
  by (simp add: mapped_def translate_def table_at_def Let_def split: if_splits)

section \<open>Page directories of processes\<close>

text \<open>\<open>pa\<close> is the directory of a process that has no page yet: it maps itself, its kernel half has the entries of
  the active directory, and its user half is empty.\<close>

definition user_dir :: "'a kstate_scheme \<Rightarrow> u32 \<Rightarrow> bool" where
  "user_dir s pa \<longleftrightarrow> page_aligned pa \<and> self_mapped (pmem s) pa \<and>
     (\<forall>va. pdi va < 768 \<longrightarrow> pmem s (pde_pa pa va) = 0) \<and>
     (\<forall>va. 768 \<le> pdi va \<and> pdi va < 1023 \<longrightarrow> pmem s (pde_pa pa va) = pmem s (pde_pa (cr3 s) va))"

lemma user_dir_translate:
  assumes "user_dir s pa"
  shows "pdi va < 768 \<Longrightarrow> translate (pmem s) pa va = None"
    and "768 \<le> pdi va \<Longrightarrow> pdi va < 1023 \<Longrightarrow> translate (pmem s) pa va = mapped s va"
  using assms by (auto simp: user_dir_def translate_def mapped_def pte_pa_def Let_def)

text \<open>The memory after the two steps that fill the directory.\<close>

lemma pde_index: "pdi va < 1024 \<Longrightarrow> pde_pa pa va = frame pa + 4 * of_nat (unat (pdi va))"
  by (simp add: pde_pa_def)

lemma user_dir_fill:
  assumes pa: "page_aligned pa" and dir: "frame (cr3 s) \<noteq> pa" and zero: "\<And>i. i < 1024 \<Longrightarrow> pmem s (pa + 4 * of_nat i) = 0"
  defines "pm \<equiv> (copy_words (pmem s) pa (frame (cr3 s)) 768 256)(pa + 4 * of_nat 1023 := pa OR 7)"
  shows "user_dir (s\<lparr>pmem := pm\<rparr>) pa"
proof -
  have fr: "frame pa = pa" using pa by simp
  have at: "pm (pa + 4 * of_nat i) = (if i = 1023 then pa OR 7 else if i < 768 then 0 else pmem s (frame (cr3 s) + 4 * of_nat i))"
    if "i < 1024" for i
    using that word_index_inj [OF that, of 1023] zero [OF that] copy_words_out [of i 768 256 "pmem s" pa "frame (cr3 s)"]
      copy_words_at [of 768 i 256 "pmem s" pa "frame (cr3 s)"]
    by (simp add: pm_def)
  have same: "pm (pde_pa (cr3 s) va) = pmem s (pde_pa (cr3 s) va)" for va
  proof -
    have "pde_pa (cr3 s) va \<noteq> pa + 4 * of_nat 1023"
      using aligned_plus_fields(1) [OF pa, of 1023] dir frame_pde_pa [of "cr3 s" va] by force
    moreover have "copy_words (pmem s) pa (frame (cr3 s)) 768 256 (pde_pa (cr3 s) va) = pmem s (pde_pa (cr3 s) va)"
      using dir by (intro copy_words_other [OF pa]) simp_all
    ultimately show ?thesis unfolding pm_def by (simp only: fun_upd_apply if_False)
  qed
  have idx: "pde_pa pa va = pa + 4 * of_nat (unat (pdi va))" "pde_pa (cr3 s) va = frame (cr3 s) + 4 * of_nat (unat (pdi va))" for va
    by (simp_all add: pde_pa_def fr)
  have "pm (pde_pa pa va) = 0" if "pdi va < 768" for va
    using that at [of "unat (pdi va)"] unfolding idx by (simp add: word_less_nat_alt)
  moreover have "pm (pde_pa pa va) = pm (pde_pa (cr3 s) va)" if "768 \<le> pdi va" "pdi va < 1023" for va
    using that at [of "unat (pdi va)"] unfolding same unfolding idx by (simp add: word_less_nat_alt word_le_nat_alt)
  moreover have "self_mapped pm pa"
    using at [of 1023] by (simp add: self_mapped_def self_pa_def fr pa frame_or_7 present_or_7)
  ultimately show ?thesis using pa by (simp add: user_dir_def)
qed

lemma window_page: "translate (pmem s) (cr3 s) 0xfffff000 = Some (frame (cr3 s))" "pdi 0xfffff000 = 1023" "page_aligned 0xfffff000"
  if "self_mapped (pmem s) (cr3 s)"
  using translate_pde_ptr [OF that, of 0] 
  by (simp_all add: pde_ptr_def PDE_IDX_def pde_pa_def pdi_def page_aligned_def pgoff_def drop_bit_eq_div word_div_def)

text \<open>Filling the fresh page at \<open>va\<close>.\<close>

lemma fill_page_dir:
  assumes ok: "heap_ok s" and va: "page_aligned va" and map: "mapped s va = Some pa" and un: "unused_pages s [pa]"
    and zero: "\<And>i. i < 1024 \<Longrightarrow> pmem s (pa + 4 * of_nat i) = 0" and nn: "va \<noteq> NULL" "va + 0xc00 \<noteq> NULL"
  obtains t u where "memcpy_words (va + 0x300 * 4) (0xfffff000 + 0x300 * 4) 1024 s = Inr t" and "addr_v2p va t = Inr pa"
    and "vstore32 (va + 4 * 1023) (pa OR PG_US_U OR PG_RW_W OR PG_P_1) t = Inr u" and "page_written pa s u" and "user_dir u pa"
    and "mem_step s u"
proof -
  have inv: "mm_inv s" using ok by (simp add: heap_ok_def)
  have pa: "page_aligned pa" using un by (simp add: unused_pages_def)
  have "page_written pa s s" by (simp add: page_written_def)
  note dir = page_written_keeps(3) [OF inv un this]
  note self = mm_inv_self [OF inv]
  note win = window_page [OF self]
  have tab: "frame (pmem s (pde_pa (cr3 s) va)) \<noteq> pa" "frame (pmem s (pde_pa (cr3 s) 0xfffff000)) \<noteq> pa"
    using un mapped_table [OF map] self dir win(2) pdi_window
    by (auto simp: unused_pages_def table_at_def table_frame_def self_mapped_def self_pa_def pde_pa_def)
  define t where "t = s\<lparr>pmem := copy_words (pmem s) pa (frame (cr3 s)) 768 256\<rparr>"
  define u where "u = s\<lparr>pmem := (copy_words (pmem s) pa (frame (cr3 s)) 768 256)(pa + 4 * of_nat 1023 := pa OR 7)\<rparr>"
  have cp: "vcopy 256 (va + 4 * of_nat 768) (0xfffff000 + 4 * of_nat 768) s = Inr t"
    unfolding t_def
    by (rule vcopy_page) (use va win dir tab map in \<open>simp_all add: mapped_def page_aligned_def pgoff_bit bit_eq_iff frame_bit\<close>)
  have copy: "memcpy_words (va + 0x300 * 4) (0xfffff000 + 0x300 * 4) 1024 s = Inr t"
    using cp nn by (simp add: memcpy_words_def)
  have wt: "page_written pa s t" using copy_words_other [OF pa, of 768 256] by (simp add: page_written_def t_def same_setup_def)
  have map_t: "translate (pmem t) (cr3 t) va = Some pa" and self_t: "self_mapped (pmem t) (cr3 t)"
    using page_written_keeps(2) [OF inv un wt, of va] mm_inv_self [OF page_written_keeps(5) [OF inv un wt]] map by (simp_all add: mapped_def)
  have v2p: "addr_v2p va t = Inr pa" using self_t map_t by (rule addr_v2p_translate)
  have st: "vstore32 (va + 4 * 1023) (pa OR PG_US_U OR PG_RW_W OR PG_P_1) t = Inr u"
    unfolding or_flags using translate_offset [OF va, of 1023 "pmem t" "cr3 t"] map_t by (simp add: vstore32_def t_def u_def)
  have "frame (pa + 4 * of_nat 1023) = pa" by (rule aligned_plus_fields(1) [OF pa]) simp
  then have "page_written pa s u"
    using copy_words_other [OF pa, of 768 256] by (auto simp: page_written_def u_def same_setup_def)
  moreover have "user_dir u pa" unfolding u_def by (rule user_dir_fill [OF pa dir zero])
  moreover have "mem_step s u" by (simp add: u_def)
  ultimately show thesis using that [OF copy v2p st] by blast
qed

lemma create_page_dir_ok:
  assumes ok: "heap_ok s" and used: "heap_used s k" "k < bitmap_bits (kvb s)" and mem: "2 \<le> kfree s"
  obtains t pa where "create_page_dir s = Return (kpage s k) t" and "heap_ok t" and "heap_used t (k + 1)"
    and "kfree s \<le> kfree t + 2" and "mapped t (kpage s k) = Some pa" and "user_dir t pa" and "mem_step s t"
    and "\<forall>x. upper x \<and> frame x \<noteq> kpage s k \<longrightarrow> mapped t x = mapped s x" and "unused_pages t [pa]"
    and "\<not> avail t pa" and "ufree s \<le> ufree t + 1"
proof -
  let ?va = "kpage s k"
  have v: "virt_ok s" using ok by (simp add: heap_ok_def)
  note kp = kpage_props [OF v used(2)]
  obtain t pas where t: "get_kernel_pages (of_nat 1) s = Inr (?va, t)" "heap_ok t" "same_setup s t" "heap_used t (k + 1)"
    "kfree s \<le> kfree t + 2 * 1" "length pas = 1" "\<forall>i < 1. mapped t (kpage s (k + i)) = Some (pas ! i)" "unused_pages t pas"
    "\<forall>a \<in> set pas. \<not> avail t a \<and> (\<forall>i < 1024. pmem t (a + 4 * of_nat i) = 0)"
    "\<forall>x. upper x \<and> (\<forall>i < 1. frame x \<noteq> kpage s (k + i)) \<longrightarrow> mapped t x = mapped s x" "ufree s \<le> ufree t + 1"
    by (rule get_kernel_pages_next [of s 1 k]) (use ok used mem in simp_all)
  obtain pa where pa: "pas = [pa]" using t(6) by (cases pas) auto
  have un: "unused_pages t [pa]" and map: "mapped t ?va = Some pa" and zero: "\<And>i. i < 1024 \<Longrightarrow> pmem t (pa + 4 * of_nat i) = 0"
    using t(7-9) by (auto simp: pa)
  have "?va + 4 * of_nat 768 \<noteq> NULL"
    using aligned_plus_fields(2) [OF kp(2), of 768] by (auto simp: pgoff_def)
  then have nn: "?va \<noteq> NULL" "?va + 0xc00 \<noteq> NULL" using kp by simp_all
  obtain w u where u: "memcpy_words (?va + 0x300 * 4) (0xfffff000 + 0x300 * 4) 1024 t = Inr w" "addr_v2p ?va w = Inr pa"
    "vstore32 (?va + 4 * 1023) (pa OR PG_US_U OR PG_RW_W OR PG_P_1) w = Inr u" "page_written pa t u" "user_dir u pa" "mem_step t u"
    by (rule fill_page_dir [OF t(2) kp(2) map un zero nn])
  note h = page_written_heap [OF t(2) un u(4)]
  have inv: "mm_inv t" using t(2) by (simp add: heap_ok_def)
  note keep = page_written_keeps [OF inv un u(4)]
  have "\<not> avail u pa" using t(9) u(4) by (simp add: pa page_written_def same_setup_def avail_def)
  moreover have "create_page_dir s = Return ?va u" using t(1) u(1-3) nn(1) by (simp add: create_page_dir_def)
  moreover have "mem_step s u" using mem_step_get_kernel_pages [OF t(1)] u(6) by (rule mem_step_trans)
  ultimately show thesis
    using h t(4,5,10,11) keep(2,4) map u(5) by (intro that [of u pa]) simp_all
qed

section \<open>A page of the running process\<close>

text \<open>The running thread is a process, its directory is active, and the bitmap of its addresses is no part of the
  bitmaps of the pools.\<close>

definition user_space :: "'a kstate_scheme \<Rightarrow> bool" where
  "user_space s \<longleftrightarrow> mm_inv s \<and>
     (let t = tasks s (running_thread s); b = vaddr_bitmap (userprog_vaddr t) in
      pgdir t \<noteq> NULL \<and> vaddr_start (userprog_vaddr t) = USER_VADDR_START \<and> btmp_bytes_len b = user_bitmap_bytes \<and>
      bitmap_apart b (pool_bitmap (kernel_pool s)) \<and> bitmap_apart b (pool_bitmap (user_pool s)))"

lemma user_bitmap_values: "unat user_bitmap_bytes = 94199" "DIV_ROUND_UP user_bitmap_bytes PG_SIZE = of_nat 23"
  "USER_STACK3_VADDR = 0xbfff000"
  by (simp_all add: user_bitmap_bytes_def DIV_ROUND_UP_def USER_STACK3_VADDR_def word_div_def)

lemma sless_small: "0 < unat i \<Longrightarrow> unat i < 2 ^ 31 \<Longrightarrow> 0 <s i" for i :: u32
proof -
  assume i: "0 < unat i" "unat i < 2 ^ 31"
  have "i < 2 ^ 31" using i(2) by (simp add: word_less_nat_alt)
  then have "sint i = uint i"
    by (simp add: sint_uint signed_take_bit_int_eq_self word_less_def nonneg_ge_neg_numeral)
  moreover have "0 < i" using i(1) by (simp add: word_less_nat_alt)
  ultimately show ?thesis by (simp add: word_sless_alt word_less_def)
qed

lemma mark_other_bitmap:
  assumes inv: "mm_inv s" and ap: "bitmap_apart b (pool_bitmap (kernel_pool s))" "bitmap_apart b (pool_bitmap (user_pool s))"
    and i: "i < bitmap_bits b" "i < 2 ^ 32"
  defines "t \<equiv> s\<lparr>bytes := mark_bit b i (bytes s)\<rparr>"
  shows "mm_inv t" and "kfree t = kfree s" and "ufree t = ufree s" and "mapped t x = mapped s x"
    and "free_page (user_pool s) (bytes t) = free_page (user_pool s) (bytes s)"
proof -
  note k = free_page_other [OF ap(1) i, of "bytes s"] and u = free_page_other [OF ap(2) i, of "bytes s"]
  show "kfree t = kfree s" "ufree t = ufree s" "mapped t x = mapped s x"
    "free_page (user_pool s) (bytes t) = free_page (user_pool s) (bytes s)"
    using k u by (simp_all add: t_def mapped_def)
  show "mm_inv t"
    by (rule mm_inv_keep [OF inv]) (use k u in \<open>simp_all add: avail_def same_setup_def t_def\<close>)
qed

lemma get_a_page_user:
  assumes us: "user_space s" and lk: "lock_avail s (pool_lock (user_pool s))"
    and va: "page_aligned va" "upper va" "0x8049000 \<le> va" "va < 0xc0000000" and new: "mapped s va = None"
    and mem: "kfree s \<noteq> 0" "ufree s \<noteq> 0"
  obtains t pa where "get_a_page PF_USER va s = Return va t" and "mm_inv t" and "mapped t va = Some pa"
    and "free_page (user_pool s) (bytes s) pa" and "\<forall>x. upper x \<and> frame x \<noteq> va \<longrightarrow> mapped t x = mapped s x"
    and "istacks t = istacks s" and "tasks t = tasks s" and "esp t = esp s" and "kstate.more t = kstate.more s"
proof -
  let ?l = "pool_lock (user_pool s)" and ?v = "userprog_vaddr (tasks s (running_thread s))"
  define i where "i = (unat va - 0x8048000) div 4096"
  have inv: "mm_inv s" and b: "pgdir (tasks s (running_thread s)) \<noteq> NULL" "vaddr_start ?v = 0x8048000"
    "btmp_bytes_len (vaddr_bitmap ?v) = user_bitmap_bytes"
    "bitmap_apart (vaddr_bitmap ?v) (pool_bitmap (kernel_pool s))" "bitmap_apart (vaddr_bitmap ?v) (pool_bitmap (user_pool s))"
    using us by (simp_all add: user_space_def Let_def)
  have bnd: "0x8049000 \<le> unat va" "unat va < 0xc0000000" using va(3,4) by (simp_all add: word_le_nat_alt word_less_nat_alt)
  have bits: "bitmap_bits (vaddr_bitmap ?v) = 8 * 94199" by (simp add: bitmap_bits_def b(3) user_bitmap_values)
  have i: "0 < i" "i < bitmap_bits (vaddr_bitmap ?v)" "i < 2 ^ 31" using bnd unfolding i_def bits by simp_all
  have "va - 0x8048000 = of_nat (unat va - 0x8048000)" using bnd by (simp add: of_nat_diff)
  then have "unat (va - 0x8048000) = unat va - 0x8048000" using bnd by (simp only:) (rule unat_of_nat_less, simp)
  then have ui: "(va - 0x8048000) div PG_SIZE = of_nat i" using i(3) by (simp add: word_unat_eq_iff unat_div i_def unat_of_nat_less)
  have pos: "0 <s (of_nat i :: u32)" using i by (intro sless_small) (simp_all add: unat_of_nat_less)
  define s1 where "s1 = lock_held ?l 1 s"
  have run: "running_thread s1 = running_thread s" "tasks s1 = tasks s" "bytes s1 = bytes s" "same_mem s s1" "user_pool s1 = user_pool s"
    "kernel_pool s1 = kernel_pool s" "istacks s1 = istacks s" "esp s1 = esp s" "kstate.more s1 = kstate.more s"
    by (simp_all add: s1_def lock_held_def same_mem_def running_thread_def)
  note h1 = same_mem_heap [OF run(4)]
  have inv1: "mm_inv s1" using inv same_mem_mm_inv [OF run(4)] by simp
  define s2 where "s2 = s1\<lparr>bytes := mark_bit (vaddr_bitmap ?v) i (bytes s1)\<rparr>"
  have mark: "get_a_page_mark PF_USER va s1 = Inr s2"
    unfolding get_a_page_mark_def run Let_def b(2) ui bitmap_set_mark using b(1) pos by (simp add: s2_def run)
  have i32: "i < 2 ^ 32" using i(3) by simp
  note m2 = mark_other_bitmap [OF inv1, of "vaddr_bitmap ?v" i, folded s2_def, unfolded run, OF b(4,5) i(2) i32]
  have en: "enough PF_USER (Suc 0) s2" using mem m2(2,3) h1(5,6) by (simp add: enough_def)
  obtain pa s3 where s3: "palloc (the_pool PF_USER s2) s2 = Inr (pa, s3)" "mm_inv s3" "same_setup s2 s3" "pmem s3 = pmem s2"
    "page_aligned pa" "pa \<noteq> 0" "free_page (the_pool PF_USER s2) (bytes s2) pa" "kfree s3 \<noteq> 0"
    by (rule palloc_step [OF m2(1) en])
  have pool: "the_pool PF_USER s2 = user_pool s" by (simp add: the_pool_def s2_def run)
  have map3: "mapped s3 x = mapped s x" for x
    using s3(3,4) m2(4) h1(7) by (simp add: mapped_def same_setup_def)
  obtain s4 where s4: "page_table_add va pa s3 = Inr s4" "mm_inv s4" "mapped s4 va = Some (pa + pgoff va)"
    "\<And>x. upper x \<Longrightarrow> frame x \<noteq> frame va \<Longrightarrow> mapped s4 x = mapped s3 x"
    by (rule page_table_add_ok [OF s3(2) va(2) _ s3(5,8)]) (use new map3 in simp_all)
  note m = mem_step_fields [OF mem_step_trans [OF mem_step_palloc [OF s3(1)] mem_step_table_add [OF s4(1)]]]
  define t where "t = s4\<lparr>lk_repeat := (lk_repeat s4)(?l := 0)\<rparr>"
  have held: "running_thread s4 = lk_holder s4 ?l" "lk_repeat s4 ?l = 1"
    unfolding m by (simp_all add: s2_def s1_def)
  then have "lock_release ?l s4 = Inr t" by (simp add: lock_release_cases t_def)
  then have go: "get_a_page PF_USER va s = Return va t"
    unfolding get_a_page_def using lock_acquire_avail [OF lk] mark s3(1,6) s4(1)
    by (simp add: Let_def pool flip: s1_def)
  have mt: "mapped t x = mapped s4 x" "mm_inv s4 \<Longrightarrow> mm_inv t" for x
    by (simp_all add: t_def mapped_def mm_inv_def table_at_def table_frame_def avail_def)
  have fr: "frame va = va" "pgoff va = 0" using va(1) by (simp_all add: page_aligned_def)
  show thesis
  proof (rule that [OF go])
    show "mm_inv t" using s4(2) by (rule mt)
    show "mapped t va = Some pa" using s4(3) fr by (simp add: mt)
    show "free_page (user_pool s) (bytes s) pa" using s3(7) m2(5) unfolding pool by simp
    show "\<forall>x. upper x \<and> frame x \<noteq> va \<longrightarrow> mapped t x = mapped s x" using s4(4) map3 fr by (simp add: mt)
    show "istacks t = istacks s" "tasks t = tasks s" "esp t = esp s" "kstate.more t = kstate.more s"
      by (simp_all add: t_def m s2_def run)
  qed
qed

text \<open>The descriptors 5 and 6 are those of user code and user data.  \<open>tss_init\<close> makes them so, whatever their limits.\<close>

definition user_segments :: "'a ktss_scheme \<Rightarrow> bool" where
  "user_segments s \<longleftrightarrow> take_bit 16 (gdtr s) = 8 * 7 - 1 \<and> attr_low_byte (gdt s 5) = GDT_CODE_ATTR_LOW_DPL3 \<and>
     attr_low_byte (gdt s 6) = GDT_DATA_ATTR_LOW_DPL3"

lemma tss_init_user_segments: "user_segments (tss_init a s)"
proof -
  have "take_bit 16 gdt_operand = 8 * 7 - 1" by code_simp
  then show ?thesis by (simp add: user_segments_def tss_init_def Let_def make_gdt_desc_def)
qed

lemma user_descs:
  "attr_low_byte d = GDT_CODE_ATTR_LOW_DPL3 \<Longrightarrow> desc_code d \<and> \<not> desc_conforming d \<and> desc_dpl d = 3 \<and> desc_present d"
  "attr_low_byte d = GDT_DATA_ATTR_LOW_DPL3 \<Longrightarrow> desc_readable d \<and> desc_writable d \<and> \<not> desc_conforming d \<and> desc_dpl d = 3 \<and> desc_present d"
proof -
  have a: "GDT_CODE_ATTR_LOW_DPL3 = 0xf8" "GDT_DATA_ATTR_LOW_DPL3 = 0xf2" by code_simp+
  have "bit (0xf8 :: u8) 7" "bit (0xf8 :: u8) 4" "bit (0xf8 :: u8) 3" "\<not> bit (0xf8 :: u8) 2" "drop_bit 5 (0xf8 :: u8) AND 3 = 3"
    "bit (0xf2 :: u8) 7" "bit (0xf2 :: u8) 4" "\<not> bit (0xf2 :: u8) 3" "bit (0xf2 :: u8) 1" "drop_bit 5 (0xf2 :: u8) AND 3 = 3"
    by code_simp+
  note a = a this
  show "attr_low_byte d = GDT_CODE_ATTR_LOW_DPL3 \<Longrightarrow> desc_code d \<and> \<not> desc_conforming d \<and> desc_dpl d = 3 \<and> desc_present d"
    "attr_low_byte d = GDT_DATA_ATTR_LOW_DPL3 \<Longrightarrow> desc_readable d \<and> desc_writable d \<and> \<not> desc_conforming d \<and> desc_dpl d = 3 \<and> desc_present d"
    by (simp_all only: a desc_code_def desc_conforming_def desc_readable_def desc_writable_def desc_dpl_def, simp_all)
qed

lemma user_selectors:
  assumes "user_segments s"
  shows "pop_seg 0 s = Inr ()" "pop_seg 0x33 s = Inr ()" "iret_code 0x2b s = Inr (gdt s 5)" "iret_stack 0x33 3 s = Inr (gdt s 6)"
    "outer_seg 3 0 s = 0" "outer_seg 3 0x33 s = 0x33"
proof -
  have c: "sel_null 0" "\<not> sel_null 0x33" "\<not> sel_null 0x2b" "sel_rpl 0x33 = 3" "sel_rpl 0x2b = 3" "sel_index 0x33 = 6"
    "sel_index 0x2b = 5" "\<not> bit (0x33 :: u32) 2" "\<not> bit (0x2b :: u32) 2" "take_bit 16 (0x33 :: u32) = 0x33"
    by code_simp+
  have d: "sel_desc 0x33 s = Inr (gdt s 6)" "sel_desc 0x2b s = Inr (gdt s 5)"
    using assms by (simp_all add: sel_desc_def c user_segments_def)
  note u = user_descs(1) [of "gdt s 5"] user_descs(2) [of "gdt s 6"]
  show "pop_seg 0 s = Inr ()" "pop_seg 0x33 s = Inr ()" "iret_code 0x2b s = Inr (gdt s 5)" "iret_stack 0x33 3 s = Inr (gdt s 6)"
    "outer_seg 3 0x33 s = 0x33"
    using assms u by (simp_all add: pop_seg_def iret_code_def iret_stack_def outer_seg_def c d user_segments_def)
  show "outer_seg 3 0 s = 0" by (simp add: outer_seg_def c split: sum.splits)
qed

lemma more_gdt: "kstate.more u = kstate.more s \<Longrightarrow> gdt u = gdt s \<and> gdtr u = gdtr s" for s :: "'a ktss_scheme"
  by (cases s; cases u) simp

text \<open>The address of the next word that is pushed: a 16-bit stack segment uses only the low half of \<open>esp\<close>.\<close>

definition push_addr :: "gdt_desc \<Rightarrow> u32 \<Rightarrow> u32" where
  "push_addr d v = desc_base d + (if desc_32bit d then v - 4 else take_bit 16 (v - 4))"

text \<open>What a process has when it is in user code: the registers, the stack page and the mappings.\<close>

definition in_user :: "u32 \<Rightarrow> 'a ktss_scheme \<Rightarrow> user_regs \<Rightarrow> 'a ktss_scheme \<Rightarrow> addr \<Rightarrow> bool" where
  "in_user prog s r t pa \<longleftrightarrow>
     r = \<lparr>rg_edi = 0, rg_esi = 0, rg_ebp = 0, rg_ebx = 0, rg_edx = 0, rg_ecx = 0,
       rg_eax = 0, rg_gs = 0, rg_fs = 0x33, rg_es = 0x33, rg_ds = 0x33, rg_eip = prog, rg_cs = 0x2b, rg_ss = Some 0x33\<rparr> \<and>
     eflags t = 0x202 \<and> mapped t 0xbfffffc = Some (pa + 0xffc) \<and> (desc_32bit (gdt s 6) \<longrightarrow> esp t = 0xc000000) \<and>
     push_addr (gdt s 6) (esp t) = desc_base (gdt s 6) + (if desc_32bit (gdt s 6) then 0xbfffffc else 0xfffc) \<and>
     (\<forall>x. upper x \<and> frame x \<noteq> 0xbfff000 \<longrightarrow> mapped t x = mapped s x) \<and> mm_inv t"

lemma push_low_half: "take_bit 16 (push_bit 16 x - 4) = (0xfffc :: u32)"
proof -
  have c: "(0xfffc :: u32) = push_bit 2 (mask 14)" "take_bit 16 (0xfffc :: u32) = 0xfffc" by code_simp+
  have "push_bit 16 x - 4 = push_bit 16 (x - 1) + (0xfffc :: u32)" by (simp add: push_bit_eq_mult algebra_simps)
  also have "\<dots> = push_bit 16 (x - 1) OR 0xfffc"
    unfolding c(1) by (rule disjunctive_add) (auto simp: bit_simps)
  finally show ?thesis by (simp only: take_bit_or c(2)) (simp add: take_bit_push_bit)
qed

text \<open>The frame, the stack page and the jump to user code.\<close>

lemma start_process_cases:
  assumes "user_space s" and "lock_avail s (pool_lock (user_pool s))" and "mapped s 0xbfff000 = None"
    and "kfree s \<noteq> 0" and "ufree s \<noteq> 0" and seg: "user_segments s"
  obtains r t pa where "start_process prog s = (if desc_top (gdt s 5) < prog then Stop (Trap 13) else Return r t)"
    and "in_user prog s r t pa" and "free_page (user_pool s) (bytes s) pa"
proof -
  let ?cur = "running_thread s"
  let ?frm = "self_kstack (tasks s ?cur) + 4 * sizeof_thread_stack"
  define s1 where "s1 = upd_istack ?frm (\<lambda>i. i\<lparr>is_edi := 0, is_esi := 0, is_ebp := 0, esp_dummy := 0, is_ebx := 0, is_edx := 0,
      is_ecx := 0, is_eax := 0, is_gs := 0, is_ds := ucast SELECTOR_U_DATA, is_es := ucast SELECTOR_U_DATA,
      is_fs := ucast SELECTOR_U_DATA, is_eip := prog, is_cs := ucast SELECTOR_U_CODE, is_eflags := user_eflags\<rparr>)
    (upd_task ?cur (\<lambda>t. t\<lparr>self_kstack := self_kstack t + 4 * sizeof_thread_stack\<rparr>) s)"
  have run: "running_thread s1 = ?cur" "same_mem s s1" "lock_avail s1 l = lock_avail s l" "kstate.more s1 = kstate.more s" for l
    by (simp_all add: s1_def upd_istack_def upd_task_def running_thread_def same_mem_def lock_avail_def)
  note h = same_mem_heap [OF run(2)]
  have us: "user_space s1"
    using assms(1) run(1,2) same_mem_mm_inv [OF run(2)] by (simp add: user_space_def same_mem_def Let_def)
      (simp add: s1_def upd_istack_def upd_task_def)
  have pool: "user_pool s1 = user_pool s" "bytes s1 = bytes s" using run(2) by (simp_all add: same_mem_def)
  have va: "page_aligned 0xbfff000" "upper 0xbfff000"
    by (simp_all add: page_aligned_def pgoff_def upper_def pdi_def drop_bit_eq_div word_div_def)
  obtain t pa where t: "get_a_page PF_USER 0xbfff000 s1 = Return 0xbfff000 t" "mm_inv t" "mapped t 0xbfff000 = Some pa"
    "free_page (user_pool s1) (bytes s1) pa" "\<forall>x. upper x \<and> frame x \<noteq> 0xbfff000 \<longrightarrow> mapped t x = mapped s1 x"
    "istacks t = istacks s1" "tasks t = tasks s1" "kstate.more t = kstate.more s"
    unfolding run(4) [symmetric] by (rule get_a_page_user [OF us _ va]) (use assms run(3) h pool in simp_all)
  define u where "u = upd_istack ?frm (\<lambda>i. i\<lparr>is_esp := 0xc000000, is_ss := ucast SELECTOR_U_DATA\<rparr>) t"
  have go: "start_process prog s = liftR (intr_exit ?frm u)"
    using t(1) by (simp add: start_process_def Let_def user_bitmap_values(3) s1_def u_def)
  have sel: "ucast SELECTOR_U_DATA = (0x33 :: u32)" "ucast SELECTOR_U_CODE = (0x2b :: u32)" "user_eflags = 0x202"
    by (simp_all add: SELECTOR_U_DATA_def SELECTOR_U_CODE_def user_eflags_def)
  have more: "kstate.more u = kstate.more s" by (simp add: u_def upd_istack_def t(8))
  have gu: "gdt u = gdt s" "gdtr u = gdtr s" using more_gdt [OF more] by simp_all
  have su: "user_segments u" using seg by (simp add: user_segments_def gu)
  define sp where "sp = (if desc_32bit (gdt s 6) then 0xc000000 else push_bit 16 (drop_bit 16 (?frm + 19 * 4)) OR take_bit 16 0xc000000)"
  define v where "v = u\<lparr>eflags := 0x202, esp := sp\<rparr>"
  define r where "r = \<lparr>rg_edi = 0, rg_esi = 0, rg_ebp = 0, rg_ebx = 0, rg_edx = 0, rg_ecx = 0,
       rg_eax = 0, rg_gs = 0, rg_fs = 0x33, rg_es = 0x33, rg_ds = 0x33, rg_eip = prog, rg_cs = 0x2b, rg_ss = Some (0x33 :: u32)\<rparr>"
  have frm: "istacks u ?frm = (istacks s1 ?frm)\<lparr>is_esp := 0xc000000, is_ss := 0x33\<rparr>"
    by (simp add: u_def upd_istack_def t(6) sel)
  have rpl: "sel_rpl 0x2b = 3" "(3 :: u8) \<noteq> 0" "take_bit 16 (0x33 :: u32) = 0x33" "take_bit 16 (0x2b :: u32) = 0x2b" by code_simp+
  have fi: "is_cs (istacks u ?frm) = 0x2b" "is_ss (istacks u ?frm) = 0x33" "is_esp (istacks u ?frm) = 0xc000000"
    unfolding frm by (simp_all add: s1_def upd_istack_def sel)
  have ie: "iret_esp ?frm u = Inr sp"
    unfolding iret_esp_def Let_def fi rpl(1) using rpl(2) user_selectors(4) [OF su] by (simp add: sp_def gu)
  have ex: "intr_exit ?frm u = (if desc_top (gdt s 5) < prog then Inl (Trap 13) else Inr (r, v))"
    unfolding intr_exit_def Let_def ie unfolding frm
    by (simp add: s1_def upd_istack_def sel v_def r_def user_selectors [OF su] rpl gu)
  have top: "mapped t 0xbfffffc = Some (pa + 0xffc)"
    using translate_offset [OF va(1), of 1023 "pmem t" "cr3 t"] t(3) by (simp add: mapped_def)
  have v: "same_mem t v" by (simp add: v_def u_def upd_istack_def same_mem_def)
  have "mm_inv v" using t(2) same_mem_mm_inv [OF v] by simp
  then have "in_user prog s r v pa"
    unfolding in_user_def using t(5) top same_mem_heap(7) [OF v] h(7)
    by (simp add: r_def push_addr_def) (simp add: v_def sp_def push_low_half)
  moreover have "start_process prog s = (if desc_top (gdt s 5) < prog then Stop (Trap 13) else Return r v)"
    unfolding go ex by simp
  ultimately show thesis using that t(4) pool by simp
qed

section \<open>Properties\<close>

text \<open>C27. \<open>start_process\<close> enters user code only when the program starts within the user code segment: then at its address, with the
  user segments at privilege level 3, interrupts on, the I/O privilege level 0 and all other registers 0.  The page below
  0xc000000 was free in the user pool and is mapped for the process, and no other translation is changed; it is the stack when
  descriptor 6 is that of a 32-bit segment, otherwise the process pushes at 0xfffc.  For every other address \<open>iret\<close> raises
  the exception 13; with the descriptors that \<open>tss_init\<close> makes, this is so for every program above 0xfffff.\<close>

theorem start_process_enters_user:
  assumes "user_space s" and "lock_avail s (pool_lock (user_pool s))" and "mapped s 0xbfff000 = None"
    and "kfree s \<noteq> 0" and "ufree s \<noteq> 0" and "user_segments s"
  shows "(prog \<le> desc_top (gdt s 5) \<longrightarrow>
      (\<exists>r t pa. start_process prog s = Return r t \<and> in_user prog s r t pa \<and> free_page (user_pool s) (bytes s) pa)) \<and>
    (desc_top (gdt s 5) < prog \<longrightarrow> start_process prog s = Stop (Trap 13)) \<and>
    (gdt s 5 = gdt (tss_init a z) 5 \<and> 0xfffff < prog \<longrightarrow> start_process prog s = Stop (Trap 13))"
proof -
  obtain r t pa where t: "start_process prog s = (if desc_top (gdt s 5) < prog then Stop (Trap 13) else Return r t)"
    "in_user prog s r t pa" "free_page (user_pool s) (bytes s) pa"
    by (rule start_process_cases [OF assms])
  then show ?thesis using tss_init_code_top [of a z] by (auto simp: not_less)
qed

text \<open>A process on the concrete memory of \<open>MemoryProps\<close>, for the example.\<close>

definition sample_process :: "ktss \<Rightarrow> ktss" where
  "sample_process s = (sample_mm s)\<lparr>esp := 0xc0101e00, lk_repeat := \<lambda>_. 0, sem_value := \<lambda>_. 1,
     tasks := (tasks s)(0xc0101000 := zero_task\<lparr>pgdir := 0xc0102000,
       userprog_vaddr := \<lparr>vaddr_bitmap = \<lparr>btmp_bytes_len = user_bitmap_bytes, bits = 0xc009a000 + of_nat 0x69000\<rparr>,
         vaddr_start = USER_VADDR_START\<rparr>\<rparr>)\<rparr>"

lemma sample_process_ok:
  "user_space (sample_process s)" "lock_avail (sample_process s) (pool_lock (user_pool (sample_process s)))"
  "mapped (sample_process s) 0xbfff000 = None" "kfree (sample_process s) = 8" "ufree (sample_process s) = 8"
proof -
  have sm: "same_mem (sample_mm s) (sample_process s)" by (simp add: same_mem_def sample_process_def)
  note h = same_mem_heap [OF sm]
  have run: "running_thread (sample_process s) = 0xc0101000" by (simp add: sample_process_def running_thread_def)
  define b where "b = \<lparr>btmp_bytes_len = user_bitmap_bytes, bits = 0xc009a000 + of_nat 0x69000\<rparr>"
  have ap: "bitmap_apart b (pool_bitmap (sample_pool k a))" if "k < 8" for k a
    by (rule bitmap_apart_seq [of _ "0xc009a000" "0x69000" _ k]) (use that in \<open>simp_all add: b_def user_bitmap_values\<close>)
  have vb: "userprog_vaddr (tasks (sample_process s) 0xc0101000) = \<lparr>vaddr_bitmap = b, vaddr_start = USER_VADDR_START\<rparr>"
    "pgdir (tasks (sample_process s) 0xc0101000) \<noteq> NULL" by (simp_all add: sample_process_def b_def)
  show "user_space (sample_process s)"
    unfolding user_space_def run same_mem_mm_inv [OF sm] Let_def vb(1) using vb(2) ap [of 0] ap [of 1] sample_mm_inv [of s]
    by (simp add: sample_process_def) (simp add: b_def)
  show "lock_avail (sample_process s) (pool_lock (user_pool (sample_process s)))"
    by (simp add: lock_avail_def sample_process_def)
  have "pdi 0xbfff000 \<noteq> 1023" by (simp add: pdi_def drop_bit_eq_div word_div_def)
  then show "mapped (sample_process s) 0xbfff000 = None" unfolding h(7) by (rule sample_unmapped)
  show "kfree (sample_process s) = 8" "ufree (sample_process s) = 8" unfolding h by simp_all
qed

text \<open>The same process with the descriptors of \<open>tss_init\<close>, and with descriptors that have the granularity and the 32-bit bit.\<close>

definition small_segments :: "ktss \<Rightarrow> ktss" where
  "small_segments s = s\<lparr>gdtr := gdtr (tss_init 0 s), gdt := gdt (tss_init 0 s)\<rparr>"

definition full_segments :: "ktss \<Rightarrow> ktss" where
  "full_segments s = s\<lparr>gdtr := gdt_operand, gdt := (\<lambda>i. make_gdt_desc NULL 0xfffff
     (if i = 5 then GDT_CODE_ATTR_LOW_DPL3 else GDT_DATA_ATTR_LOW_DPL3) 0xc0)\<rparr>"

lemma segments_only:
  fixes s :: ktss and g :: u64 and d :: "nat \<Rightarrow> gdt_desc"
  defines "t \<equiv> s\<lparr>gdtr := g, gdt := d\<rparr>"
  shows "user_space t = user_space s" "lock_avail t l = lock_avail s l" "mapped t x = mapped s x" "kfree t = kfree s" "ufree t = ufree s"
    "user_pool t = user_pool s"
proof -
  have sm: "same_mem s t" by (simp add: t_def same_mem_def)
  note h = same_mem_heap [OF sm]
  show "user_space t = user_space s"
    unfolding user_space_def same_mem_mm_inv [OF sm] by (simp add: t_def running_thread_def)
  show "lock_avail t l = lock_avail s l" "user_pool t = user_pool s" by (simp_all add: t_def lock_avail_def running_thread_def)
  show "mapped t x = mapped s x" "kfree t = kfree s" "ufree t = ufree s" using h by simp_all
qed

lemma full_segments_desc:
  "user_segments (full_segments s)" "desc_top (gdt (full_segments s) 5) = 0xffffffff" "desc_32bit (gdt (full_segments s) 6)"
  "user_segments (small_segments s)" "gdt (small_segments s) 5 = gdt (tss_init 0 s) 5"
proof -
  have g: "take_bit 16 gdt_operand = 8 * 7 - 1" "desc_top (make_gdt_desc NULL 0xfffff GDT_CODE_ATTR_LOW_DPL3 0xc0) = 0xffffffff"
    "desc_32bit (make_gdt_desc NULL 0xfffff GDT_DATA_ATTR_LOW_DPL3 0xc0)" by code_simp+
  then show "user_segments (full_segments s)" by (simp add: user_segments_def full_segments_def make_gdt_desc_def)
  show "desc_top (gdt (full_segments s) 5) = 0xffffffff" "desc_32bit (gdt (full_segments s) 6)" using g by (simp_all add: full_segments_def)
  show "user_segments (small_segments s)" using tss_init_user_segments [of 0 s] by (simp add: user_segments_def small_segments_def)
  show "gdt (small_segments s) 5 = gdt (tss_init 0 s) 5" by (simp add: small_segments_def)
qed

theorem start_process_enters_user_witness:
  "\<forall>s. start_process 0x8048000 (small_segments (sample_process s)) = Stop (Trap 13) \<and>
     (\<exists>r t. start_process 0x8048000 (full_segments (sample_process s)) = Return r t \<and> rg_eip r = 0x8048000 \<and> rg_cs r AND 3 = 3 \<and>
       esp t = 0xc000000 \<and> mapped t 0xbfffffc \<noteq> None)"
proof
  fix s
  let ?s = "small_segments (sample_process s)" and ?f = "full_segments (sample_process s)"
  note ok = sample_process_ok [of s]
  have "user_space ?s" "lock_avail ?s (pool_lock (user_pool ?s))" "mapped ?s 0xbfff000 = None" "kfree ?s \<noteq> 0" "ufree ?s \<noteq> 0"
    unfolding small_segments_def segments_only using ok by simp_all
  from start_process_enters_user [OF this full_segments_desc(4), of "0x8048000" 0 "sample_process s"]
  have a: "start_process 0x8048000 ?s = Stop (Trap 13)" using full_segments_desc(5) [of "sample_process s"] by simp
  have "user_space ?f" "lock_avail ?f (pool_lock (user_pool ?f))" "mapped ?f 0xbfff000 = None" "kfree ?f \<noteq> 0" "ufree ?f \<noteq> 0"
    unfolding full_segments_def segments_only using ok by simp_all
  from start_process_enters_user [OF this full_segments_desc(1), of "0x8048000" 0 s]
  have "\<exists>r t pa. start_process 0x8048000 ?f = Return r t \<and> in_user 0x8048000 ?f r t pa"
    unfolding full_segments_desc(2) by (auto simp: word_le_nat_alt)
  then have b: "\<exists>r t. start_process 0x8048000 ?f = Return r t \<and> rg_eip r = 0x8048000 \<and> rg_cs r AND 3 = 3 \<and>
       esp t = 0xc000000 \<and> mapped t 0xbfffffc \<noteq> None"
    using full_segments_desc(3) [of "sample_process s"] unfolding in_user_def by auto
  from a b show "start_process 0x8048000 ?s = Stop (Trap 13) \<and> (\<exists>r t. start_process 0x8048000 ?f = Return r t \<and> rg_eip r = 0x8048000 \<and>
       rg_cs r AND 3 = 3 \<and> esp t = 0xc000000 \<and> mapped t 0xbfffffc \<noteq> None)" by simp
qed

text \<open>C28. \<open>create_page_dir\<close> returns a page directory on the next page of the kernel heap that maps itself, has the kernel
  half of the active directory and an empty user half, so that kernel addresses are translated as before and user
  addresses not at all.  The invariant of the allocator is kept and no other translation changes.\<close>

theorem create_page_dir_shares_kernel:
  assumes "heap_ok s" and "heap_used s k" and "k < bitmap_bits (kvb s)" and "2 \<le> kfree s"
  shows "\<exists>t pa. create_page_dir s = Return (kpage s k) t \<and> heap_ok t \<and> heap_used t (k + 1) \<and>
    mapped t (kpage s k) = Some pa \<and> self_mapped (pmem t) pa \<and>
    (\<forall>va. 768 \<le> pdi va \<and> pdi va < 1023 \<longrightarrow> translate (pmem t) pa va = mapped t va) \<and>
    (\<forall>va. pdi va < 768 \<longrightarrow> translate (pmem t) pa va = None) \<and>
    (\<forall>x. upper x \<and> frame x \<noteq> kpage s k \<longrightarrow> mapped t x = mapped s x)"
proof -
  obtain t pa where "create_page_dir s = Return (kpage s k) t" "heap_ok t" "heap_used t (k + 1)"
    "mapped t (kpage s k) = Some pa" "user_dir t pa" "\<forall>x. upper x \<and> frame x \<noteq> kpage s k \<longrightarrow> mapped t x = mapped s x"
    by (rule create_page_dir_ok [OF assms])
  then show ?thesis using user_dir_translate [of t pa] by (intro exI [of _ t] exI [of _ pa]) (simp add: user_dir_def)
qed

lemma sample_heap: "heap_ok (sample_mm s)" "heap_used (sample_mm s) 0" "kpage (sample_mm s) 0 = 0xc0100000"
    "bitmap_bits (kvb (sample_mm s)) = 8"
  using sample_mm_inv [of s] sample_virt [of s]
  by (simp_all add: heap_ok_def kpage_def heap_used_def kvb_def bitmap_bits_def bit_free_def)

theorem create_page_dir_shares_kernel_witness:
  "\<forall>s :: kcon. \<exists>t pa. create_page_dir (sample_mm s) = Return 0xc0100000 t \<and> mapped t 0xc0100000 = Some pa \<and>
     translate (pmem t) pa 0xc0100000 = Some pa \<and> translate (pmem t) pa 0x8048000 = None"
proof
  fix s :: kcon
  have p: "pdi 0xc0100000 = 768" "pdi 0x8048000 = 32" by (simp_all add: pdi_def drop_bit_eq_div word_div_def)
  obtain t pa where "create_page_dir (sample_mm s) = Return 0xc0100000 t" "mapped t 0xc0100000 = Some pa"
    "\<forall>va. 768 \<le> pdi va \<and> pdi va < 1023 \<longrightarrow> translate (pmem t) pa va = mapped t va" "\<forall>va. pdi va < 768 \<longrightarrow> translate (pmem t) pa va = None"
    using create_page_dir_shares_kernel [of "sample_mm s" 0] sample_heap [of s] by auto
  then show "\<exists>t pa. create_page_dir (sample_mm s) = Return 0xc0100000 t \<and> mapped t 0xc0100000 = Some pa \<and>
     translate (pmem t) pa 0xc0100000 = Some pa \<and> translate (pmem t) pa 0x8048000 = None"
    using p by (intro exI [of _ t] exI [of _ pa]) simp
qed

text \<open>C29. \<open>process_activate\<close> for a process loads the physical address of its page directory and its kernel stack: from
  then on kernel addresses are translated as before and a new process has no user address.  For a kernel thread it
  goes back to the directory at 0x100000 and leaves the task state segment alone.  NULL fails the assertion.\<close>

theorem process_activate_switches:
  assumes "mm_inv s" and "p \<noteq> NULL" and "pgdir (tasks s p) \<noteq> NULL" and "mapped s (pgdir (tasks s p)) = Some pa" and "user_dir s pa"
  shows "(\<exists>t. process_activate p s = Inr t \<and> cr3 t = pa \<and> esp0 (the_tss t) = p + PG_SIZE \<and>
      (\<forall>va. pdi va < 768 \<longrightarrow> mapped t va = None) \<and>
      (\<forall>va. 768 \<le> pdi va \<and> pdi va < 1023 \<longrightarrow> mapped t va = mapped s va) \<and>
      (\<forall>q. q \<noteq> NULL \<and> pgdir (tasks t q) = NULL \<longrightarrow> process_activate q t = Inr (t\<lparr>cr3 := 0x100000\<rparr>))) \<and>
    process_activate NULL s = Inl (Panic ''process_activate'' ''p_thread'')"
proof -
  let ?t = "update_tss_esp p (s\<lparr>cr3 := pa\<rparr>)"
  have "addr_v2p (pgdir (tasks s p)) s = Inr pa"
    using mm_inv_self [OF assms(1)] assms(4) by (intro addr_v2p_translate) (simp_all add: mapped_def)
  then have go: "process_activate p s = Inr ?t"
    using assms(2,3) by (simp add: process_activate_def page_dir_activate_def)
  have t: "mapped ?t va = translate (pmem s) pa va" "cr3 ?t = pa" "esp0 (the_tss ?t) = p + PG_SIZE" for va
    by (simp_all add: update_tss_esp_def mapped_def)
  have "process_activate q ?t = Inr (?t\<lparr>cr3 := 0x100000\<rparr>)" if "q \<noteq> NULL" "pgdir (tasks ?t q) = NULL" for q
    using that by (simp add: process_activate_def page_dir_activate_def)
  moreover have "process_activate NULL s = Inl (Panic ''process_activate'' ''p_thread'')" by (simp add: process_activate_def)
  ultimately show ?thesis using go t user_dir_translate [OF assms(5)] by auto
qed

theorem process_activate_switches_witness:
  "\<forall>s :: ktss. \<exists>t u. create_page_dir (sample_mm s) = Return 0xc0100000 t \<and>
     process_activate 0xc0200000 (upd_task 0xc0200000 (\<lambda>x. x\<lparr>pgdir := 0xc0100000\<rparr>) t) = Inr u \<and> esp0 (the_tss u) = 0xc0201000 \<and>
     mapped u 0x8048000 = None"
proof
  fix s :: ktss
  obtain t pa where t: "create_page_dir (sample_mm s) = Return 0xc0100000 t" "heap_ok t" "mapped t 0xc0100000 = Some pa" "user_dir t pa"
    by (rule create_page_dir_ok [of "sample_mm s" 0]) (use sample_heap [of s] in auto)
  define u where "u = upd_task 0xc0200000 (\<lambda>x. x\<lparr>pgdir := 0xc0100000\<rparr>) t"
  have u: "same_mem t u" "pgdir (tasks u 0xc0200000) = 0xc0100000" by (simp_all add: u_def)
  have "mm_inv u" "mapped u 0xc0100000 = Some pa" "user_dir u pa"
    using t(2-4) same_mem_mm_inv [OF u(1)] same_mem_heap(7) [OF u(1)] by (simp_all add: heap_ok_def user_dir_def u_def upd_task_def)
  with process_activate_switches [of u "0xc0200000" pa] u(2)
  have "\<exists>v. process_activate 0xc0200000 u = Inr v \<and> esp0 (the_tss v) = 0xc0201000 \<and> (\<forall>va. pdi va < 768 \<longrightarrow> mapped v va = None)"
    by auto
  moreover have "pdi 0x8048000 < 768" by (simp add: pdi_def drop_bit_eq_div word_div_def)
  ultimately show "\<exists>t u. create_page_dir (sample_mm s) = Return 0xc0100000 t \<and>
     process_activate 0xc0200000 (upd_task 0xc0200000 (\<lambda>x. x\<lparr>pgdir := 0xc0100000\<rparr>) t) = Inr u \<and> esp0 (the_tss u) = 0xc0201000 \<and>
     mapped u 0x8048000 = None"
    using t(1) unfolding u_def by blast
qed

end
