(* ===== verification/Exec.thy ===== *)
theory Exec
  imports Process
begin

text \<open>
  What \<open>process_execute\<close> of \<open>src/userprog/process.c\<close> leaves, and what happens when the scheduler gives the processor to
  the new process: the steps of \<open>Process\<close> are put together here.
\<close>

section \<open>Output through the console\<close>

text \<open>The state after output by a thread that can take the lock.\<close>

definition printed :: "(screen \<Rightarrow> screen) \<Rightarrow> 'a kcon_scheme \<Rightarrow> 'a kcon_scheme" where
  "printed f s = lock_held (console_lock s) 0 (s\<lparr>scr := f (scr s)\<rparr>)"

lemma lock_held_idem: "lock_held l n (lock_held l n s) = lock_held l n s"
  by (simp add: lock_held_def running_thread_def)

lemma printed_fields [simp]:
  fixes s :: "'a kcon_scheme"
  shows "console_lock (printed f s) = console_lock s" "tasks (printed f s) = tasks s" "tstacks (printed f s) = tstacks s"
    "lnext (printed f s) = lnext s" "lprev (printed f s) = lprev s" "esp (printed f s) = esp s" "eflags (printed f s) = eflags s"
    "running_thread (printed f s) = running_thread s" "pid_lock (printed f s) = pid_lock s" "next_pid (printed f s) = next_pid s"
    "thread_ready_list (printed f s) = thread_ready_list s" "thread_all_list (printed f s) = thread_all_list s"
    "main_thread (printed f s) = main_thread s" "lock_avail (printed f s) (console_lock s)"
    "l \<noteq> console_lock s \<Longrightarrow> lock_avail (printed f s) l = lock_avail s l" "same_mem u (printed f s) = same_mem u s"
  by (simp_all add: printed_def lock_avail_again lock_avail_held_other)
    (simp_all add: lock_held_def lock_avail_def running_thread_def same_mem_def)

lemma printed_printed: "printed g (printed f s) = printed (\<lambda>x. g (f x)) s"
proof -
  have "(lock_held l n s)\<lparr>scr := a\<rparr> = lock_held l n (s\<lparr>scr := a\<rparr>)" for l n a by (simp add: lock_held_def)
  then show ?thesis using lock_held_idem [of "console_lock s" 0 "s\<lparr>scr := g (f (scr s))\<rparr>"] by (simp add: printed_def lock_held_def)
qed

lemma console_printed:
  assumes "lock_avail s (console_lock s)"
  shows "console_put_str str s = Return () (printed (put_str str) s)" "console_put_int n s = Return () (printed (put_int n) s)"
  using locked_output_avail [OF assms] by (simp_all add: console_put_eq printed_def)

section \<open>The bitmap of user addresses\<close>

definition user_vaddr :: "addr \<Rightarrow> virtual_addr" where
  "user_vaddr a = \<lparr>vaddr_bitmap = \<lparr>btmp_bytes_len = user_bitmap_bytes, bits = a\<rparr>, vaddr_start = USER_VADDR_START\<rparr>"

lemma user_vaddr_filled:
  "v\<lparr>vaddr_start := USER_VADDR_START, vaddr_bitmap := (vaddr_bitmap v)\<lparr>bits := a, btmp_bytes_len := user_bitmap_bytes\<rparr>\<rparr> = user_vaddr a"
  by (rule virtual_addr.equality) (auto simp: user_vaddr_def intro: bitmap.equality)

lemma memset_zero: "(\<And>x. x - a < n \<Longrightarrow> m x = 0) \<Longrightarrow> a \<noteq> NULL \<Longrightarrow> memset a 0 n m = Inr m"
  by (simp add: memset_def fun_eq_iff memset_loop_apply)

lemma create_user_vaddr_bitmap_ok:
  assumes ok: "heap_ok s" and used: "heap_used s k" "k + 23 \<le> bitmap_bits (kvb s)" and mem: "46 \<le> kfree s"
  obtains t where "create_user_vaddr_bitmap p s = Inr t" and "heap_ok t" and "heap_used t (k + 23)" and "kfree s \<le> kfree t + 46"
    and "mem_step (upd_vaddr p (\<lambda>_. user_vaddr (kpage s k)) s) t" and "ufree s \<le> ufree t + 23"
proof -
  define s1 where "s1 = upd_vaddr p (\<lambda>v. v\<lparr>vaddr_start := USER_VADDR_START\<rparr>) s"
  let ?va = "kpage s k"
  have s1: "same_mem s s1" by (simp add: s1_def upd_vaddr_def)
  note h = same_mem_heap [OF s1]
  have nn: "?va \<noteq> NULL" by (rule kpage_props(3)) (use ok used in \<open>auto simp: heap_ok_def\<close>)
  obtain t1 where t1: "get_kernel_pages (of_nat 23) s1 = Inr (?va, t1)" "heap_ok t1" "heap_used t1 (k + 23)" "kfree s \<le> kfree t1 + 46"
    "\<forall>a. a - ?va < of_nat 23 * PG_SIZE \<longrightarrow> bytes t1 a = 0" "ufree s \<le> ufree t1 + 23"
    by (rule get_kernel_pages_next [of s1 23 k]) (use ok used mem h in simp_all)
  note step = mem_step_get_kernel_pages [OF t1(1)]
  define t where "t = upd_vaddr p (\<lambda>_. user_vaddr ?va) t1"
  have "upd_vaddr p (\<lambda>v. v\<lparr>vaddr_bitmap := (vaddr_bitmap v)\<lparr>btmp_bytes_len := user_bitmap_bytes\<rparr>\<rparr>)
      (upd_vaddr p (\<lambda>v. v\<lparr>vaddr_bitmap := (vaddr_bitmap v)\<lparr>bits := ?va\<rparr>\<rparr>) t1) = t"
    using mem_step_fields(4) [OF step] by (simp add: t_def upd_vaddr_def upd_task_def s1_def user_vaddr_filled)
  moreover have "bitmap_init (vaddr_bitmap (userprog_vaddr (tasks t p))) (bytes t) = Inr (bytes t)"
  proof -
    have "bytes t1 x = 0" if "x - ?va < user_bitmap_bytes" for x
      using that t1(5) by (auto simp: word_less_nat_alt user_bitmap_values)
    then have "memset ?va 0 user_bitmap_bytes (bytes t1) = Inr (bytes t1)" using nn by (rule memset_zero)
    then show ?thesis by (simp add: bitmap_init_def t_def user_vaddr_def upd_vaddr_def upd_task_def)
  qed
  ultimately have "create_user_vaddr_bitmap p s = Inr t"
    using t1(1) by (simp add: create_user_vaddr_bitmap_def Let_def user_bitmap_values(2) flip: s1_def)
  moreover have sm: "same_mem t1 t" by (simp add: t_def upd_vaddr_def)
  moreover have "mem_step (upd_vaddr p (\<lambda>_. user_vaddr ?va) s) t"
    using step by (simp add: mem_step_def t_def upd_vaddr_def upd_task_def s1_def)
  ultimately show thesis using t1(2-4,6) same_mem_heap [OF sm] by (intro that [of t]) simp_all
qed

lemma user_bitmap_apart:
  assumes ok: "heap_ok s" and k: "k + 23 \<le> bitmap_bits (kvb s)"
    and b: "b \<in> {pool_bitmap (kernel_pool s), pool_bitmap (user_pool s), kvb s}"
  shows "bitmap_apart (vaddr_bitmap (user_vaddr (kpage s k))) b"
  unfolding bitmap_apart_def
proof (intro allI impI notI)
  fix i j
  let ?b = "vaddr_bitmap (user_vaddr (kpage s k))"
  assume i: "i < bitmap_bits ?b" and j: "j < bitmap_bits b" and eq: "bits ?b + of_nat (i div 8) = bits b + of_nat (j div 8)"
  have "i div 8 < 94199" using i by (simp add: bitmap_bits_def user_vaddr_def user_bitmap_values less_mult_imp_div_less)
  then have "(of_nat (i div 8) :: u32) < of_nat 23 * PG_SIZE" by (simp add: word_less_nat_alt unat_of_nat_less)
  moreover have "bits b + of_nat (j div 8) - kpage s k = of_nat (i div 8)" using eq by (simp add: user_vaddr_def algebra_simps)
  ultimately have "bits b + of_nat (j div 8) - kpage s k < of_nat 23 * PG_SIZE" by simp
  then obtain n where "n < 23" "bits b + of_nat (j div 8) - kpage s (k + n) < PG_SIZE" by (rule page_of_run) simp
  moreover have "k + n < bitmap_bits (kvb s)" using k \<open>n < 23\<close> by simp
  ultimately show False using ok b j unfolding heap_ok_def heap_apart_def by blast
qed

section \<open>Executing a program\<close>

text \<open>The structure and the first stack frame of the new process.\<close>

definition process_task :: "addr \<Rightarrow> string \<Rightarrow> u16 \<Rightarrow> addr \<Rightarrow> addr \<Rightarrow> task_struct" where
  "process_task p nm n bm dir = (new_task p nm default_prip n TASK_READY)
     \<lparr>userprog_vaddr := user_vaddr bm, self_kstack := new_stack p, pgdir := dir\<rparr>"

definition thread_frame :: "u32 \<Rightarrow> u32 \<Rightarrow> u32 \<Rightarrow> thread_stack \<Rightarrow> thread_stack" where
  "thread_frame kt fn arg ts = ts\<lparr>ts_eip := kt, ts_function := fn, ts_func_arg := arg, ts_ebp := 0, ts_ebx := 0, ts_esi := 0, ts_edi := 0\<rparr>"

text \<open>The part of \<open>process_execute\<close> up to the list operations.\<close>

definition build_process :: "u32 \<Rightarrow> u32 \<Rightarrow> u32 \<Rightarrow> string \<Rightarrow> 'a kcon_scheme \<Rightarrow> ('a kcon_scheme, addr) run" where
  "build_process kt_addr sp_addr filename nm s =
     bindR (liftR (get_kernel_pages 1 s)) (\<lambda>thread s.
     bindR (console_put_str ''create user thread: name='' s) (\<lambda>_ s.
     bindR (console_put_str nm s) (\<lambda>_ s.
     bindR (console_put_int thread s) (\<lambda>_ s.
     bindR (console_put_str ''\<newline>'' s) (\<lambda>_ s.
     bindR (init_thread thread nm default_prip s) (\<lambda>_ s.
     bindR (stepR (create_user_vaddr_bitmap thread s)) (\<lambda>_ s.
     bindR (create_page_dir (thread_create kt_addr thread sp_addr filename s)) (\<lambda>dir s.
     Return thread (upd_task thread (\<lambda>t. t\<lparr>pgdir := dir\<rparr>) s)))))))))"

lemma console_lock_more:
  fixes s t :: "'a kcon_scheme"
  assumes "kstate.more t = kstate.more s"
  shows "console_lock t = console_lock s"
  using assms by (cases s; cases t; simp)

text \<open>The page of the thread, the message and \<open>init_thread\<close>.\<close>

lemma build_process_front:
  fixes s :: "'a kcon_scheme"
  assumes ok: "heap_ok s" and used: "heap_used s k" "k + 25 \<le> bitmap_bits (kvb s)" and mem: "50 \<le> kfree s"
    and lk: "lock_avail s (pid_lock s)" "lock_avail s (console_lock s)" "pid_lock s \<noteq> console_lock s"
    and nm: "length nm \<le> 16" and main: "main_thread s \<noteq> kpage s k"
  defines "p \<equiv> kpage s k"
  obtains c where "build_process kt sp prog nm s = bindR (stepR (create_user_vaddr_bitmap p c)) (\<lambda>_ s.
      bindR (create_page_dir (thread_create kt p sp prog s)) (\<lambda>dir s. Return p (upd_task p (\<lambda>t. t\<lparr>pgdir := dir\<rparr>) s)))"
    and "heap_ok c" and "heap_used c (k + 1)" and "kfree s \<le> kfree c + 2" and "ufree s \<le> ufree c + 1"
    and "tasks c = (tasks s)(p := new_task p nm default_prip (next_pid s + 1) TASK_READY)" and "tstacks c = tstacks s"
    and "lnext c = lnext (zero_tags p s)" and "lprev c = lprev (zero_tags p s)" and "esp c = esp s" and "eflags c = eflags s"
    and "thread_ready_list c = thread_ready_list s" and "thread_all_list c = thread_all_list s" and "next_pid c = next_pid s + 1"
    and "console_lock c = console_lock s" and "lock_avail c (console_lock s)"
    and "kernel_vaddr c = kernel_vaddr s" and "kernel_pool c = kernel_pool s" and "user_pool c = user_pool s"
proof -
  have v: "virt_ok s" using ok by (simp add: heap_ok_def)
  have p0: "p \<noteq> NULL" unfolding p_def by (rule kpage_props(3) [OF v]) (use used in simp)
  obtain a where a: "get_kernel_pages (of_nat 1) s = Inr (p, a)" "heap_ok a" "heap_used a (k + 1)" "kfree s \<le> kfree a + 2 * 1" "ufree s \<le> ufree a + 1"
    unfolding p_def by (rule get_kernel_pages_next [of s 1 k]) (use ok used mem in simp_all)
  note ma = mem_step_fields [OF mem_step_get_kernel_pages [OF a(1)]]
  have cl: "console_lock a = console_lock s" using ma(21) by (rule console_lock_more)
  have la: "lock_avail a l = lock_avail s l" for l by (simp add: lock_avail_def ma)
  have lka: "lock_avail a (console_lock a)" using lk(2) by (simp add: la cl)
  define b where "b = printed (\<lambda>x. put_str ''\<newline>'' (put_int p (put_str nm (put_str ''create user thread: name='' x)))) a"
  have out: "bindR (console_put_str ''create user thread: name='' a) (\<lambda>_ s.
      bindR (console_put_str nm s) (\<lambda>_ s. bindR (console_put_int p s) (\<lambda>_ s.
      bindR (console_put_str ''\<newline>'' s) g))) = g () b" for g :: "unit \<Rightarrow> 'a kcon_scheme \<Rightarrow> ('a kcon_scheme, addr) run"
    using lka by (simp add: console_printed printed_printed b_def)
  define c where "c = upd_task p (\<lambda>_. new_task p nm default_prip (next_pid s + 1) TASK_READY)
      (lock_held (pid_lock s) 0 ((zero_tags p b)\<lparr>next_pid := next_pid s + 1\<rparr>))"
  have init: "init_thread p nm default_prip b = Return () c"
    using init_thread_ok [OF p0, of b nm default_prip] lk(1,3) nm main by (simp add: b_def c_def la cl ma p_def)
  have c: "same_mem a c" "tasks c = (tasks s)(p := new_task p nm default_prip (next_pid s + 1) TASK_READY)" "tstacks c = tstacks s"
    "lnext c = lnext (zero_tags p s)" "lprev c = lprev (zero_tags p s)" "esp c = esp s" "eflags c = eflags s"
    "thread_ready_list c = thread_ready_list s" "thread_all_list c = thread_all_list s" "next_pid c = next_pid s + 1"
    "console_lock c = console_lock s"
    unfolding c_def b_def using cl by (simp_all add: ma) (simp_all add: upd_task_def lock_held_def zero_tags_def printed_def ma)
  have "lock_avail b (console_lock s)" using printed_fields(14) [of _ a] by (simp add: b_def cl)
  then have lc: "lock_avail c (console_lock s)"
    using lk(3) by (simp add: c_def lock_avail_held_other) (simp add: lock_avail_def running_thread_def zero_tags_def)
  note hc = same_mem_heap [OF c(1)]
  have "kernel_vaddr c = kernel_vaddr s" "kernel_pool c = kernel_pool s" "user_pool c = user_pool s"
    using c(1) by (simp_all add: same_mem_def ma)
  moreover have "build_process kt sp prog nm s = bindR (stepR (create_user_vaddr_bitmap p c)) (\<lambda>_ s.
      bindR (create_page_dir (thread_create kt p sp prog s)) (\<lambda>dir s. Return p (upd_task p (\<lambda>t. t\<lparr>pgdir := dir\<rparr>) s)))"
    using a(1) by (simp add: build_process_def out init)
  ultimately show thesis using a(2-5) c lc hc by (intro that [of c]) simp_all
qed

lemma build_process_ok:
  fixes s :: "'a kcon_scheme"
  assumes ok: "heap_ok s" and used: "heap_used s k" "k + 25 \<le> bitmap_bits (kvb s)" and mem: "50 \<le> kfree s"
    and lk: "lock_avail s (pid_lock s)" "lock_avail s (console_lock s)" "pid_lock s \<noteq> console_lock s"
    and nm: "length nm \<le> 16" and main: "main_thread s \<noteq> kpage s k"
  defines "p \<equiv> kpage s k"
  obtains t pa where "build_process kt sp prog nm s = Return p t"
    and "heap_ok t" and "heap_used t (k + 25)" and "kfree s \<le> kfree t + 50"
    and "mapped t (kpage s (k + 24)) = Some pa" and "user_dir t pa" and "unused_pages t [pa]" and "\<not> avail t pa"
    and "tasks t = (tasks s)(p := process_task p nm (next_pid s + 1) (kpage s (k + 1)) (kpage s (k + 24)))"
    and "tstacks t = (tstacks s)(new_stack p := thread_frame kt sp prog (tstacks s (new_stack p)))"
    and "lnext t = lnext (zero_tags p s)" and "lprev t = lprev (zero_tags p s)" and "esp t = esp s" and "eflags t = eflags s"
    and "thread_ready_list t = thread_ready_list s" and "thread_all_list t = thread_all_list s"
    and "lock_avail t (console_lock t)" and "next_pid t = next_pid s + 1" and "console_lock t = console_lock s"
    and "kvb t = kvb s" and "kpage t = kpage s" and "kernel_pool t = kernel_pool s" and "user_pool t = user_pool s"
    and "ufree s \<le> ufree t + 25"
proof -
  obtain c where front: "build_process kt sp prog nm s = bindR (stepR (create_user_vaddr_bitmap p c)) (\<lambda>_ s.
      bindR (create_page_dir (thread_create kt p sp prog s)) (\<lambda>dir s. Return p (upd_task p (\<lambda>t. t\<lparr>pgdir := dir\<rparr>) s)))"
    and a: "heap_ok c" "heap_used c (k + 1)" "kfree s \<le> kfree c + 2" "ufree s \<le> ufree c + 1"
    and c: "tasks c = (tasks s)(p := new_task p nm default_prip (next_pid s + 1) TASK_READY)" "tstacks c = tstacks s"
    "lnext c = lnext (zero_tags p s)" "lprev c = lprev (zero_tags p s)" "esp c = esp s" "eflags c = eflags s"
    "thread_ready_list c = thread_ready_list s" "thread_all_list c = thread_all_list s" "next_pid c = next_pid s + 1"
    "console_lock c = console_lock s" "lock_avail c (console_lock s)"
    and kc: "kernel_vaddr c = kernel_vaddr s" "kernel_pool c = kernel_pool s" "user_pool c = user_pool s"
    unfolding p_def by (rule build_process_front [OF ok used mem lk nm main, of kt sp prog])
  have kvc: "kvb c = kvb s" "kpage c = kpage s" by (simp_all add: kvb_def kpage_def kc fun_eq_iff)
  obtain d where d: "create_user_vaddr_bitmap p c = Inr d" "heap_ok d" "heap_used d (k + 1 + 23)" "kfree c \<le> kfree d + 46"
    "mem_step (upd_vaddr p (\<lambda>_. user_vaddr (kpage c (k + 1))) c) d" "ufree c \<le> ufree d + 23"
    by (rule create_user_vaddr_bitmap_ok [of c "k + 1" p]) (use a used mem kvc in simp_all)
  note md = mem_step_fields [OF d(5)]
  define e where "e = thread_create kt p sp prog d"
  let ?T = "(new_task p nm default_prip (next_pid s + 1) TASK_READY)\<lparr>userprog_vaddr := user_vaddr (kpage s (k + 1))\<rparr>"
  have td: "tasks d = (tasks s)(p := ?T)" using kvc(2) by (simp add: md upd_vaddr_def upd_task_def c(1))
  have kd: "self_kstack (tasks d p) = p + PG_SIZE" by (simp add: td new_task_def)
  have ud: "lnext d = lnext c" "lprev d = lprev c" "esp d = esp c" "eflags d = eflags c" "tstacks d = tstacks c"
    "thread_ready_list d = thread_ready_list c" "thread_all_list d = thread_all_list c" "next_pid d = next_pid c"
    "lock_avail d l = lock_avail c l" "kernel_vaddr d = kernel_vaddr c" "kernel_pool d = kernel_pool c" "user_pool d = user_pool c" for l
    by (simp_all add: md upd_vaddr_def upd_task_def lock_avail_def running_thread_def)
  have cd: "console_lock d = console_lock s"
    using console_lock_more [OF md(21)] c(10) by (simp add: upd_vaddr_def upd_task_def)
  have se: "same_mem d e" "console_lock e = console_lock s" by (simp_all add: e_def cd) (simp add: thread_create_def Let_def upd_task_def cd)
  note he = same_mem_heap [OF se(1)]
  have kd2: "kvb d = kvb s" "kpage d = kpage s" by (simp_all add: kvb_def kpage_def ud kc fun_eq_iff)
  have d24: "heap_used d (k + 24)" using d(3) by (simp add: add.commute)
  obtain x pa where x: "create_page_dir e = Return (kpage e (k + 24)) x" "heap_ok x" "heap_used x (k + 24 + 1)" "kfree e \<le> kfree x + 2"
    "mapped x (kpage e (k + 24)) = Some pa" "user_dir x pa" "mem_step e x" "unused_pages x [pa]" "\<not> avail x pa" "ufree e \<le> ufree x + 1"
    by (rule create_page_dir_ok [of e "k + 24"]) (use a(1,3) d(2,4) d24 used mem he kd2 in simp_all)
  note mx = mem_step_fields [OF x(7)]
  define t where "t = upd_task p (\<lambda>t. t\<lparr>pgdir := kpage s (k + 24)\<rparr>) x"
  have go: "build_process kt sp prog nm s = Return p t"
    using x(1) by (simp add: front d(1) he(3) kd2 t_def flip: e_def)
  note eqs = thread_create_eq [OF kd, of kt sp prog, folded e_def]
  have st: "same_mem x t" by (simp add: t_def)
  note ht = same_mem_heap [OF st]
  show thesis
  proof (rule that [OF go])
    show "heap_ok t" "heap_used t (k + 25)" "kfree s \<le> kfree t + 50" "ufree s \<le> ufree t + 25"
      using x(2-4,10) d(4,6) a(3,4) ht he by (simp_all add: add.commute)
    show "mapped t (kpage s (k + 24)) = Some pa" using x(5) ht(7) he(3) kd2 by simp
    show "user_dir t pa" "unused_pages t [pa]" "\<not> avail t pa"
      using x(6,8,9) st by (simp_all add: user_dir_def unused_pages_def table_at_def table_frame_def same_mem_def avail_def)
    show "tasks t = (tasks s)(p := process_task p nm (next_pid s + 1) (kpage s (k + 1)) (kpage s (k + 24)))"
      by (simp add: t_def upd_task_def mx eqs td process_task_def)
    show "tstacks t = (tstacks s)(new_stack p := thread_frame kt sp prog (tstacks s (new_stack p)))"
      by (simp add: t_def upd_task_def mx eqs ud c thread_frame_def)
    show "lnext t = lnext (zero_tags p s)" "lprev t = lprev (zero_tags p s)" "esp t = esp s" "eflags t = eflags s"
      "thread_ready_list t = thread_ready_list s" "thread_all_list t = thread_all_list s" "next_pid t = next_pid s + 1"
      by (simp_all add: t_def mx e_def ud c upd_task_def)
    have "console_lock x = console_lock e" using mx(21) by (rule console_lock_more)
    then show ct: "console_lock t = console_lock s" using se by (simp add: t_def upd_task_def)
    have "lock_avail x l = lock_avail e l" for l by (simp add: lock_avail_def mx)
    then show "lock_avail t (console_lock t)" using c(11) unfolding ct by (simp add: t_def e_def ud)
    have kv: "kernel_vaddr t = kernel_vaddr s" "kernel_pool t = kernel_pool s" "user_pool t = user_pool s"
      using se(1) by (simp_all add: t_def upd_task_def mx same_mem_def ud kc)
    then show "kvb t = kvb s" "kpage t = kpage s" "kernel_pool t = kernel_pool s" "user_pool t = user_pool s"
      by (simp_all add: kvb_def kpage_def fun_eq_iff)
  qed
qed

lemma cli_thread_fields [simp]:
  "tasks (cli s) = tasks s" "esp (cli s) = esp s" "lnext (cli s) = lnext s" "lprev (cli s) = lprev s"
  "thread_ready_list (cli s) = thread_ready_list s" "thread_all_list (cli s) = thread_all_list s"
  "running_thread (cli s) = running_thread s" "same_mem u (cli s) = same_mem u s"
  by (simp_all add: cli_eq running_thread_def same_mem_def)

text \<open>The list operations in a section with interrupts off.\<close>

definition enter_lists :: "string \<Rightarrow> string \<Rightarrow> addr \<Rightarrow> 'a kstate_scheme \<Rightarrow> 'a kstate_scheme res" where
  "enter_lists fn txt p s =
     (let (old_status, s) = intr_disable s in
      bindE (enter_ready fn p s) (\<lambda>s. bindE (enter_all fn txt p s) (\<lambda>s. Inr (snd (intr_set_status old_status s)))))"

lemma enter_lists_ok:
  assumes inv: "threads_inv s ps as" and fr: "page_fresh s ps as p" and st: "status (tasks s p) = TASK_READY" and sv: "saved_ok s p"
  obtains t where "enter_lists fn tx p s = Inr t" and "threads_inv t (ps @ [p]) (as @ [p])" and "same_mem s t" and "tasks t = tasks s"
    and "tstacks t = tstacks s" and "eflags t = eflags s" and "esp t = esp s" and "lock_avail t = lock_avail s"
    and "next_pid t = next_pid s" and "kstate.more t = kstate.more s"
proof -
  let ?c = "cli s"
  have inv_c: "threads_inv ?c ps as" "page_fresh ?c ps as p" "status (tasks ?c p) = TASK_READY" "saved_ok ?c p"
    using assms by (simp_all add: threads_inv_def sched_inv_cli page_fresh_def saved_ok_def) (simp add: list_at_def cli_eq)
  note en = enter_threads [OF inv_c]
  let ?u = "list_append (thread_all_list s) (all_list_tag p) (list_append (thread_ready_list s) (general_tag p) ?c)"
  define t where "t = snd (intr_set_status (intr_get_status s) ?u)"
  have go: "enter_lists fn tx p s = Inr t"
    using en(1,2) by (simp add: enter_lists_def case_prod_unfold Let_def t_def fst_intr_disable)
  have fl: "eflags ?u = clear_IF (eflags s)" by (simp add: list_append_def list_insert_before_eq cli_eq)
  have t: "t = ?u\<lparr>eflags := eflags s\<rparr>" unfolding t_def restore_intr_eq fl by (simp add: intr_get_status_eq)
  have more: "kstate.more (list_append l e s) = kstate.more s" "lock_avail (cli s) = lock_avail s" "tstacks (cli s) = tstacks s"
    "next_pid (cli s) = next_pid s" "kstate.more (cli s) = kstate.more s" for l e and s :: "'a kstate_scheme"
    by (simp_all add: list_append_def list_insert_before_eq cli_eq lock_avail_def running_thread_def fun_eq_iff)
  have fx: "same_mem w (v\<lparr>eflags := x\<rparr>) = same_mem w v" "lock_avail (v\<lparr>eflags := x\<rparr>) = lock_avail v" for v w :: "'a kstate_scheme" and x
    by (simp_all add: same_mem_def lock_avail_def running_thread_def fun_eq_iff)
  have "threads_inv t (ps @ [p]) (as @ [p])"
    using en(3) by (simp add: threads_inv_def t)
  moreover have "same_mem s t" "tasks t = tasks s" "eflags t = eflags s" "tstacks t = tstacks s" "esp t = esp s" "next_pid t = next_pid s"
      "lock_avail t = lock_avail s" "kstate.more t = kstate.more s"
    unfolding t by (simp_all add: more fx)
  ultimately show thesis by (intro that [OF go])
qed

lemma process_execute_eq:
  "process_execute kt sp prog nm s = bindR (build_process kt sp prog nm s) (\<lambda>thread s.
     bindR (stepR (enter_lists ''process_execute'' ''!elem_find(&thread_all_list, &thread->all_list_tag)'' thread s)) (\<lambda>_ s.
     console_put_str ''process_execute end\<newline>'' s))"
proof -
  have step: "bindR (stepR (bindE m f)) g = bindR (stepR m) (\<lambda>_ s. bindR (stepR (f s)) g)" for m f and g :: "unit \<Rightarrow> 'a kcon_scheme \<Rightarrow> ('a kcon_scheme, unit) run"
    by (cases m) simp_all
  show ?thesis
    by (simp add: process_execute_def build_process_def enter_lists_def bindR_assoc Let_def case_prod_unfold step)
qed

lemma process_execute_ok:
  fixes s :: "'a kcon_scheme"
  assumes inv: "threads_inv s ps as" and ok: "heap_ok s" and used: "heap_used s k" "k + 25 \<le> bitmap_bits (kvb s)" and mem: "50 \<le> kfree s"
    and lk: "lock_avail s (pid_lock s)" "lock_avail s (console_lock s)" "pid_lock s \<noteq> console_lock s"
    and nm: "length nm \<le> 16" and fr: "page_fresh s ps as (kpage s k)" and main: "main_thread s \<noteq> kpage s k"
  defines "p \<equiv> kpage s k"
  obtains t pa where "process_execute kt sp prog nm s = Return () t" and "threads_inv t (ps @ [p]) (as @ [p])"
    and "heap_ok t" and "heap_used t (k + 25)" and "kfree s \<le> kfree t + 50"
    and "mapped t (kpage s (k + 24)) = Some pa" and "user_dir t pa" and "unused_pages t [pa]" and "\<not> avail t pa"
    and "tasks t = (tasks s)(p := process_task p nm (next_pid s + 1) (kpage s (k + 1)) (kpage s (k + 24)))"
    and "tstacks t = (tstacks s)(new_stack p := thread_frame kt sp prog (tstacks s (new_stack p)))"
    and "eflags t = eflags s" and "esp t = esp s" and "kvb t = kvb s" and "kpage t = kpage s"
    and "kernel_pool t = kernel_pool s" and "user_pool t = user_pool s" and "ufree s \<le> ufree t + 25"
proof -
  obtain b pa where b: "build_process kt sp prog nm s = Return p b" "heap_ok b" "heap_used b (k + 25)" "kfree s \<le> kfree b + 50"
    "mapped b (kpage s (k + 24)) = Some pa" "user_dir b pa" "unused_pages b [pa]" "\<not> avail b pa"
    "tasks b = (tasks s)(p := process_task p nm (next_pid s + 1) (kpage s (k + 1)) (kpage s (k + 24)))"
    "tstacks b = (tstacks s)(new_stack p := thread_frame kt sp prog (tstacks s (new_stack p)))"
    "lnext b = lnext (zero_tags p s)" "lprev b = lprev (zero_tags p s)" "esp b = esp s" "eflags b = eflags s"
    "thread_ready_list b = thread_ready_list s" "thread_all_list b = thread_all_list s"
    "lock_avail b (console_lock b)" "next_pid b = next_pid s + 1" "console_lock b = console_lock s"
    "kvb b = kvb s" "kpage b = kpage s" "kernel_pool b = kernel_pool s" "user_pool b = user_pool s"
    "ufree s \<le> ufree b + 25"
    unfolding p_def by (rule build_process_ok [OF ok used mem lk nm main])
  have run: "running_thread b = running_thread s" by (simp add: running_thread_def b)
  have frp: "page_fresh s ps as p" using fr by (simp add: p_def)
  have inv_b: "threads_inv b ps as"
    by (rule threads_inv_cong [OF inv page_fresh_not(1,3) [OF frp] _ b(13,15,16) _ frp]) (simp_all add: b(9,11,12) zero_tags_def)
  have fr_b: "page_fresh b ps as p" using frp by (simp add: page_fresh_def run b)
  have p: "page_aligned p" unfolding p_def by (rule kpage_props(2)) (use ok used in \<open>auto simp: heap_ok_def\<close>)
  have tk: "self_kstack (tasks b p) = new_stack p" "status (tasks b p) = TASK_READY" by (simp_all add: b process_task_def new_task_def)
  obtain e where e: "enter_lists ''process_execute'' ''!elem_find(&thread_all_list, &thread->all_list_tag)'' p b = Inr e"
    "threads_inv e (ps @ [p]) (as @ [p])" "same_mem b e" "tasks e = tasks b" "tstacks e = tstacks b" "eflags e = eflags b" "esp e = esp b"
    "lock_avail e = lock_avail b" "next_pid e = next_pid b" "kstate.more e = kstate.more b"
    by (rule enter_lists_ok [OF inv_b fr_b tk(2) new_stack_saved [OF p tk(1)]])
  have le: "lock_avail e (console_lock e)" using b(17) e(8) console_lock_more [OF e(10)] by simp
  define t where "t = printed (put_str ''process_execute end\<newline>'') e"
  have "process_execute kt sp prog nm s = Return () t"
    by (simp add: process_execute_eq b(1) e(1) console_printed(1) [OF le] t_def)
  moreover have "threads_inv t (ps @ [p]) (as @ [p])"
    using e(2) by (simp add: threads_inv_def sched_inv_def ready_queue_def saved_ok_def stack_ok_def tag_apart_def t_def list_at_def)
  moreover have st: "same_mem b t" using e(3) by (simp add: t_def)
  moreover have "user_dir t pa" "unused_pages t [pa]" "\<not> avail t pa" "kernel_pool t = kernel_pool s" "user_pool t = user_pool s"
    using b(6,7,8,22,23) st by (simp_all add: user_dir_def unused_pages_def table_at_def table_frame_def same_mem_def avail_def)
  ultimately show thesis
    using same_mem_heap [OF st] b e by (intro that [of t pa]) (simp_all add: t_def)
qed

section \<open>Running the process\<close>

text \<open>With the directory of a new process active, the invariant of the page tables holds for it.\<close>

lemma pdi_cases: "pdi x < 768 \<or> 768 \<le> pdi x \<and> pdi x < 1023 \<or> pdi x = 1023"
proof -
  have "unat (pdi x) = unat x div 2 ^ 22" by (simp add: pdi_def drop_bit_eq_div unat_div)
  then have "unat (pdi x) < 1024" using unsigned_less [of x, where 'a = nat] by (simp add: less_mult_imp_div_less)
  then show ?thesis unfolding word_less_nat_alt word_le_nat_alt word_unat_eq_iff by auto
qed

lemma user_dir_mm_inv:
  assumes inv: "mm_inv s" and ud: "user_dir s pa" and un: "unused_pages s [pa]" and av: "\<not> avail s pa"
  shows "mm_inv (s\<lparr>cr3 := pa\<rparr>)"
proof -
  let ?t = "s\<lparr>cr3 := pa\<rparr>"
  have pa: "frame pa = pa" "self_mapped (pmem s) pa" using ud by (simp_all add: user_dir_def)
  have tab: "768 \<le> pdi x \<and> pdi x < 1023 \<and> table_at s x \<and> table_frame ?t x = table_frame s x \<or> pdi x = 1023 \<and> table_frame ?t x = pa"
    if "table_at ?t x" for x
  proof -
    have "pmem s (pde_pa pa x) = 0" if "pdi x < 768" using ud that by (simp add: user_dir_def)
    moreover have "pmem s (pde_pa pa x) = pmem s (pde_pa (cr3 s) x)" if "768 \<le> pdi x" "pdi x < 1023"
      using ud that by (simp add: user_dir_def)
    moreover have "frame (pmem s (pde_pa pa x)) = pa" if "pdi x = 1023"
      using that pde_pa_eq_iff [of pa x "-1"] pa by (simp add: pdi_window self_mapped_def)
    ultimately show ?thesis using that pdi_cases [of x] by (auto simp: table_at_def table_frame_def)
  qed
  have old: "\<not> avail s (table_frame s x)" "table_frame s x \<noteq> pa" if "table_at s x" for x
    using inv un that by (auto simp: mm_inv_def unused_pages_def)
  have dist: "table_frame s x \<noteq> table_frame s y" if "table_at s x" "table_at s y" "pdi x \<noteq> pdi y" "768 \<le> pdi x" "768 \<le> pdi y" for x y
  proof -
    have "pdi x \<noteq> 0" "pdi y \<noteq> 0" using that(4,5) by auto
    then show ?thesis using inv that(1-3) unfolding mm_inv_def by blast
  qed
  have av': "avail ?t = avail s" by (simp add: avail_def fun_eq_iff)
  have "table_frame ?t x \<noteq> table_frame ?t y" if "table_at ?t x" "table_at ?t y" "pdi x \<noteq> pdi y" for x y
    using tab [OF that(1)] tab [OF that(2)] that(3) dist [of x y] old(2) [of x] old(2) [of y] by auto
  moreover have "\<not> avail s (table_frame ?t x)" if "table_at ?t x" for x using tab [OF that] old(1) [of x] av by auto
  moreover have "table_frame ?t x \<noteq> pa" if "table_at ?t x" "pdi x \<noteq> 1023" for x using tab [OF that(1)] that(2) old(2) [of x] by auto
  ultimately show ?thesis using inv pa unfolding mm_inv_def av' by simp
qed

lemma process_runs:
  fixes u :: "'a ktss_scheme"
  assumes inv: "mm_inv u" and ud: "user_dir u pa" "unused_pages u [pa]" "\<not> avail u pa" "mapped u dir = Some pa"
    and tk: "tasks u p = process_task p nm n bm dir" and p: "running_thread u = p" "p \<noteq> NULL" "dir \<noteq> NULL"
    and ap: "bitmap_apart (vaddr_bitmap (user_vaddr bm)) (pool_bitmap (kernel_pool u))"
      "bitmap_apart (vaddr_bitmap (user_vaddr bm)) (pool_bitmap (user_pool u))"
    and lk: "lock_avail u (pool_lock (user_pool u))" and mem: "kfree u \<noteq> 0" "ufree u \<noteq> 0"
    and seg: "user_segments u"
  shows "\<exists>v r w pa'. process_activate p u = Inr v \<and>
    start_process prog v = (if desc_top (gdt u 5) < prog then Stop (Trap 13) else Return r w) \<and> in_user prog v r w pa' \<and>
    gdt v = gdt u \<and> (\<forall>va. 768 \<le> pdi va \<and> pdi va < 1023 \<longrightarrow> mapped w va = mapped u va)"
proof -
  define v where "v = update_tss_esp p (u\<lparr>cr3 := pa\<rparr>)"
  have "addr_v2p dir u = Inr pa" using mm_inv_self [OF inv] ud(4) by (intro addr_v2p_translate) (simp_all add: mapped_def)
  then have act: "process_activate p u = Inr v"
    using p tk by (simp add: process_activate_def page_dir_activate_def v_def process_task_def)
  have v: "same_mem (u\<lparr>cr3 := pa\<rparr>) v" "tasks v = tasks u" "running_thread v = p" "lock_avail v l = lock_avail u l" for l
    using p by (simp_all add: v_def update_tss_esp_def same_mem_def running_thread_def lock_avail_def)
  have inv_v: "mm_inv v" using user_dir_mm_inv [OF inv ud(1-3)] same_mem_mm_inv [OF v(1)] by simp
  have pools: "kernel_pool v = kernel_pool u" "user_pool v = user_pool u" "bytes v = bytes u" using v(1) by (simp_all add: same_mem_def)
  have us: "user_space v"
    using inv_v ap tk p(3) by (simp add: user_space_def v(2,3) pools process_task_def Let_def) (simp add: user_vaddr_def)
  have map: "mapped v va = translate (pmem u) pa va" for va by (simp add: v_def update_tss_esp_def mapped_def)
  have "pdi 0xbfff000 < 768" by (simp add: pdi_def drop_bit_eq_div word_div_def)
  then have new: "mapped v 0xbfff000 = None" unfolding map by (rule user_dir_translate(1) [OF ud(1)])
  have g: "gdt v = gdt u" "gdtr v = gdtr u" by (simp_all add: v_def update_tss_esp_def)
  have sv: "user_segments v" using seg by (simp add: user_segments_def g)
  obtain r w pa' where w: "start_process prog v = (if desc_top (gdt v 5) < prog then Stop (Trap 13) else Return r w)" "in_user prog v r w pa'"
    by (rule start_process_cases [OF us _ new _ _ sv, of prog]) (use lk mem in \<open>simp_all add: v(4) pools\<close>)
  have "mapped w va = mapped u va" if "768 \<le> pdi va \<and> pdi va < 1023" for va
  proof -
    have "pdi (frame va) = pdi va" by (simp add: pdi_eq_iff frame_bit)
    moreover have "pdi 0xbfff000 = 47" by (simp add: pdi_def drop_bit_eq_div word_div_def)
    ultimately have "upper va" "frame va \<noteq> 0xbfff000" using that by (auto simp: upper_def)
    then show ?thesis using w(2) user_dir_translate(2) [OF ud(1), of va] that by (simp add: map in_user_def)
  qed
  with act w g show ?thesis by metis
qed

end
