(* ===== verification/Boot.thy ===== *)
theory Boot
  imports Exec
begin

text \<open>
  The page tables that the loader leaves (\<open>setup_page\<close> of \<open>src/boot/loader.S\<close>), and the memory management that
  \<open>mem_init\<close> of \<open>src/kernel/memory.c\<close> builds on them.  \<open>setup_page\<close> clears the page directory only: that the
  words of the page tables do not look like present entries is a condition on the memory.
\<close>

section \<open>Model\<close>

abbreviation (input) PAGE_DIR_TABLE_POS :: u32 where "PAGE_DIR_TABLE_POS \<equiv> 0x100000"

text \<open>The loop \<open>.clear_page_dir\<close>, by words.\<close>

fun clear_page_dir :: "nat \<Rightarrow> u32 \<Rightarrow> (u32 \<Rightarrow> u32) \<Rightarrow> u32 \<Rightarrow> u32" where
  "clear_page_dir 0 a pm = pm"
| "clear_page_dir (Suc n) a pm = clear_page_dir n (a + 4) (pm(a := 0))"

text \<open>The loops \<open>.create_pte\<close> and \<open>.create_kernel_pde\<close>: entries for consecutive pages.\<close>

fun create_entries :: "nat \<Rightarrow> u32 \<Rightarrow> u32 \<Rightarrow> (u32 \<Rightarrow> u32) \<Rightarrow> u32 \<Rightarrow> u32" where
  "create_entries 0 a e pm = pm"
| "create_entries (Suc n) a e pm = create_entries n (a + 4) (e + PG_SIZE) (pm(a := e))"

definition setup_page :: "(u32 \<Rightarrow> u32) \<Rightarrow> u32 \<Rightarrow> u32" where
  "setup_page pm =
     (let pm = clear_page_dir 1024 PAGE_DIR_TABLE_POS pm;
          ebx = PAGE_DIR_TABLE_POS + PG_SIZE;
          eax = ebx OR (PG_US_U OR PG_RW_W OR PG_P_1);
          pm = pm(PAGE_DIR_TABLE_POS := eax);
          pm = pm(PAGE_DIR_TABLE_POS + 0xc00 := eax);
          pm = pm(PAGE_DIR_TABLE_POS + PG_SIZE - 4 := PAGE_DIR_TABLE_POS OR PG_US_U OR PG_RW_W OR PG_P_1);
          pm = create_entries 256 ebx (PG_US_U OR PG_RW_W OR PG_P_1) pm;
          eax = (PAGE_DIR_TABLE_POS + 2 * PG_SIZE) OR (PG_US_U OR PG_RW_W OR PG_P_1)
      in create_entries 254 (PAGE_DIR_TABLE_POS + 4 * 769) eax pm)"

section \<open>The tables of the loader\<close>

lemma create_entries_other:
  "(\<And>i. i < n \<Longrightarrow> x \<noteq> a + 4 * of_nat i) \<Longrightarrow> create_entries n a e pm x = pm x"
proof (induction n arbitrary: a e pm)
  case (Suc n)
  have "x \<noteq> a + 4 + 4 * of_nat i" if "i < n" for i using Suc.prems [of "Suc i"] that by (simp add: algebra_simps)
  moreover have "x \<noteq> a" using Suc.prems [of 0] by simp
  ultimately show ?case using Suc.IH by simp
qed simp

lemma create_entries_at:
  "n \<le> 1024 \<Longrightarrow> i < n \<Longrightarrow> create_entries n a e pm (a + 4 * of_nat i) = e + of_nat i * PG_SIZE"
proof (induction n arbitrary: i a e pm)
  case (Suc n)
  show ?case
  proof (cases i)
    case 0
    have "a \<noteq> a + 4 + 4 * of_nat j" if "j < n" for j
      using word_index_inj [of 0 "Suc j"] that Suc.prems(1) by (simp add: algebra_simps)
    then show ?thesis by (simp add: 0 create_entries_other)
  next
    case (Suc j)
    then show ?thesis using Suc.IH [of j "a + 4" "e + PG_SIZE" "pm(a := e)"] Suc.prems by (simp add: algebra_simps del: fun_upd_apply)
  qed
qed simp

lemma clear_page_dir_other:
  "(\<And>i. i < n \<Longrightarrow> x \<noteq> a + 4 * of_nat i) \<Longrightarrow> clear_page_dir n a pm x = pm x"
proof (induction n arbitrary: a pm)
  case (Suc n)
  have "x \<noteq> a + 4 + 4 * of_nat i" if "i < n" for i using Suc.prems [of "Suc i"] that by (simp add: algebra_simps)
  moreover have "x \<noteq> a" using Suc.prems [of 0] by simp
  ultimately show ?case using Suc.IH by simp
qed simp

lemma clear_page_dir_0: "pm x = 0 \<Longrightarrow> clear_page_dir n a pm x = 0"
  by (induction n arbitrary: a pm) simp_all

lemma clear_page_dir_at: "i < n \<Longrightarrow> clear_page_dir n a pm (a + 4 * of_nat i) = 0"
proof (induction n arbitrary: i a pm)
  case (Suc n)
  then show ?case
    using Suc.IH [of "i - 1" "a + 4" "pm(a := 0)"] by (cases i) (simp_all add: clear_page_dir_0 algebra_simps del: fun_upd_apply, simp add: clear_page_dir_0)
qed simp

text \<open>The directory and the first page table.\<close>

lemma frame_word: "i < 1024 \<Longrightarrow> frame (0x100000 + 4 * of_nat i) = 0x100000" "i < 1024 \<Longrightarrow> frame (0x101000 + 4 * of_nat i) = 0x101000"
  by (rule aligned_plus_fields(1); simp add: page_aligned_def pgoff_def)+

lemma setup_page_eq:
  "setup_page pm = create_entries 254 (0x100000 + 4 * of_nat 769) 0x102007 (create_entries 256 0x101000 7
     ((clear_page_dir 1024 0x100000 pm)(0x100000 + 4 * of_nat 0 := 0x101007, 0x100000 + 4 * of_nat 768 := 0x101007,
        0x100000 + 4 * of_nat 1023 := 0x100007)))"
  by (simp add: setup_page_def Let_def)

lemma entries_outside:
  assumes "\<And>i. i < n \<Longrightarrow> frame (a + 4 * of_nat i) = fr" and "frame x \<noteq> fr"
  shows "create_entries n a e pm x = pm x"
  using assms by (intro create_entries_other) auto

lemma dir_tail: "i < 254 \<Longrightarrow> 0x100000 + 4 * of_nat 769 + 4 * of_nat i = (0x100000 + 4 * of_nat (769 + i) :: u32)"
  by (simp add: algebra_simps)

lemma setup_page_dir:
  assumes i: "i < 1024"
  shows "setup_page pm (0x100000 + 4 * of_nat i) =
    (if i = 0 \<or> i = 768 then 0x101007 else if i = 1023 then 0x100007 else if i < 768 then 0 else 0x102007 + of_nat (i - 769) * PG_SIZE)"
proof (cases "769 \<le> i \<and> i < 1023")
  case True
  have "769 + (i - 769) = i" "i - 769 < 254" using True by linarith+
  then have x: "(0x100000 + 4 * of_nat i :: u32) = 0x100000 + 4 * of_nat 769 + 4 * of_nat (i - 769)"
    using dir_tail [of "i - 769"] by (simp only:)
  have "setup_page pm (0x100000 + 4 * of_nat 769 + 4 * of_nat (i - 769)) = 0x102007 + of_nat (i - 769) * PG_SIZE"
    unfolding setup_page_eq using True by (intro create_entries_at) auto
  then show ?thesis unfolding x using True by auto
next
  case False
  let ?pm = "(clear_page_dir 1024 0x100000 pm)(0x100000 + 4 * of_nat 0 := 0x101007, 0x100000 + 4 * of_nat 768 := 0x101007,
        0x100000 + 4 * of_nat 1023 := 0x100007)"
  let ?x = "0x100000 + 4 * of_nat i :: u32"
  have "?x \<noteq> 0x100000 + 4 * of_nat 769 + 4 * of_nat j" if "j < 254" for j
    unfolding dir_tail [OF that] using word_index_inj [OF i, of "769 + j"] False that by auto
  then have "setup_page pm ?x = create_entries 256 0x101000 7 ?pm ?x" unfolding setup_page_eq by (rule create_entries_other)
  also have "\<dots> = ?pm ?x"
    by (rule entries_outside [where fr = "0x101000"]) (use frame_word i in simp_all)
  also have "\<dots> = (if i = 1023 then 0x100007 else if i = 768 then 0x101007 else if i = 0 then 0x101007 else 0)"
    using word_index_inj [OF i, of 0] word_index_inj [OF i, of 768] word_index_inj [OF i, of 1023] clear_page_dir_at [OF i, of "0x100000" pm]
    by (simp add: i)
  finally show ?thesis using False i by auto
qed

lemma setup_page_outside:
  assumes "frame a \<noteq> 0x100000"
  shows "setup_page pm a = create_entries 256 0x101000 7 pm a"
proof -
  have fr: "frame (0x100000 + 4 * of_nat 769 + 4 * of_nat i) = 0x100000" if "i < 254" for i
    unfolding dir_tail [OF that] using that by (intro frame_word) simp
  have dir: "((clear_page_dir 1024 0x100000 pm)(0x100000 + 4 * of_nat 0 := 0x101007, 0x100000 + 4 * of_nat 768 := 0x101007,
      0x100000 + 4 * of_nat 1023 := 0x100007)) x = pm x" if "frame x \<noteq> 0x100000" for x
  proof -
    have "x \<noteq> 0x100000 + 4 * of_nat i" if "i < 1024" for i using frame_word(1) [OF that] \<open>frame x \<noteq> 0x100000\<close> by metis
    from this [of 0] this [of 768] this [of 1023] clear_page_dir_other [of 1024 x "0x100000" pm, OF this] show ?thesis by simp
  qed
  have "setup_page pm a = create_entries 256 0x101000 7 ((clear_page_dir 1024 0x100000 pm)(0x100000 + 4 * of_nat 0 := 0x101007,
      0x100000 + 4 * of_nat 768 := 0x101007, 0x100000 + 4 * of_nat 1023 := 0x100007)) a"
    unfolding setup_page_eq by (rule entries_outside [OF fr assms])
  also have "\<dots> = create_entries 256 0x101000 7 pm a"
  proof (cases "\<exists>i < 256. a = 0x101000 + 4 * of_nat i")
    case True
    then obtain i where i: "i < 256" "a = 0x101000 + 4 * of_nat i" by blast
    show ?thesis unfolding i(2) using i(1) by (subst (1 2) create_entries_at) simp_all
  next
    case False
    then have "a \<noteq> 0x101000 + 4 * of_nat i" if "i < 256" for i using that by blast
    from create_entries_other [OF this] dir [OF assms] show ?thesis by (simp only:)
  qed
  finally show ?thesis .
qed

lemma setup_page_table:
  assumes i: "i < 1024"
  shows "setup_page pm (0x101000 + 4 * of_nat i) = (if i < 256 then 7 + of_nat i * PG_SIZE else pm (0x101000 + 4 * of_nat i))"
proof -
  have "setup_page pm (0x101000 + 4 * of_nat i) = create_entries 256 0x101000 7 pm (0x101000 + 4 * of_nat i)"
    using frame_word(2) [OF i] by (intro setup_page_outside) simp
  also have "\<dots> = (if i < 256 then 7 + of_nat i * PG_SIZE else pm (0x101000 + 4 * of_nat i))"
  proof (cases "i < 256")
    case False
    then have "(0x101000 + 4 * of_nat i :: u32) \<noteq> 0x101000 + 4 * of_nat j" if "j < 256" for j using word_index_inj [OF i, of j] that by auto
    then show ?thesis using False by (simp add: create_entries_other)
  qed (simp add: create_entries_at)
  finally show ?thesis .
qed

lemma setup_page_other:
  assumes "frame a \<noteq> 0x100000" and "frame a \<noteq> 0x101000"
  shows "setup_page pm a = pm a"
  unfolding setup_page_outside [OF assms(1)]
  by (rule entries_outside [where fr = "0x101000"]) (use assms(2) frame_word(2) in simp_all)

text \<open>The memory as the loader leaves it for the kernel; the word at 0xb00 is the size of the memory.\<close>

definition loader_mem :: "'a kstate_scheme \<Rightarrow> u32 \<Rightarrow> bool" where
  "loader_mem s all_mem \<longleftrightarrow> cr3 s = 0x100000 \<and>
     (\<exists>pm. pmem s = setup_page pm \<and> pm 0xb00 = all_mem \<and> (\<forall>a. 0x101000 \<le> a \<and> a < 0x200000 \<longrightarrow> \<not> bit (pm a) 0))"

text \<open>The page number of the page table of directory entry \<open>n\<close>.\<close>

definition table_number :: "nat \<Rightarrow> nat" where
  "table_number n = (if n = 0 \<or> n = 768 then 0x101 else if n = 1023 then 0x100 else n - 769 + 0x102)"

lemma entry_fields:
  assumes "n < 0x100000"
  shows "frame (of_nat (4096 * n) + 7) = of_nat (4096 * n)" "bit (of_nat (4096 * n) + 7 :: u32) 0"
proof -
  have "unat (of_nat (4096 * n) :: u32) = 4096 * n" using assms by (intro unat_of_nat_less) simp
  then have al: "page_aligned (of_nat (4096 * n))" by (simp add: page_aligned_dvd)
  then have "of_nat (4096 * n) + 7 = (of_nat (4096 * n) OR 7 :: u32)"
    using frame_plus [of 7 "of_nat (4096 * n)"] by (simp only: bit_7) simp
  then show "frame (of_nat (4096 * n) + 7) = of_nat (4096 * n)" "bit (of_nat (4096 * n) + 7 :: u32) 0"
    using frame_or_7 [OF al] present_or_7 by (simp_all only:)
qed

lemma unat_pdi: "unat (pdi x) < 1024"
  using pdi_cases [of x] by (auto simp: word_less_nat_alt)

lemma loader_pde:
  assumes "loader_mem s m"
  shows "pmem s (pde_pa 0x100000 x) = (if pdi x \<noteq> 0 \<and> pdi x < 768 then 0 else of_nat (4096 * table_number (unat (pdi x))) + 7)"
proof -
  obtain pm where pm: "pmem s = setup_page pm" using assms by (auto simp: loader_mem_def)
  define n where "n = unat (pdi x)"
  have n: "pdi x = of_nat n" "n < 1024" "pdi x = 0 \<longleftrightarrow> n = 0" "pdi x < 768 \<longleftrightarrow> n < 768"
    using unat_pdi [of x] by (simp_all add: n_def word_less_nat_alt unat_eq_0)
  have "pde_pa 0x100000 x = 0x100000 + 4 * of_nat n" by (simp add: pde_pa_def frame_def n(1))
  then have "pmem s (pde_pa 0x100000 x) = setup_page pm (0x100000 + 4 * of_nat n)" by (simp only: pm)
  then show ?thesis unfolding n(3,4) n_def [symmetric] setup_page_dir [OF n(2)] by (auto simp: table_number_def)
qed

lemma table_number_bound: "n < 1024 \<Longrightarrow> n = 0 \<or> 768 \<le> n \<Longrightarrow> 0x100 \<le> table_number n \<and> table_number n < 0x200"
  by (auto simp: table_number_def)

lemma loader_tables:
  assumes "loader_mem s m"
  shows "table_at s x \<longleftrightarrow> pdi x = 0 \<or> 768 \<le> pdi x"
    and "table_at s x \<Longrightarrow> table_frame s x = of_nat (4096 * table_number (unat (pdi x)))"
    and "table_at s x \<Longrightarrow> 0x100 \<le> table_number (unat (pdi x)) \<and> table_number (unat (pdi x)) < 0x200"
proof -
  have cr: "cr3 s = 0x100000" using assms by (simp add: loader_mem_def)
  have b: "0x100 \<le> table_number (unat (pdi x)) \<and> table_number (unat (pdi x)) < 0x200" if "pdi x = 0 \<or> 768 \<le> pdi x"
    using that unat_pdi [of x] by (intro table_number_bound) (auto simp: word_le_nat_alt)
  show at: "table_at s x \<longleftrightarrow> pdi x = 0 \<or> 768 \<le> pdi x"
    using b entry_fields(2) [of "table_number (unat (pdi x))"]
    by (auto simp: table_at_def cr loader_pde [OF assms] not_less simp del: of_nat_mult split: if_splits)
  show "0x100 \<le> table_number (unat (pdi x)) \<and> table_number (unat (pdi x)) < 0x200" if "table_at s x" using b that at by simp
  show "table_frame s x = of_nat (4096 * table_number (unat (pdi x)))" if "table_at s x"
    using that b entry_fields(1) [of "table_number (unat (pdi x))"]
    by (simp add: at table_frame_def cr loader_pde [OF assms] del: of_nat_mult) (auto simp del: of_nat_mult)
qed

text \<open>No page of the kernel heap is mapped.\<close>

lemma heap_page_index:
  assumes "i < 32768"
  defines "va \<equiv> of_nat (0xc0100000 + 4096 * i) :: u32"
  shows "unat (pdi va) = 768 + (256 + i) div 1024" and "unat (pti va) = (256 + i) mod 1024"
proof -
  have va: "unat va = 0xc0100000 + 4096 * i" unfolding va_def using assms(1) by (intro unat_of_nat_less) simp
  have page: "unat va div 4096 = 768 * 1024 + (256 + i)" unfolding va by simp
  have "unat (pdi va) = unat va div 4096 div 1024" by (simp add: pdi_def drop_bit_eq_div unat_div div_mult2_eq [symmetric])
  also have "\<dots> = 768 + (256 + i) div 1024" unfolding page by simp
  finally show "unat (pdi va) = 768 + (256 + i) div 1024" .
  have "pti va = take_bit 10 (drop_bit 12 va)" unfolding pti_def mask_consts by (simp add: take_bit_eq_mask)
  then have "unat (pti va) = unat va div 4096 mod 1024" by (simp add: take_bit_eq_mod unat_mod drop_bit_eq_div unat_div)
  also have "\<dots> = (256 + i) mod 1024" unfolding page by (simp only: mod_mult_self3 mod_mult_self4 add.assoc)
  finally show "unat (pti va) = (256 + i) mod 1024" .
qed

lemma loader_heap:
  assumes mem: "loader_mem s m" and i: "i < 32768"
  defines "va \<equiv> of_nat (0xc0100000 + 4096 * i) :: u32"
  shows "upper va" and "mapped s va = None"
proof -
  define q r where "q = (256 + i) div 1024" and "r = (256 + i) mod 1024"
  have qr: "q \<le> 32" "r < 1024" "q = 0 \<Longrightarrow> 256 \<le> r" using i by (auto simp: q_def r_def)
  note idx = heap_page_index [OF i, folded va_def q_def r_def]
  have pd: "pdi va = of_nat (768 + q)" and pt: "pti va = of_nat r" using qr(1,2)
    unfolding word_unat_eq_iff idx by (simp_all add: unat_of_nat_less del: of_nat_add)
  show "upper va" using idx(1) qr(1) by (auto simp: upper_def word_unat_eq_iff)
  have tn: "table_number (768 + q) = 0x101 + q" using qr(1) by (auto simp: table_number_def)
  obtain pm where pm: "pmem s = setup_page pm" "\<And>a. 0x101000 \<le> a \<Longrightarrow> a < 0x200000 \<Longrightarrow> \<not> bit (pm a) 0" and cr: "cr3 s = 0x100000"
    using mem by (auto simp: loader_mem_def)
  have at: "table_at s va" unfolding loader_tables(1) [OF mem] using idx(1) by (simp add: word_le_nat_alt)
  have tf: "table_frame s va = of_nat (4096 * (0x101 + q))" using loader_tables(2) [OF mem at] unfolding idx tn .
  let ?a = "of_nat (4096 * (0x101 + q)) + 4 * of_nat r :: u32"
  have pte: "pte_pa (pmem s) (cr3 s) va = ?a" using tf by (simp only: pte_pa_def table_frame_def pt)
  have un: "unat ?a = 4096 * (0x101 + q) + 4 * r"
  proof -
    have "?a = of_nat (4096 * (0x101 + q) + 4 * r)" by simp
    then show ?thesis using qr by (simp only:) (rule unat_of_nat_less, simp)
  qed
  have range: "0x101000 \<le> ?a" "?a < 0x200000" using un qr by (simp_all only: word_le_nat_alt word_less_nat_alt) simp_all
  have "pmem s ?a = pm ?a"
  proof (cases "q = 0")
    case True
    then show ?thesis using setup_page_table [OF qr(2), of pm] qr(3) pm(1) by simp
  next
    case False
    have al: "page_aligned (of_nat (4096 * (0x101 + q)))"
      unfolding page_aligned_dvd using qr(1) by (subst unat_of_nat_less) simp_all
    have fr: "frame ?a = of_nat (4096 * (0x101 + q))" using aligned_plus_fields(1) [OF al qr(2)] .
    have "(of_nat (4096 * (0x101 + q)) :: u32) \<noteq> of_nat 0x100000" "(of_nat (4096 * (0x101 + q)) :: u32) \<noteq> of_nat 0x101000"
      using qr(1) False by (subst of_nat_u32_inj; simp)+
    then show ?thesis unfolding pm(1) by (intro setup_page_other) (simp_all only: fr of_nat_numeral not_False_eq_True)
  qed
  then have "\<not> bit (pmem s (pte_pa (pmem s) (cr3 s) va)) 0" using pm(2) [OF range] unfolding pte by simp
  then show "mapped s va = None" by (simp add: mapped_def translate_def Let_def)
qed

section \<open>Memory management after initialisation\<close>

text \<open>What the initialisation of memory leaves alone.\<close>

definition init_step :: "'a kstate_scheme \<Rightarrow> 'a kstate_scheme \<Rightarrow> bool" where
  "init_step s t \<longleftrightarrow> pmem t = pmem s \<and> cr3 t = cr3 s \<and> esp t = esp s \<and> tasks t = tasks s \<and> eflags t = eflags s \<and>
     thread_ready_list t = thread_ready_list s \<and> thread_all_list t = thread_all_list s \<and> pid_lock t = pid_lock s \<and>
     next_pid t = next_pid s \<and> idt_table t = idt_table s \<and> kstate.more t = kstate.more s \<and>
     pool_lock (kernel_pool t) = pool_lock (kernel_pool s) \<and> pool_lock (user_pool t) = pool_lock (user_pool s)"

lemma init_step_ops [simp]:
  "init_step s (t\<lparr>scr := a\<rparr>) = init_step s t" "init_step s (t\<lparr>bytes := b\<rparr>) = init_step s t"
  "init_step s (t\<lparr>kernel_vaddr := c\<rparr>) = init_step s t" "init_step s (lock_init l t) = init_step s t"
  "init_step s (pool_layout m t) = init_step s t" "init_step s (put_line x n e t) = init_step s t"
  "init_step s (pool_report t) = init_step s t" "init_step s s"
  by (simp_all add: init_step_def lock_init_def sema_init_def list_init_def pool_layout_def put_line_def pool_report_def Let_def)

lemma init_step_bitmap_clear: "bitmap_clear b t = Inr u \<Longrightarrow> init_step s u = init_step s t"
  by (auto simp: bitmap_clear_def split: sum.splits)

lemma init_step_show: "show_memory_size m t = Inr u \<Longrightarrow> init_step s u = init_step s t"
  by (auto simp: show_memory_size_def Let_def case_prod_unfold split: if_splits)

lemma init_step_mem_pool_init: "mem_pool_init m s = Inr t \<Longrightarrow> init_step s t"
  by (auto simp: mem_pool_init_def Let_def init_step_bitmap_clear init_step_show split: sum.splits)

lemma loader_mem_size:
  assumes "loader_mem s m"
  shows "vload32 0xb00 s = Inr m"
proof -
  obtain pm where pm: "pmem s = setup_page pm" "pm 0xb00 = m" and cr: "cr3 s = 0x100000" using assms by (auto simp: loader_mem_def)
  have z: "pdi 0xb00 = 0" "pti 0xb00 = 0" "pgoff 0xb00 = 0xb00" "frame 0xb00 = 0" "frame 7 = 0"
    by (simp_all add: pdi_def pti_def pgoff_def frame_def drop_bit_eq_div word_div_def)
  have at: "table_at s 0xb00" by (simp add: loader_tables(1) [OF assms] z)
  have tf: "table_frame s 0xb00 = 0x101000" using loader_tables(2) [OF assms at] by (simp add: z table_number_def)
  have pte: "pte_pa (pmem s) (cr3 s) 0xb00 = 0x101000" using tf by (simp add: pte_pa_def table_frame_def z)
  have "pmem s 0x101000 = 7" using setup_page_table [of 0 pm] by (simp add: pm)
  then have "mapped s 0xb00 = Some 0xb00"
    using at by (simp add: mapped_def translate_def table_at_def pte z Let_def)
  moreover have "pmem s 0xb00 = m" using setup_page_other [of "0xb00" pm] by (simp add: pm z)
  ultimately show ?thesis by (simp add: vload32_def mapped_def)
qed

lemma all_free_count:
  assumes "\<forall>i < bitmap_bits (pool_bitmap p). bit_free (pool_bitmap p) m i"
  shows "free_count p m = bitmap_bits (pool_bitmap p)"
proof -
  have "{i. i < pool_pages p \<and> bit_free (pool_bitmap p) m i} = {..<pool_pages p}" using assms by (auto simp: pool_pages_def)
  then show ?thesis by (simp add: free_count_def pool_pages_def)
qed

lemma loader_mm_inv:
  assumes mem: "loader_mem t m" and ok: "pool_ok (kernel_pool t)" "pool_ok (user_pool t)"
    and ap: "bitmap_apart (pool_bitmap (kernel_pool t)) (pool_bitmap (user_pool t))"
      "bitmap_apart (pool_bitmap (user_pool t)) (pool_bitmap (kernel_pool t))"
    and low: "\<And>i. i < pool_pages (kernel_pool t) \<Longrightarrow> 0x200000 \<le> unat (pool_page (kernel_pool t) i)"
      "\<And>j. j < pool_pages (user_pool t) \<Longrightarrow> 0x200000 \<le> unat (pool_page (user_pool t) j)"
    and dis: "\<And>i j. i < pool_pages (kernel_pool t) \<Longrightarrow> j < pool_pages (user_pool t) \<Longrightarrow> pool_page (kernel_pool t) i \<noteq> pool_page (user_pool t) j"
  shows "mm_inv t"
proof -
  have cr: "cr3 t = 0x100000" using mem by (simp add: loader_mem_def)
  have tf: "table_frame t x = of_nat (4096 * table_number (unat (pdi x)))" "unat (table_frame t x) = 4096 * table_number (unat (pdi x))"
    "table_number (unat (pdi x)) < 0x200" if "table_at t x" for x
    using loader_tables(2,3) [OF mem that] by (simp_all del: of_nat_mult add: unat_of_nat_less)
  have high: "0x200000 \<le> unat a" if "avail t a" for a using that low by (auto simp: avail_def free_page_def)
  have "\<not> avail t (table_frame t x)" if "table_at t x" for x using tf(2,3) [OF that] high by fastforce
  moreover have "table_frame t x \<noteq> frame (cr3 t)" if "table_at t x" "pdi x \<noteq> 1023" for x
  proof -
    have "unat (pdi x) \<noteq> 1023" using that(2) by (simp add: word_unat_eq_iff)
    then have "table_number (unat (pdi x)) \<noteq> 0x100" by (simp add: table_number_def)
    then have "unat (table_frame t x) \<noteq> unat (0x100000 :: u32)" using tf(2) [OF that(1)] by simp
    then show ?thesis by (auto simp: cr frame_def)
  qed
  moreover have "table_frame t x \<noteq> table_frame t y" if "table_at t x" "table_at t y" "pdi x \<noteq> pdi y" "pdi x \<noteq> 0" "pdi y \<noteq> 0" for x y
  proof -
    have "768 \<le> unat (pdi x)" "768 \<le> unat (pdi y)" "unat (pdi x) \<noteq> unat (pdi y)"
      using that loader_tables(1) [OF mem] by (auto simp: word_le_nat_alt word_unat_eq_iff)
    then have "table_number (unat (pdi x)) \<noteq> table_number (unat (pdi y))" by (auto simp: table_number_def)
    then show ?thesis using tf(2) [OF that(1)] tf(2) [OF that(2)] by auto
  qed
  moreover have "self_mapped (pmem t) (cr3 t)"
  proof -
    have "pmem t (self_pa 0x100000) = 0x100007"
      using loader_pde [OF mem, of "-1"] by (simp add: pdi_window table_number_def)
    then show ?thesis by (simp add: self_mapped_def cr frame_def)
  qed
  ultimately show ?thesis using ok ap dis unfolding mm_inv_def by blast
qed

lemma bitmap_below_heap:
  assumes "y < 0x4000" and "j < 32768"
  shows "\<not> MEM_BITMAP_BASE + of_nat y - of_nat (0xc0100000 + 4096 * j) < (PG_SIZE :: u32)"
proof -
  have "MEM_BITMAP_BASE + of_nat y - of_nat (0xc0100000 + 4096 * j) = (of_nat (2 ^ 32 - 0x66000 + y - 4096 * j) :: u32)"
    using assms by (simp add: of_nat_diff)
  moreover have "unat (of_nat (2 ^ 32 - 0x66000 + y - 4096 * j) :: u32) = 2 ^ 32 - 0x66000 + y - 4096 * j"
    using assms by (intro unat_of_nat_less) simp
  ultimately show ?thesis using assms by (simp only: word_less_nat_alt) simp
qed

lemma mem_init_ok:
  assumes mem: "loader_mem s m" and big: "0x200000 \<le> unat m" and small: "free_pages m < 2 ^ 16"
  defines "K \<equiv> free_pages m div 2 div 8" and "U \<equiv> (free_pages m - free_pages m div 2) div 8"
  obtains t where "mem_init s = Inr t" and "heap_ok t" and "heap_used t 0" and "bitmap_bits (kvb t) = 8 * K"
    and "kfree t = 8 * K" and "ufree t = 8 * U" and "\<And>i. kpage t i = of_nat (0xc0100000 + 4096 * i)" and "init_step s t"
proof -
  define F where "F = free_pages m"
  define s0 where "s0 = kput_str ''    mem_init start \<newline>'' s"
  have F: "F mod 2 ^ 16 = F" "K = F div 2 div 8" "U = (F - F div 2) div 8" using small by (simp_all add: F_def K_def U_def)
  have KU: "K \<le> 4096" "U \<le> 4096" using small by (simp_all add: F(2,3) F_def)
  have F16: "F < 2 ^ 16" and m: "0x200000 + 4096 * F \<le> unat m" using small big by (simp_all add: F_def free_pages_def)
  note mpi = mem_pool_init_values [OF big, of s0, folded F_def, unfolded F(1), folded F(2,3)]
  obtain u where u: "mem_pool_init m s0 = Inr u"
    "phy_addr_start (kernel_pool u) = 0x200000" "phy_addr_start (user_pool u) = of_nat (0x200000 + 4096 * (F div 2))"
    "pool_bitmap (kernel_pool u) = \<lparr>btmp_bytes_len = of_nat K, bits = MEM_BITMAP_BASE + of_nat 0\<rparr>"
    "pool_bitmap (user_pool u) = \<lparr>btmp_bytes_len = of_nat U, bits = MEM_BITMAP_BASE + of_nat K\<rparr>"
    "kernel_vaddr u = \<lparr>vaddr_bitmap = \<lparr>btmp_bytes_len = of_nat K, bits = MEM_BITMAP_BASE + of_nat (K + U)\<rparr>, vaddr_start = K_HEAP_START\<rparr>"
    "\<forall>b \<in> {pool_bitmap (kernel_pool u), pool_bitmap (user_pool u), kvb u}. \<forall>i < bitmap_bits b. bit_free b (bytes u) i"
    by (rule mpi)
  define t where "t = kput_str ''    mem_init done \<newline>'' u"
  have tu: "same_mem u t" "init_step s t" using init_step_mem_pool_init [OF u(1)] by (simp_all add: t_def same_mem_def s0_def init_step_def)
  have go: "mem_init s = Inr t"
  proof -
    have "vload32 0xb00 s0 = vload32 0xb00 s" by (simp add: vload32_def s0_def split: option.split)
    then show ?thesis using loader_mem_size [OF mem] u(1) by (simp add: mem_init_def t_def Let_def flip: s0_def kput_str_def)
  qed
  have lm: "loader_mem u m" using mem init_step_mem_pool_init [OF u(1)] by (simp add: loader_mem_def init_step_def s0_def)
  have kv: "kvb u = \<lparr>btmp_bytes_len = of_nat K, bits = MEM_BITMAP_BASE + of_nat (K + U)\<rparr>" by (simp add: kvb_def u(6))
  note lay = layout_ok [OF F16 m F(2,3) u(2-5) kv]
  have kp: "kpage u i = of_nat (0xc0100000 + 4096 * i)" for i by (simp add: kpage_def nth_page_def u(6))
  have bits: "bitmap_bits (kvb u) = 8 * K" using KU by (simp add: kv small_bitmap)
  have inv: "mm_inv u"
    by (rule loader_mm_inv [OF lm lay(3,4,8,9)]) (use lay(1,2,5,7) in \<open>simp_all\<close>, use lay(1,2,6) in fastforce)
  have virt: "virt_ok u"
    unfolding virt_ok_def bits kp using lay(10-12) KU loader_heap [OF lm] by (simp add: u(6) page_aligned_dvd)
  have free: "\<forall>i < bitmap_bits b. bit_free b (bytes u) i" if "b \<in> {pool_bitmap (kernel_pool u), pool_bitmap (user_pool u), kvb u}" for b
    using u(7) that by blast
  have used: "heap_used u 0" using free [of "kvb u"] by (simp add: heap_used_def)
  have kf: "kfree u = 8 * K" "ufree u = 8 * U"
    using free all_free_count lay(1,2) by (simp_all add: pool_pages_def)
  have apart: "heap_apart u"
    unfolding heap_apart_def bits
  proof (intro ballI allI impI)
    fix b i j
    assume b: "b \<in> {pool_bitmap (kernel_pool u), pool_bitmap (user_pool u), kvb u}" and i: "i < bitmap_bits b" and j: "j < 8 * K"
    from b obtain x n where bn: "b = \<lparr>btmp_bytes_len = of_nat n, bits = MEM_BITMAP_BASE + of_nat x\<rparr>" "n \<le> 4096" "x \<le> 8192"
      using KU unfolding u(4,5) kv by (elim insertE emptyE) fastforce+
    have "i div 8 < n" using i bn by (simp add: small_bitmap less_mult_imp_div_less)
    then show "\<not> bits b + of_nat (i div 8) - kpage u j < PG_SIZE"
      using bitmap_below_heap [of "x + i div 8" j] bn j KU by (simp add: kp add.assoc)
  qed
  note h = same_mem_heap [OF tu(1)]
  show thesis
    by (rule that [OF go]) (use inv virt apart used kf bits kp tu(2) h in \<open>simp_all add: heap_ok_def\<close>)
qed

end
