(* ===== verification/Syscall.thy ===== *)
theory Syscall
  imports Tss
begin

text \<open>
  System calls: \<open>src/userprog/syscall-init.c\<close>, \<open>src/lib/user/syscall.c\<close>, and \<open>syscall_handler\<close> of \<open>src/kernel/kernel.S\<close>.
  An entry of \<open>syscall_table\<close> that was never set is \<open>None\<close>, a null pointer.  The instruction \<open>int 0x80\<close>
  goes through an interrupt gate, which clears the interrupt flag until \<open>iret\<close>.

  The handler writes the end-of-interrupt command with \<open>mov al, 0x20\<close> before it uses \<open>eax\<close> as the index of the
  table, so the low byte of the number of the call is lost.
\<close>

section \<open>Model\<close>

datatype syscall_fn = Sys_getpid

record ksys = ktss +
  syscall_table :: "syscall_fn option list"

abbreviation (input) syscall_nr :: nat where "syscall_nr \<equiv> 32"
abbreviation (input) SYS_GETPID :: u32 where "SYS_GETPID \<equiv> 0"

text \<open>\<open>pid\<close> is an \<open>int16_t\<close>, extended with its sign.\<close>

definition sys_getpid :: "'a ksys_scheme \<Rightarrow> u32" where
  "sys_getpid s = scast (pid (tasks s (running_thread s)))"

definition syscall_init :: "'a ksys_scheme \<Rightarrow> 'a ksys_scheme" where
  "syscall_init s =
     (let s = kput_str ''syscall_init start\<newline>'' s;
          s = s\<lparr>syscall_table := (syscall_table s)[unat SYS_GETPID := Some Sys_getpid]\<rparr>
      in kput_str ''syscall_init done\<newline>'' s)"

definition call_syscall :: "syscall_fn \<Rightarrow> 'a ksys_scheme \<Rightarrow> u32 \<times> 'a ksys_scheme" where
  "call_syscall f s = (case f of Sys_getpid \<Rightarrow> (sys_getpid s, s))"

definition syscall_handler :: "u32 \<Rightarrow> 'a ksys_scheme \<Rightarrow> (u32 \<times> 'a ksys_scheme) res" where
  "syscall_handler eax s =
     (let eax = (eax AND 0xffffff00) OR 0x20;
          s = outb 0xa0 (ucast eax) s;
          s = outb 0x20 (ucast eax) s;
          i = unat eax
      in if length (syscall_table s) \<le> i then Inl (OutOfBounds i)
         else case syscall_table s ! i of None \<Rightarrow> Inl (Fault NULL) | Some f \<Rightarrow> Inr (call_syscall f s))"

definition syscall0 :: "u32 \<Rightarrow> 'a ksys_scheme \<Rightarrow> (u32 \<times> 'a ksys_scheme) res" where
  "syscall0 NUMBER s =
     (let old = eflags s in
      bindE (syscall_handler NUMBER (s\<lparr>eflags := old AND NOT EFLAGS_IF\<rparr>)) (\<lambda>(retval, s). Inr (retval, s\<lparr>eflags := old\<rparr>)))"

definition getpid :: "'a ksys_scheme \<Rightarrow> (u32 \<times> 'a ksys_scheme) res" where
  "getpid s = syscall0 SYS_GETPID s"

section \<open>Properties\<close>

lemma syscall_index: "n < 256 \<Longrightarrow> (n AND 0xffffff00) OR 0x20 = (0x20 :: u32)"
proof -
  assume n: "n < 256"
  have "unat (take_bit 8 n) = unat n" using n by (simp add: take_bit_eq_mod unat_mod word_less_nat_alt)
  then have t: "take_bit 8 n = n" by (simp add: word_unat_eq_iff)
  have "(0xffffff00 :: u32) = NOT (mask 8)" by code_simp
  then have "n AND 0xffffff00 = take_bit 8 n AND NOT (mask 8)" by (simp only: t)
  also have "\<dots> = 0" by (simp add: take_bit_eq_mask and.assoc)
  finally show ?thesis by simp
qed

text \<open>C34. No system call is ever made.  \<open>syscall_init\<close> enters \<open>sys_getpid\<close> as entry 0 of the table of 32, but the handler uses
  the index 32 for every number below 256, one behind the end of the table: \<open>getpid\<close> does not return the pid.\<close>

theorem getpid_off_table:
  assumes "length (syscall_table s) = syscall_nr"
  shows "syscall_table (syscall_init s) ! 0 = Some Sys_getpid \<and>
    (\<forall>n. n < 256 \<longrightarrow> syscall0 n (syscall_init s) = Inl (OutOfBounds 32)) \<and>
    getpid (syscall_init s) = Inl (OutOfBounds 32)"
  using assms by (simp add: syscall_init_def syscall0_def syscall_handler_def Let_def syscall_index getpid_def)

theorem getpid_off_table_witness:
  "\<forall>s :: ksys. getpid (syscall_init (s\<lparr>syscall_table := replicate 32 None\<rparr>)) = Inl (OutOfBounds 32)"
proof
  fix s :: ksys
  show "getpid (syscall_init (s\<lparr>syscall_table := replicate 32 None\<rparr>)) = Inl (OutOfBounds 32)"
    using getpid_off_table [of "s\<lparr>syscall_table := replicate 32 None\<rparr>"] by simp
qed

end
