(* ===== verification/Kernel.thy ===== *)
theory Kernel
  imports Boot Syscall
begin

text \<open>
  The kernel as a whole: \<open>init_all\<close> of \<open>src/kernel/init.c\<close>, \<open>main\<close> and its two threads of \<open>src/kernel/main.c\<close>, and
  the entry of hardware interrupts (the macro \<open>VECTOR\<close> and \<open>intr_exit\<close> of \<open>src/kernel/kernel.S\<close>).  The addresses that the
  linker chose are a record.  \<open>main\<close> ends in an empty loop; its model returns where that loop begins.
  The endless loop of a thread is modelled by its passes.
\<close>

section \<open>Model\<close>

record linked =
  at_kernel_thread :: u32
  at_idt :: u32
  at_syscall_handler :: u32
  at_tss :: u32
  at_k_thread_a :: u32
  at_k_thread_b :: u32
  at_argA :: u32
  at_argB :: u32

definition init_all :: "linked \<Rightarrow> 'a ktss_scheme \<Rightarrow> ('a ktss_scheme, unit) run" where
  "init_all l s =
     (let s = kput_str ''init_all\<newline>'' s;
          s = idt_init (at_idt l) (at_syscall_handler l) s
      in bindR (stepR (mem_init s)) (\<lambda>_ s.
         bindR (thread_init s) (\<lambda>_ s.
         bindR (stepR (timer_init s)) (\<lambda>_ s.
         let s = console_init s in
         bindR (stepR (keyboard_init s)) (\<lambda>_ s.
         Return () (tss_init (at_tss l) s))))))"

definition kmain :: "linked \<Rightarrow> 'a ktss_scheme \<Rightarrow> ('a ktss_scheme, unit) run" where
  "kmain l s =
     (let s = kput_int 123 (kput_str ''I am kernel\<newline>'' s) in
      bindR (init_all l s) (\<lambda>_ s.
      bindR (liftR (get_kernel_pages 3 s)) (\<lambda>addr s.
      let s = kput_str ''\<newline>    get_kernel_page start vaddr is '' s;
          s = kput_str ''\<newline>'' (kput_int addr s);
          s = kput_str ''create thread\<newline>'' s
      in bindR (thread_start (at_kernel_thread l) ''k_thread_a'' 31 (at_k_thread_a l) (at_argA l) s) (\<lambda>_ s.
         bindR (thread_start (at_kernel_thread l) ''k_thread_b'' 30 (at_k_thread_b l) (at_argB l) s) (\<lambda>_ s.
         Return () (sti s))))))"

text \<open>One pass through the loop that is the body of both \<open>k_thread_a\<close> and \<open>k_thread_b\<close>, and \<open>n\<close> passes.\<close>

definition k_thread_pass :: "string \<Rightarrow> 'a kkbd_scheme \<Rightarrow> ('a kkbd_scheme, unit) run" where
  "k_thread_pass para s =
     (let (old_status, s) = intr_disable s in
      bindR
        (case ioq_empty (kbd_buf s) s of
           Inl e \<Rightarrow> Stop e
         | Inr emp \<Rightarrow>
             if \<not> emp then
               bindR (console_put_str para s) (\<lambda>_ s.
               bindR (ioq_getchar (kbd_buf s) s) (\<lambda>byte s.
               console_put_char byte s))
             else Return () s)
        (\<lambda>_ s. Return () (restore_intr old_status s)))"

fun k_thread :: "nat \<Rightarrow> string \<Rightarrow> 'a kkbd_scheme \<Rightarrow> ('a kkbd_scheme, unit) run" where
  "k_thread 0 para s = Return () s"
| "k_thread (Suc n) para s = bindR (k_thread_pass para s) (\<lambda>_. k_thread n para)"

definition k_thread_a :: "nat \<Rightarrow> string \<Rightarrow> 'a kkbd_scheme \<Rightarrow> ('a kkbd_scheme, unit) run" where
  "k_thread_a n arg s = (let para = arg in k_thread n para s)"

definition k_thread_b :: "nat \<Rightarrow> string \<Rightarrow> 'a kkbd_scheme \<Rightarrow> ('a kkbd_scheme, unit) run" where
  "k_thread_b n arg s = (let para = arg in k_thread n para s)"

text \<open>A hardware interrupt in kernel code: the processor pushes the flags, \<open>cs\<close> and \<open>eip\<close> and turns interrupts off; the entry
  code has an error code (from the processor or \<open>ZERO\<close>), four segment registers, eight general registers and the number of the
  vector on the stack when its call pushes the return address, 18 words in all.  It sends the end of interrupt to both
  controllers and calls the handler, and \<open>intr_exit\<close> restores stack pointer and flags.  \<open>inb_value\<close> is the byte at
  the port of the keyboard and \<open>cr2\<close> the address of a page fault.  There is entry code for 0x30 vectors.

  The gate of a vector with entry code leads to that code (theorem \<open>idt_gates\<close>), so the dispatch is modelled from the entry
  code on.  That the processor finds the gate is assumed: \<open>idt_init\<close> loads \<open>idtr\<close> with an address of which it has
  cut the high half, which still reaches the table when the linker put \<open>idt\<close> below 0xc0010000, since the loader maps the
  first megabyte at 0 as well as at 0xc0000000.\<close>

abbreviation (input) intr_frame :: u32 where "intr_frame \<equiv> 18 * 4"

definition intr_entry :: "nat \<Rightarrow> u8 \<Rightarrow> u32 \<Rightarrow> 'a kkbd_scheme \<Rightarrow> ('a kkbd_scheme, unit) run" where
  "intr_entry vec inb_value cr2 s =
     (let old = eflags s;
          s = s\<lparr>eflags := clear_IF old, esp := esp s - intr_frame\<rparr>;
          s = outb 0x20 0x20 (outb 0xa0 0x20 s)
      in if 0x30 \<le> vec \<or> length (idt_table s) \<le> vec then Stop (OutOfBounds vec)
         else
           bindR
             (case idt_table s ! vec of
                General_intr_handler \<Rightarrow> stepR (general_intr_handler (of_nat vec) cr2 s)
              | Intr_timer_handler \<Rightarrow> intr_timer_handler s
              | Intr_keyboard_handler \<Rightarrow> intr_keyboard_handler inb_value s)
             (\<lambda>_ s. Return () (s\<lparr>eflags := old, esp := esp s + intr_frame\<rparr>)))"

text \<open>There is room for an interrupt on the stack of the running thread.\<close>

definition irq_room :: "'a kstate_scheme \<Rightarrow> bool" where
  "irq_room s \<longleftrightarrow> stack_ok (s\<lparr>esp := esp s - intr_frame\<rparr>) (running_thread s)"

lemma irq_room_same: "esp t = esp s \<Longrightarrow> irq_room t = irq_room s"
  by (simp add: irq_room_def stack_ok_def running_thread_def)

section \<open>The state at boot\<close>

text \<open>The list nodes among the global variables: the ends of the two thread lists and of the waiter lists of the locks.\<close>

definition image_nodes :: "'a kkbd_scheme \<Rightarrow> addr list" where
  "image_nodes s =
     (let ends = (\<lambda>l. [l, list_tail l]); waiters = (\<lambda>l. sema_waiters (lock_sema l)) in
      ends (thread_ready_list s) @ ends (thread_all_list s) @ ends (waiters (pid_lock s)) @
      ends (waiters (console_lock s)) @ ends (waiters (kbd_buf s)))"

text \<open>The loader has set up paging, \<open>m\<close> bytes of memory with at least 64 pages behind the first 2 MB, the stack
  on the page 0xc009e000, and the global variables in the kernel image, below the bitmaps.\<close>

definition boot_ok :: "'a kkbd_scheme \<Rightarrow> u32 \<Rightarrow> bool" where
  "boot_ok s m \<longleftrightarrow> loader_mem s m \<and> 0x200000 \<le> unat m \<and> 64 \<le> free_pages m \<and> free_pages m < 2 ^ 16 \<and>
     stack_ok s 0xc009e000 \<and> irq_room s \<and> distinct (image_nodes s) \<and> (\<forall>x \<in> set (image_nodes s). 0xc0001000 \<le> x \<and> x < 0xc009a000) \<and>
     length (ioq_buf (ioqs s (kbd_buf s))) = 64"

text \<open>An address below a page is not on the page.\<close>

lemma below_page:
  fixes x p :: addr
  assumes "unat x < unat p" and "unat p < 0xfffff000"
  shows "\<not> x - p < PG_SIZE"
proof
  assume d: "x - p < PG_SIZE"
  then have "unat p + unat (x - p) < 2 ^ 32" using assms(2) by (simp add: word_less_nat_alt)
  then have "unat (p + (x - p)) = unat p + unat (x - p)" using unat_word_ariths(1) [of p "x - p"] by simp
  then show False using assms(1) by simp
qed

section \<open>Initialisation\<close>

lemma idt_init_fields [simp]:
  fixes s :: "'a kstate_scheme"
  shows "pmem (idt_init i h s) = pmem s" "cr3 (idt_init i h s) = cr3 s" "esp (idt_init i h s) = esp s" "tasks (idt_init i h s) = tasks s"
    "eflags (idt_init i h s) = eflags s" "thread_ready_list (idt_init i h s) = thread_ready_list s"
    "thread_all_list (idt_init i h s) = thread_all_list s" "pid_lock (idt_init i h s) = pid_lock s"
    "next_pid (idt_init i h s) = next_pid s" "kstate.more (idt_init i h s) = kstate.more s"
    "length (idt_table (idt_init i h s)) = 0x81"
  by (simp_all add: idt_init_def pic_init_def exception_init_def idt_desc_init_def set_entry_word_def Let_def)

lemma threads_inv_same:
  assumes "tasks t = tasks s" and "esp t = esp s" and "thread_ready_list t = thread_ready_list s"
    and "thread_all_list t = thread_all_list s" and "lnext t = lnext s" and "lprev t = lprev s"
  shows "threads_inv t ps as = threads_inv s ps as"
  using assms by (simp add: threads_inv_def sched_inv_def ready_queue_def saved_ok_def stack_ok_def tag_apart_def list_at_def running_thread_def)

lemma threads_inv_upd [simp]:
  "threads_inv (s\<lparr>scr := a\<rparr>) ps as = threads_inv s ps as" "threads_inv (s\<lparr>outp := b\<rparr>) ps as = threads_inv s ps as"
  "threads_inv (s\<lparr>idt_table := c\<rparr>) ps as = threads_inv s ps as"
  by (rule threads_inv_same; simp)+

text \<open>The locks that \<open>console_init\<close> and \<open>keyboard_init\<close> set up do not touch the lists of threads.\<close>

lemma threads_inv_lock_init:
  assumes inv: "threads_inv s ps as"
    and ap: "\<And>x. x \<in> {sema_waiters (lock_sema l), list_tail (sema_waiters (lock_sema l))} \<Longrightarrow>
      x \<notin> set (list_nodes (thread_ready_list s) (map general_tag ps)) \<and> x \<notin> set (list_nodes (thread_all_list s) (map all_list_tag as))"
  shows "threads_inv (lock_init l s) ps as"
proof -
  let ?w = "sema_waiters (lock_sema l)"
  have "list_at (lock_init l s) k ys" if "list_at s k ys" "?w \<notin> set (list_nodes k ys)" "list_tail ?w \<notin> set (list_nodes k ys)" for k ys
    using list_at_frame_init [OF that] by (rule list_at_cong) (simp_all add: lock_init_def sema_init_def list_init_def Let_def)
  then show ?thesis
    using inv ap by (simp add: threads_inv_def sched_inv_def ready_queue_def saved_ok_def stack_ok_def tag_apart_def running_thread_def)
qed

lemma kkbd_more:
  fixes s t :: "'a kkbd_scheme"
  assumes "kstate.more t = kstate.more s"
  shows "console_lock t = console_lock s" and "kbd_buf t = kbd_buf s" and "ioqs t = ioqs s" and "wslot t = wslot s"
  using assms by (cases s; cases t; simp)+

text \<open>The fields that the device initialisations share.\<close>

definition devices_step :: "'a ktss_scheme \<Rightarrow> 'a ktss_scheme \<Rightarrow> bool" where
  "devices_step s t \<longleftrightarrow> same_mem s t \<and> tasks t = tasks s \<and> esp t = esp s \<and> eflags t = eflags s \<and> tstacks t = tstacks s \<and>
     thread_ready_list t = thread_ready_list s \<and> thread_all_list t = thread_all_list s \<and> pid_lock t = pid_lock s \<and>
     main_thread t = main_thread s \<and> next_pid t = next_pid s \<and> console_lock t = console_lock s \<and> kbd_buf t = kbd_buf s"

lemma devices_step_ops [simp]:
  "devices_step s (t\<lparr>scr := a\<rparr>) = devices_step s t" "devices_step s (t\<lparr>outp := b\<rparr>) = devices_step s t"
  "devices_step s (t\<lparr>idt_table := c\<rparr>) = devices_step s t" "devices_step s (lock_init l t) = devices_step s t"
  "devices_step s (set_slot w p t) = devices_step s t" "devices_step s (upd_ioq q f t) = devices_step s t"
  "devices_step s (tss_init x t) = devices_step s t" "devices_step s s"
  by (simp_all add: devices_step_def same_mem_def)
    (simp_all add: lock_init_def sema_init_def list_init_def set_slot_def upd_ioq_def tss_init_def Let_def)

definition init_devices :: "linked \<Rightarrow> 'a ktss_scheme \<Rightarrow> ('a ktss_scheme, unit) run" where
  "init_devices l s =
     bindR (stepR (timer_init s)) (\<lambda>_ s.
     let s = console_init s in
     bindR (stepR (keyboard_init s)) (\<lambda>_ s. Return () (tss_init (at_tss l) s)))"

text \<open>A lock as \<open>lock_init\<close> leaves it.\<close>

definition lock_free :: "'a kstate_scheme \<Rightarrow> addr \<Rightarrow> bool" where
  "lock_free s l \<longleftrightarrow> lock_fields s l = (NULL, 0, 1) \<and> list_at s (sema_waiters (lock_sema l)) []"

lemma lock_free_avail: "lock_free s l \<Longrightarrow> lock_avail s l"
  by (simp add: lock_free_def lock_fields_def lock_avail_def)

lemma lock_free_same:
  "lock_fields t l = lock_fields s l \<Longrightarrow> lnext t = lnext s \<Longrightarrow> lprev t = lprev s \<Longrightarrow> lock_free t l = lock_free s l"
  by (simp add: lock_free_def list_at_def)

lemma lock_free_init: "lock_free (lock_init l s) l"
  using list_at_init by (auto simp: lock_free_def lock_fields_def lock_init_def sema_init_def Let_def)

lemma lock_free_init_other:
  assumes "lock_free s k" and "distinct [sema_waiters (lock_sema k), list_tail (sema_waiters (lock_sema k)), sema_waiters (lock_sema l),
      list_tail (sema_waiters (lock_sema l))]"
  shows "lock_free (lock_init l s) k"
proof -
  have "k \<noteq> l" using assms(2) by auto
  then have "lock_fields (lock_init l s) k = (NULL, 0, 1)"
    using assms(1) by (simp add: lock_free_def lock_fields_def lock_init_def sema_init_def list_init_def Let_def)
  moreover have "list_at s (sema_waiters (lock_sema k)) []" using assms(1) by (simp add: lock_free_def)
  then have "list_at (lock_init l s) (sema_waiters (lock_sema k)) []"
    by (rule list_at_cong) (use assms(2) in \<open>auto simp: list_nodes_def lock_init_def sema_init_def list_init_def Let_def\<close>)
  ultimately show ?thesis by (simp add: lock_free_def)
qed

lemma init_devices_ok:
  assumes inv: "threads_inv s ps as" and len: "length (idt_table s) = 0x81" and buf: "length (ioq_buf (ioqs s (kbd_buf s))) = 64"
    and ap: "\<And>k x. k \<in> {console_lock s, kbd_buf s} \<Longrightarrow> x \<in> {sema_waiters (lock_sema k), list_tail (sema_waiters (lock_sema k))} \<Longrightarrow>
      x \<notin> set (list_nodes (thread_ready_list s) (map general_tag ps)) \<and> x \<notin> set (list_nodes (thread_all_list s) (map all_list_tag as))"
    and dis: "distinct [pid_lock s, console_lock s, kbd_buf s]" and lk: "lock_avail s (pid_lock s)"
    and nod: "distinct [sema_waiters (lock_sema (console_lock s)), list_tail (sema_waiters (lock_sema (console_lock s))),
      sema_waiters (lock_sema (kbd_buf s)), list_tail (sema_waiters (lock_sema (kbd_buf s)))]"
  obtains t where "init_devices l s = Return () t" and "threads_inv t ps as" and "devices_step s t"
    and "lock_avail t (pid_lock t)" and "lock_free t (console_lock t)"
    and "idt_table t = (idt_table s)[0x20 := Intr_timer_handler, 0x21 := Intr_keyboard_handler]"
    and "ring_ok (ioqs t (kbd_buf t))" and "queue_of (ioqs t (kbd_buf t)) = []"
    and "wslot t (ioq_producer (kbd_buf t)) = NULL" and "wslot t (ioq_consumer (kbd_buf t)) = NULL"
proof -
  obtain a where a: "timer_init s = Inr a" "devices_step s a" "idt_table a = (idt_table s)[0x20 := Intr_timer_handler]" "ioqs a = ioqs s"
    "lock_avail a = lock_avail s" "threads_inv a ps as"
    using timer_init_programs [of s] inv
    by (auto simp: lock_avail_def fun_eq_iff running_thread_def)
  have fa: "thread_ready_list a = thread_ready_list s" "thread_all_list a = thread_all_list s" "console_lock a = console_lock s"
    "kbd_buf a = kbd_buf s" "pid_lock a = pid_lock s" using a(2) by (simp_all add: devices_step_def)
  define b where "b = console_init a"
  have b: "b = lock_init (console_lock s) a" by (simp add: b_def console_init_def fa)
  have inv_b: "threads_inv b ps as" unfolding b by (rule threads_inv_lock_init [OF a(6)]) (unfold fa, rule ap, simp_all)
  have db: "devices_step s b" using a(2) by (simp add: b)
  then have fb: "thread_ready_list b = thread_ready_list s" "thread_all_list b = thread_all_list s" "kbd_buf b = kbd_buf s"
    by (simp_all add: devices_step_def)
  define b1 where "b1 = b\<lparr>scr := put_str ''keyboard init start\<newline>'' (scr b)\<rparr>"
  have b1: "threads_inv b1 ps as" "thread_ready_list b1 = thread_ready_list s" "thread_all_list b1 = thread_all_list s"
    using inv_b fb by (simp_all add: b1_def)
  define c where "c = lock_init (kbd_buf s) b1"
  have inv_c: "threads_inv c ps as"
    unfolding c_def by (rule threads_inv_lock_init [OF b1(1)]) (unfold b1(2,3), rule ap, simp_all)
  define d where "d = upd_ioq (kbd_buf s) (\<lambda>q. q\<lparr>ioq_head := 0\<rparr>) (upd_ioq (kbd_buf s) (\<lambda>q. q\<lparr>ioq_tail := 0\<rparr>)
      (set_slot (ioq_producer (kbd_buf s)) NULL (set_slot (ioq_consumer (kbd_buf s)) NULL c)))"
  have d: "ioqueue_init (kbd_buf s) b1 = d"
    by (simp add: ioqueue_init_def Let_def d_def c_def del: upd_ioq_fields)
  have "\<exists>x. keyboard_init b = Inr (d\<lparr>idt_table := (idt_table d)[0x21 := Intr_keyboard_handler], scr := x\<rparr>)"
    using d by (auto simp: keyboard_init_def register_handler_def Let_def fb b1_def)
  then obtain x where kb: "keyboard_init b = Inr (d\<lparr>idt_table := (idt_table d)[0x21 := Intr_keyboard_handler], scr := x\<rparr>)" by blast
  define t where "t = tss_init (at_tss l) (d\<lparr>idt_table := (idt_table d)[0x21 := Intr_keyboard_handler], scr := x\<rparr>)"
  have go: "init_devices l s = Return () t" using a(1) kb by (simp add: init_devices_def t_def flip: b_def)
  have dt: "devices_step s t" using db by (simp add: t_def d_def c_def b1_def del: upd_ioq_fields)
  then have ft: "kbd_buf t = kbd_buf s" "console_lock t = console_lock s" "pid_lock t = pid_lock s" by (simp_all add: devices_step_def)
  show thesis
  proof (rule that [OF go _ dt])
    show "threads_inv t ps as"
      using inv_c by (subst threads_inv_same [where s = c]) (simp_all add: t_def d_def tss_init_def upd_ioq_def set_slot_def Let_def)
    show "idt_table t = (idt_table s)[0x20 := Intr_timer_handler, 0x21 := Intr_keyboard_handler]"
      using a(3) by (simp add: t_def tss_init_def d_def c_def b1_def b upd_ioq_def set_slot_def lock_init_def sema_init_def list_init_def Let_def)
    have "lock_avail t k = lock_avail c k" for k
      by (simp add: t_def d_def tss_init_def upd_ioq_def set_slot_def Let_def lock_avail_def running_thread_def)
    moreover have "lock_avail c k = lock_avail b k" if "k \<noteq> kbd_buf s" for k
      using that by (simp add: c_def lock_avail_init_other) (simp add: lock_avail_def b1_def)
    moreover have "lock_avail b k = lock_avail s k" if "k \<noteq> console_lock s" for k using that a(5) by (simp add: b lock_avail_init_other)
    ultimately show "lock_avail t (pid_lock t)" using dis lk by (simp add: ft)
    have "lock_free b1 (console_lock s) = lock_free b (console_lock s)" by (rule lock_free_same) (simp_all add: b1_def lock_fields_def)
    then have "lock_free b1 (console_lock s)" by (simp add: b lock_free_init)
    then have "lock_free c (console_lock s)" unfolding c_def using nod by (rule lock_free_init_other)
    moreover have "lock_free t (console_lock s) = lock_free c (console_lock s)"
      by (rule lock_free_same) (simp_all add: t_def d_def tss_init_def upd_ioq_def set_slot_def Let_def lock_fields_def)
    ultimately show "lock_free t (console_lock t)" by (simp add: ft)
    show "ring_ok (ioqs t (kbd_buf t))" "queue_of (ioqs t (kbd_buf t)) = []"
      "wslot t (ioq_producer (kbd_buf t)) = NULL" "wslot t (ioq_consumer (kbd_buf t)) = NULL"
      unfolding ft using buf a(4)
      by (simp_all add: t_def tss_init_def d_def c_def b1_def b lock_init_def sema_init_def list_init_def Let_def ring_ok_def queue_of_def ring_length_def)
  qed
qed

lemma init_all_eq:
  "init_all l s = (let s = idt_init (at_idt l) (at_syscall_handler l) (kput_str ''init_all\<newline>'' s) in
     bindR (stepR (mem_init s)) (\<lambda>_ s. bindR (thread_init s) (\<lambda>_. init_devices l)))"
  by (simp add: init_all_def init_devices_def [abs_def] Let_def)

abbreviation (input) main_page :: addr where "main_page \<equiv> 0xc009e000"

text \<open>The state of the kernel after \<open>init_all\<close>, with \<open>n\<close> pages of the heap in use.\<close>

definition kernel_ok :: "'a ktss_scheme \<Rightarrow> addr list \<Rightarrow> nat \<Rightarrow> bool" where
  "kernel_ok s ps n \<longleftrightarrow> threads_inv s ps (main_page # ps) \<and> running_thread s = main_page \<and> main_thread s = main_page \<and>
     heap_ok s \<and> heap_used s n \<and> (\<forall>i. kpage s i = of_nat (0xc0100000 + 4096 * i)) \<and>
     (\<forall>x \<in> set (image_nodes s). x < 0xc009a000) \<and> distinct (image_nodes s) \<and>
     lock_avail s (pid_lock s) \<and> lock_free s (console_lock s) \<and> pid_lock s \<noteq> console_lock s \<and>
     length (idt_table s) = 0x81 \<and> idt_table s ! 0x20 = Intr_timer_handler \<and> idt_table s ! 0x21 = Intr_keyboard_handler \<and>
     ring_ok (ioqs s (kbd_buf s)) \<and> queue_of (ioqs s (kbd_buf s)) = [] \<and>
     wslot s (ioq_producer (kbd_buf s)) = NULL \<and> wslot s (ioq_consumer (kbd_buf s)) = NULL"

lemma globals_apart_image:
  assumes "distinct (image_nodes s)" and "\<And>x. x \<in> set (image_nodes s) \<Longrightarrow> \<not> x - p < PG_SIZE"
  shows "globals_apart s p"
proof -
  let ?w = "sema_waiters (lock_sema (pid_lock s))"
  let ?N = "[thread_ready_list s, list_tail (thread_ready_list s), thread_all_list s, list_tail (thread_all_list s), ?w, list_tail ?w]"
  obtain r where r: "image_nodes s = ?N @ r" by (simp add: image_nodes_def Let_def)
  have "distinct ?N" using assms(1) unfolding r distinct_append by (elim conjE)
  moreover have "set ?N \<subseteq> set (image_nodes s)" unfolding r set_append by (rule Un_upper1)
  ultimately show ?thesis using assms(2) unfolding globals_apart_def Let_def by blast
qed

text \<open>The locks of the console and the keyboard, and the lists of their waiters, are objects of their own.\<close>

lemma image_locks:
  assumes dis: "distinct (image_nodes s)" and low: "\<forall>x \<in> set (image_nodes s). x < 0xc009a000"
  shows "distinct [pid_lock s, console_lock s, kbd_buf s]"
    and "distinct [sema_waiters (lock_sema (console_lock s)), list_tail (sema_waiters (lock_sema (console_lock s))),
      sema_waiters (lock_sema (kbd_buf s)), list_tail (sema_waiters (lock_sema (kbd_buf s)))]" (is "distinct ?N")
    and "k \<in> {console_lock s, kbd_buf s} \<Longrightarrow> x \<in> {sema_waiters (lock_sema k), list_tail (sema_waiters (lock_sema k))} \<Longrightarrow>
      x \<notin> set (list_nodes (thread_ready_list s) (map general_tag [])) \<and> x \<notin> set (list_nodes (thread_all_list s) (map all_list_tag [main_page]))"
proof -
  show "distinct [pid_lock s, console_lock s, kbd_buf s]" using dis by (auto simp: image_nodes_def Let_def)
  obtain r where "image_nodes s = r @ ?N" by (simp add: image_nodes_def Let_def)
  then show "distinct ?N" using dis by (simp only: distinct_append)
  assume kx: "k \<in> {console_lock s, kbd_buf s}" "x \<in> {sema_waiters (lock_sema k), list_tail (sema_waiters (lock_sema k))}"
  then have "x \<in> set (image_nodes s)" by (auto simp: image_nodes_def Let_def)
  with low have "x < 0xc009a000" by blast
  then have "\<not> x - main_page < PG_SIZE" by (intro below_page) (simp_all add: word_less_nat_alt)
  then have "x \<noteq> all_list_tag main_page" by (auto simp: all_list_tag_def)
  moreover have "x \<notin> {thread_ready_list s, list_tail (thread_ready_list s), thread_all_list s, list_tail (thread_all_list s)}"
    using dis kx by (auto simp: image_nodes_def Let_def)
  ultimately show "x \<notin> set (list_nodes (thread_ready_list s) (map general_tag [])) \<and> x \<notin> set (list_nodes (thread_all_list s) (map all_list_tag [main_page]))"
    by (auto simp: list_nodes_def)
qed

lemma init_all_ok:
  fixes s :: "'a ktss_scheme"
  assumes boot: "boot_ok s m"
  obtains t where "init_all l s = Return () t" and "kernel_ok t [] 0" and "bitmap_bits (kvb t) = 8 * (free_pages m div 16)" and "kfree t = 8 * (free_pages m div 16)"
    and "ufree t = 8 * ((free_pages m - free_pages m div 2) div 8)"
    and "tasks t = (tasks s)(main_page := new_task main_page ''main'' 31 (next_pid s + 1) TASK_RUNNING)"
    and "eflags t = eflags s" and "next_pid t = next_pid s + 1" and "esp t = esp s"
proof -
  define s1 where "s1 = idt_init (at_idt l) (at_syscall_handler l) (kput_str ''init_all\<newline>'' s)"
  have more: "kstate.more s1 = kstate.more s" by (simp add: s1_def)
  note k1 = kkbd_more [OF more]
  have f1: "pmem s1 = pmem s" "cr3 s1 = cr3 s" "esp s1 = esp s" "tasks s1 = tasks s" "eflags s1 = eflags s" "next_pid s1 = next_pid s"
    "thread_ready_list s1 = thread_ready_list s" "thread_all_list s1 = thread_all_list s" "pid_lock s1 = pid_lock s"
    "length (idt_table s1) = 0x81"
    by (simp_all add: s1_def)
  have im: "image_nodes s1 = image_nodes s" by (simp add: image_nodes_def k1 f1)
  have mem: "loader_mem s1 m" "0x200000 \<le> unat m" "free_pages m < 2 ^ 16" "64 \<le> free_pages m"
    using boot by (simp_all add: boot_ok_def loader_mem_def f1)
  obtain a where a: "mem_init s1 = Inr a" "heap_ok a" "heap_used a 0" "bitmap_bits (kvb a) = 8 * (free_pages m div 2 div 8)"
    "kfree a = 8 * (free_pages m div 2 div 8)" "\<And>i. kpage a i = of_nat (0xc0100000 + 4096 * i)" "init_step s1 a" "ufree a = 8 * ((free_pages m - free_pages m div 2) div 8)"
    using mem_init_ok [OF mem(1-3)] by metis
  have d16: "free_pages m div 2 div 8 = free_pages m div 16" by (simp flip: div_mult2_eq)
  have fa: "esp a = esp s" "tasks a = tasks s" "eflags a = eflags s" "next_pid a = next_pid s" "thread_ready_list a = thread_ready_list s"
    "thread_all_list a = thread_all_list s" "pid_lock a = pid_lock s" "idt_table a = idt_table s1" "kstate.more a = kstate.more s"
    using a(7) more by (simp_all add: init_step_def f1)
  note ka = kkbd_more [OF fa(9)]
  have nodes: "distinct (image_nodes s)" "\<And>x. x \<in> set (image_nodes s) \<Longrightarrow> x < 0xc009a000"
    using boot by (simp_all add: boot_ok_def)
  have off: "\<not> x - main_page < PG_SIZE" if "x \<in> set (image_nodes s)" for x
    using nodes(2) [OF that] by (intro below_page) (simp_all add: word_less_nat_alt)
  have ga: "globals_apart a main_page"
    using globals_apart_image [OF nodes(1) off] by (simp add: globals_apart_def fa Let_def)
  have st: "stack_ok a main_page" using boot by (simp add: boot_ok_def stack_ok_def fa)
  obtain b where b: "thread_init a = Return () b" "threads_inv b [] [main_page]" "main_thread b = main_page" "running_thread b = main_page"
    "tasks b = (tasks a)(main_page := new_task main_page ''main'' 31 (next_pid a + 1) TASK_RUNNING)"
    "next_pid b = next_pid a + 1" "lock_avail b (pid_lock b)" "same_mem a b" "eflags b = eflags a" "kept a b"
    "thread_ready_list b = thread_ready_list a" "thread_all_list b = thread_all_list a"
    by (rule thread_init_ok [OF st _ ga]) simp_all
  have fb: "kstate.more b = kstate.more s" "idt_table b = idt_table s1" "pid_lock b = pid_lock s" "esp b = esp s"
    using b(10) fa by (simp_all add: kept_def)
  note kb = kkbd_more [OF fb(1)]
  have imb: "image_nodes b = image_nodes s" by (simp add: image_nodes_def kb fb b fa)
  have buf: "length (ioq_buf (ioqs b (kbd_buf b))) = 64" using boot by (simp add: kb boot_ok_def)
  have low: "\<forall>x \<in> set (image_nodes b). x < 0xc009a000" and di: "distinct (image_nodes b)" using nodes by (simp_all add: imb)
  note dis = image_locks(1) [OF di low] and nod = image_locks(2) [OF di low] and ap = image_locks(3) [OF di low]
  have len: "length (idt_table b) = 0x81" by (simp add: fb f1)
  obtain t where t: "init_devices l b = Return () t" "threads_inv t [] [main_page]" "devices_step b t" "lock_avail t (pid_lock t)"
    "lock_free t (console_lock t)" "idt_table t = (idt_table b)[0x20 := Intr_timer_handler, 0x21 := Intr_keyboard_handler]"
    "ring_ok (ioqs t (kbd_buf t))" "queue_of (ioqs t (kbd_buf t)) = []"
    "wslot t (ioq_producer (kbd_buf t)) = NULL" "wslot t (ioq_consumer (kbd_buf t)) = NULL"
    by (rule init_devices_ok [OF b(2) len buf ap dis b(7) nod])
  have go: "init_all l s = Return () t" using a(1) b(1) t(1) by (simp add: init_all_eq flip: s1_def kput_str_def)
  have ft: "same_mem a t" "tasks t = tasks b" "esp t = esp b" "eflags t = eflags b" "main_thread t = main_thread b" "next_pid t = next_pid b"
    "pid_lock t = pid_lock b" "console_lock t = console_lock b" "kbd_buf t = kbd_buf b" "image_nodes t = image_nodes s"
    using t(3) b(8) imb by (simp_all add: devices_step_def same_mem_def image_nodes_def)
  note h = same_mem_heap [OF ft(1)]
  have "running_thread t = main_page" using b(4) by (simp add: running_thread_def ft)
  then have "kernel_ok t [] 0"
    unfolding kernel_ok_def using t a(2,3,6) b(3) h ft dis nodes len by simp
  moreover have "bitmap_bits (kvb t) = 8 * (free_pages m div 16)" "kfree t = 8 * (free_pages m div 16)"
    "ufree t = 8 * ((free_pages m - free_pages m div 2) div 8)"
    unfolding h using a(4,5,8) unfolding d16 by (simp_all only:)
  moreover have "tasks t = (tasks s)(main_page := new_task main_page ''main'' 31 (next_pid s + 1) TASK_RUNNING)"
    "eflags t = eflags s" "next_pid t = next_pid s + 1" "esp t = esp s"
    using b(5,6,9) ft fa fb by simp_all
  ultimately show thesis by (intro that [OF go])
qed

section \<open>Starting the threads\<close>

lemma unat_heap_page: "i < 1000 \<Longrightarrow> unat (of_nat (0xc0100000 + 4096 * i) :: addr) = 0xc0100000 + 4096 * i"
  by (rule unat_of_nat_less) simp

lemma unat_tags:
  assumes "unat q + 4096 < 2 ^ 32"
  shows "unat (general_tag q) = unat q + 36" and "unat (all_list_tag q) = unat q + 44"
  using assms by (simp_all add: general_tag_def all_list_tag_def unat_word_ariths)

lemma kernel_page_fresh:
  assumes ok: "kernel_ok s ps n" and ps: "set ps \<subseteq> kpage s ` {..<n}" and n: "n < 1000"
  shows "page_fresh s ps (main_page # ps) (kpage s n)"
proof -
  have kp: "unat (kpage s i) = 0xc0100000 + 4096 * i" if "i \<le> n" for i
    using ok that n unat_heap_page [of i] by (simp add: kernel_ok_def)
  have tags: "unat (general_tag q) < unat (kpage s n) \<and> unat (all_list_tag q) < unat (kpage s n)" if "q \<in> insert main_page (set ps)" for q
  proof -
    have "unat q + 4096 \<le> unat (kpage s n)" using that ps kp by fastforce
    then show ?thesis using unat_tags [of q] kp [of n] n by simp
  qed
  have image: "unat x < unat (kpage s n)" if "x \<in> {thread_ready_list s, list_tail (thread_ready_list s), thread_all_list s, list_tail (thread_all_list s)}" for x
  proof -
    have "x \<in> set (image_nodes s)" using that by (auto simp: image_nodes_def Let_def)
    then have "x < 0xc009a000" using ok by (simp add: kernel_ok_def)
    then show ?thesis using kp [of n] by (simp add: word_less_nat_alt)
  qed
  have "unat x < unat (kpage s n)"
    if "x \<in> set (list_nodes (thread_ready_list s) (map general_tag ps)) \<union> set (list_nodes (thread_all_list s) (map all_list_tag (main_page # ps)))" for x
    using that tags image by (auto simp: list_nodes_def)
  moreover have "unat (kpage s n) < 0xfffff000" using kp [of n] n by simp
  moreover have "unat (running_thread s) = 0xc009e000" using ok by (simp add: kernel_ok_def)
  then have "running_thread s \<noteq> kpage s n" using kp [of n] by auto
  ultimately show ?thesis unfolding page_fresh_def using below_page by blast
qed

lemma console_waiters_outside:
  assumes ok: "kernel_ok s ps n" and ps: "set ps \<subseteq> kpage s ` {..<n}" and n: "n < 1000"
  shows "list_outside s ps (main_page # ps) (kpage s n) (sema_waiters (lock_sema (console_lock s))) []"
proof -
  let ?w = "sema_waiters (lock_sema (console_lock s))"
  have kp: "unat (kpage s i) = 0xc0100000 + 4096 * i" if "i \<le> n" for i
    using ok that n unat_heap_page [of i] by (simp add: kernel_ok_def)
  have tags: "x \<noteq> general_tag q \<and> x \<noteq> all_list_tag q" if "q \<in> insert main_page (set ps)" "unat x < 0xc009a000" for q x
  proof -
    have "0xc009a000 \<le> unat q \<and> unat q + 4096 \<le> unat (kpage s n)" using that(1) ps kp by fastforce
    then show ?thesis using unat_tags [of q] kp [of n] n that(2) by auto
  qed
  have low: "unat x < 0xc009a000" if "x \<in> {?w, list_tail ?w}" for x
  proof -
    have "x \<in> set (image_nodes s)" using that by (auto simp: image_nodes_def Let_def)
    then have "x < 0xc009a000" using ok by (simp add: kernel_ok_def)
    then show ?thesis by (simp add: word_less_nat_alt)
  qed
  show ?thesis unfolding list_outside_def
  proof
    fix x
    assume "x \<in> set (list_nodes ?w [])"
    then have x: "x \<in> {?w, list_tail ?w}" by (simp add: list_nodes_def)
    have "x \<notin> {thread_ready_list s, list_tail (thread_ready_list s), thread_all_list s, list_tail (thread_all_list s)}"
      using ok x by (auto simp: kernel_ok_def image_nodes_def Let_def)
    moreover have "x \<notin> general_tag ` insert main_page (set ps)" "x \<notin> all_list_tag ` insert main_page (set ps)"
      using tags [OF _ low [OF x]] by blast+
    moreover have "\<not> x - kpage s n < PG_SIZE" using low [OF x] kp [of n] n by (intro below_page) simp_all
    ultimately show "x \<notin> set (list_nodes (thread_ready_list s) (map general_tag ps)) \<and>
        x \<notin> set (list_nodes (thread_all_list s) (map all_list_tag (main_page # ps))) \<and> \<not> x - kpage s n < PG_SIZE"
      by (simp add: list_nodes_def)
  qed
qed

lemma kernel_start:
  fixes s :: "'a ktss_scheme"
  assumes ok: "kernel_ok s ps n" and ps: "set ps \<subseteq> kpage s ` {..<n}" and n: "n < 1000" "n < bitmap_bits (kvb s)" "2 \<le> kfree s" and nm: "length nm \<le> 16"
  defines "p \<equiv> kpage s n"
  obtains t where "thread_start kt nm prio fn arg s = Return p t" and "kernel_ok t (ps @ [p]) (n + 1)"
    and "kvb t = kvb s" and "kpage t = kpage s" and "kfree s \<le> kfree t + 2" and "eflags t = eflags s" and "next_pid t = next_pid s + 1"
    and "tasks t = (tasks s)(p := (new_task p nm prio (next_pid s + 1) TASK_READY)\<lparr>self_kstack := new_stack p\<rparr>)"
    and "tstacks t = (tstacks s)(new_stack p := thread_frame kt fn arg (tstacks s (new_stack p)))" and "esp t = esp s"
proof -
  have k: "threads_inv s ps (main_page # ps)" "heap_ok s" "heap_used s n" "lock_avail s (pid_lock s)" "main_thread s = running_thread s"
    using ok by (simp_all add: kernel_ok_def)
  note fr = kernel_page_fresh [OF ok ps n(1)]
  obtain t where t: "thread_start kt nm prio fn arg s = Return p t" "threads_inv t (ps @ [p]) ((main_page # ps) @ [p])"
    "heap_ok t" "heap_used t (n + 1)" "kvb t = kvb s" "kpage t = kpage s" "kfree s \<le> kfree t + 2" "lock_avail t (pid_lock t)"
    "next_pid t = next_pid s + 1" "main_thread t = running_thread t" "running_thread t = running_thread s" "eflags t = eflags s"
    "thread_ready_list t = thread_ready_list s" "thread_all_list t = thread_all_list s" "kept s t"
    "tasks t = (tasks s)(p := (new_task p nm prio (next_pid s + 1) TASK_READY)\<lparr>self_kstack := new_stack p\<rparr>)"
    "tstacks t = (tstacks s)(new_stack p := (tstacks s (new_stack p))
      \<lparr>ts_eip := kt, ts_function := fn, ts_func_arg := arg, ts_ebp := 0, ts_ebx := 0, ts_esi := 0, ts_edi := 0\<rparr>)"
    "\<forall>l xs. list_at s l xs \<longrightarrow> list_outside s ps (main_page # ps) p l xs \<longrightarrow> list_at t l xs"
    unfolding p_def by (rule thread_start_ok [OF k(1-3) n(2,3) k(4) nm fr k(5)])
  have more: "kstate.more t = kstate.more s" "idt_table t = idt_table s" "pid_lock t = pid_lock s" "esp t = esp s"
    "\<And>l. l \<noteq> pid_lock s \<Longrightarrow> lock_fields t l = lock_fields s l" using t(15) by (simp_all add: kept_def)
  note kt = kkbd_more [OF more(1)]
  have im: "image_nodes t = image_nodes s" by (simp add: image_nodes_def t more kt)
  have "lock_free t (console_lock s)"
    using ok more(5) [of "console_lock s", OF not_sym] t(18) console_waiters_outside [OF ok ps n(1), folded p_def]
    by (simp add: lock_free_def kernel_ok_def)
  then have "kernel_ok t (ps @ [p]) (n + 1)"
    using ok t(2-4,6,8,10,11) unfolding kernel_ok_def im kt more(2,3) by auto
  then show thesis using t more(4) by (intro that [OF t(1)]) (simp_all add: thread_frame_def)
qed

lemma kernel_pages:
  fixes s :: "'a ktss_scheme"
  assumes ok: "kernel_ok s ps n" and k: "0 < k" "k < 3840" "n + k \<le> bitmap_bits (kvb s)" "2 * k \<le> kfree s"
  obtains t where "get_kernel_pages (of_nat k) s = Inr (kpage s n, t)" and "kernel_ok t ps (n + k)" and "kvb t = kvb s" and "kpage t = kpage s"
    and "kfree s \<le> kfree t + 2 * k" and "eflags t = eflags s" and "next_pid t = next_pid s" and "tasks t = tasks s" and "tstacks t = tstacks s"
    and "esp t = esp s"
proof -
  have h: "heap_ok s" "heap_used s n" using ok by (simp_all add: kernel_ok_def)
  obtain t where t: "get_kernel_pages (of_nat k) s = Inr (kpage s n, t)" "heap_ok t" "heap_used t (n + k)" "kfree s \<le> kfree t + 2 * k"
    using get_kernel_pages_next [OF h(1) k(1,2) h(2) k(3,4)] by metis
  note m = mem_step_fields [OF mem_step_get_kernel_pages [OF t(1)]]
  note kt = kkbd_more [OF m(21)]
  have kv: "kvb t = kvb s" "kpage t = kpage s" by (simp_all add: kvb_def kpage_def m fun_eq_iff)
  have "threads_inv t ps as = threads_inv s ps as" for as by (rule threads_inv_same) (simp_all add: m)
  moreover have "lock_avail t l = lock_avail s l" for l by (simp add: lock_avail_def m)
  moreover have "lock_free t l = lock_free s l" for l by (rule lock_free_same) (simp_all add: lock_fields_def m)
  moreover have "image_nodes t = image_nodes s" by (simp add: image_nodes_def m kt)
  ultimately have "kernel_ok t ps (n + k)" using ok t(2,3) by (simp add: kernel_ok_def m kt kv)
  then show thesis using t(4) kv by (intro that [OF t(1)]) (simp_all add: m)
qed

lemma kernel_ok_output [simp]: "kernel_ok (s\<lparr>scr := x\<rparr>) ps n = kernel_ok s ps n"
proof -
  have "same_mem s (s\<lparr>scr := x\<rparr>)" by (simp add: same_mem_def)
  note h = same_mem_heap [OF this]
  have "lock_free (s\<lparr>scr := x\<rparr>) l = lock_free s l" for l by (rule lock_free_same) (simp_all add: lock_fields_def)
  then show ?thesis unfolding kernel_ok_def h by (simp add: image_nodes_def lock_avail_def)
qed

lemma kernel_ok_flags [simp]: "kernel_ok (s\<lparr>eflags := x\<rparr>) ps n = kernel_ok s ps n"
proof -
  have "same_mem s (s\<lparr>eflags := x\<rparr>)" by (simp add: same_mem_def)
  note h = same_mem_heap [OF this]
  have "threads_inv (s\<lparr>eflags := x\<rparr>) ps as = threads_inv s ps as" for as by (rule threads_inv_same) simp_all
  moreover have "lock_free (s\<lparr>eflags := x\<rparr>) l = lock_free s l" for l by (rule lock_free_same) (simp_all add: lock_fields_def)
  ultimately show ?thesis unfolding kernel_ok_def h by (simp add: image_nodes_def lock_avail_def)
qed

lemma boot_ok_output [simp]: "boot_ok (s\<lparr>scr := x\<rparr>) m = boot_ok s m"
  using irq_room_same [of "s\<lparr>scr := x\<rparr>" s] by (simp add: boot_ok_def loader_mem_def stack_ok_def image_nodes_def)

abbreviation (input) thread_a :: addr where "thread_a \<equiv> 0xc0103000"
abbreviation (input) thread_b :: addr where "thread_b \<equiv> 0xc0104000"

lemma kmain_ok:
  fixes s :: "'a ktss_scheme"
  assumes boot: "boot_ok s m"
  obtains t where "kmain l s = Return () t" and "kernel_ok t [thread_a, thread_b] 5" and "intr_get_status t = INTR_ON" and "esp t = esp s"
    and "tasks t main_page = new_task main_page ''main'' 31 (next_pid s + 1) TASK_RUNNING"
    and "tasks t thread_a = (new_task thread_a ''k_thread_a'' 31 (next_pid s + 2) TASK_READY)\<lparr>self_kstack := new_stack thread_a\<rparr>"
    and "tasks t thread_b = (new_task thread_b ''k_thread_b'' 30 (next_pid s + 3) TASK_READY)\<lparr>self_kstack := new_stack thread_b\<rparr>"
    and "\<exists>ts. tstacks t (new_stack thread_a) = thread_frame (at_kernel_thread l) (at_k_thread_a l) (at_argA l) ts"
    and "\<exists>ts. tstacks t (new_stack thread_b) = thread_frame (at_kernel_thread l) (at_k_thread_b l) (at_argB l) ts"
proof -
  define s0 where "s0 = kput_int 123 (kput_str ''I am kernel\<newline>'' s)"
  have s0: "boot_ok s0 m" "tasks s0 = tasks s" "next_pid s0 = next_pid s" "esp s0 = esp s" using boot by (simp_all add: s0_def)
  obtain a where a: "init_all l s0 = Return () a" "kernel_ok a [] 0" "bitmap_bits (kvb a) = 8 * (free_pages m div 16)" "kfree a = 8 * (free_pages m div 16)"
    "tasks a = (tasks s0)(main_page := new_task main_page ''main'' 31 (next_pid s0 + 1) TASK_RUNNING)" "next_pid a = next_pid s0 + 1" "esp a = esp s0"
    by (rule init_all_ok [OF s0(1)])
  have "64 div 16 \<le> free_pages m div 16" using s0(1) by (intro div_le_mono) (simp add: boot_ok_def)
  then have room: "32 \<le> bitmap_bits (kvb a)" "32 \<le> kfree a" by (simp_all add: a(3,4))
  obtain b where b: "get_kernel_pages (of_nat 3) a = Inr (kpage a 0, b)" "kernel_ok b [] (0 + 3)" "kvb b = kvb a" "kpage b = kpage a"
    "kfree a \<le> kfree b + 2 * 3" "next_pid b = next_pid a" "tasks b = tasks a" "esp b = esp a"
    by (rule kernel_pages [OF a(2), of 3]) (use room in simp_all)
  have kp: "kpage a i = of_nat (0xc0100000 + 4096 * i)" for i using a(2) by (simp add: kernel_ok_def)
  define c where "c = kput_str ''create thread\<newline>'' (kput_str ''\<newline>'' (kput_int (kpage a 0)
      (kput_str ''\<newline>    get_kernel_page start vaddr is '' b)))"
  have c: "kernel_ok c [] 3" "kvb c = kvb a" "kpage c = kpage a" "kfree c = kfree b" "next_pid c = next_pid a" "tasks c = tasks a" "esp c = esp a"
    using b by (simp_all add: c_def kvb_def kpage_def fun_eq_iff)
  obtain d where d: "thread_start (at_kernel_thread l) ''k_thread_a'' 31 (at_k_thread_a l) (at_argA l) c = Return (kpage c 3) d"
    "kernel_ok d ([] @ [kpage c 3]) (3 + 1)" "kvb d = kvb c" "kpage d = kpage c" "kfree c \<le> kfree d + 2" "next_pid d = next_pid c + 1"
    "tasks d = (tasks c)(kpage c 3 := (new_task (kpage c 3) ''k_thread_a'' 31 (next_pid c + 1) TASK_READY)\<lparr>self_kstack := new_stack (kpage c 3)\<rparr>)"
    "tstacks d = (tstacks c)(new_stack (kpage c 3) := thread_frame (at_kernel_thread l) (at_k_thread_a l) (at_argA l) (tstacks c (new_stack (kpage c 3))))" "esp d = esp c"
    by (rule kernel_start [OF c(1), of "''k_thread_a''"]) (use c room b(5) in simp_all)
  obtain e where e: "thread_start (at_kernel_thread l) ''k_thread_b'' 30 (at_k_thread_b l) (at_argB l) d = Return (kpage d 4) e"
    "kernel_ok e ([kpage c 3] @ [kpage d 4]) (4 + 1)"
    "tasks e = (tasks d)(kpage d 4 := (new_task (kpage d 4) ''k_thread_b'' 30 (next_pid d + 1) TASK_READY)\<lparr>self_kstack := new_stack (kpage d 4)\<rparr>)"
    "tstacks e = (tstacks d)(new_stack (kpage d 4) := thread_frame (at_kernel_thread l) (at_k_thread_b l) (at_argB l) (tstacks d (new_stack (kpage d 4))))" "esp e = esp d"
    by (rule kernel_start [of d "[kpage c 3]" 4 "''k_thread_b''"]) (use d c room b(5) in auto)
  have k3: "kpage c 3 = thread_a" "kpage d 4 = thread_b" by (simp_all add: d(4) c(3) kp)
  have go: "kmain l s = Return () (sti e)"
    using a(1) b(1) d(1) e(1) by (simp add: kmain_def Let_def flip: s0_def kput_defs) (simp add: c_def)
  have "kernel_ok (sti e) [thread_a, thread_b] 5" using e(2) by (simp add: sti_eq k3)
  moreover have "tasks (sti e) = tasks e" "tstacks (sti e) = tstacks e" "intr_get_status (sti e) = INTR_ON" "esp (sti e) = esp s"
    by (simp_all add: sti_eq intr_get_status_eq bit_set_IF e(5) d(9) c(7) a(7) s0(4))
  moreover have "tasks e = (tasks s)(main_page := new_task main_page ''main'' 31 (next_pid s + 1) TASK_RUNNING,
      thread_a := (new_task thread_a ''k_thread_a'' 31 (next_pid s + 2) TASK_READY)\<lparr>self_kstack := new_stack thread_a\<rparr>,
      thread_b := (new_task thread_b ''k_thread_b'' 30 (next_pid s + 3) TASK_READY)\<lparr>self_kstack := new_stack thread_b\<rparr>)"
    by (simp only: e(3) d(6,7) k3 c(5,6) a(5,6) s0) (simp add: add.assoc)
  moreover note tse = e(4) [unfolded k3 d(8) k3]
  ultimately show thesis
    by (intro that [OF go]) (auto simp: tse)
qed

end
