(* ===== verification/System.thy ===== *)
theory System
  imports Kernel
begin

text \<open>
  The running system: what hardware interrupts and the threads of \<open>src/kernel/main.c\<close> do to the state that \<open>main\<close>
  leaves.  The keyboard interrupt fills the queue, the loop of a thread empties it onto the screen, and the timer
  interrupt takes the processor from \<open>main\<close> and gives it to \<open>k_thread_a\<close>.
\<close>

section \<open>The loop of a thread\<close>

text \<open>The queue of the keyboard is well formed and has no waiting thread; and the running thread can use the console.\<close>

definition kbd_idle :: "'a kkbd_scheme \<Rightarrow> bool" where
  "kbd_idle s \<longleftrightarrow> ring_ok (ioqs s (kbd_buf s)) \<and> wslot s (ioq_producer (kbd_buf s)) = NULL \<and> wslot s (ioq_consumer (kbd_buf s)) = NULL"

definition echo_ready :: "'a kkbd_scheme \<Rightarrow> bool" where
  "echo_ready s \<longleftrightarrow> lock_avail s (console_lock s) \<and> kbd_idle s"

text \<open>The state after a pass of the loop that prints the first character of the queue.\<close>

definition echoed :: "string \<Rightarrow> u8 \<Rightarrow> 'a kkbd_scheme \<Rightarrow> 'a kkbd_scheme" where
  "echoed para c s = upd_ioq (kbd_buf s) ring_get (printed (\<lambda>x. put_char c (put_str para x)) s)"

lemma console_char_printed:
  "lock_avail s (console_lock s) \<Longrightarrow> console_put_char c s = Return () (printed (put_char c) s)"
  using locked_output_avail [of s "put_char c"] by (simp add: console_put_eq printed_def)

lemma cli_avail: "lock_avail (cli s) = lock_avail s" for s :: "'a kstate_scheme"
  by (simp add: cli_eq lock_avail_def running_thread_def fun_eq_iff)

lemma cli_kbd [simp]:
  fixes s :: "'a kkbd_scheme"
  shows "console_lock (cli s) = console_lock s" "kbd_buf (cli s) = kbd_buf s" "ioqs (cli s) = ioqs s" "wslot (cli s) = wslot s"
  by (simp_all add: cli_eq)

lemma restore_cli:
  "eflags t = clear_IF (eflags s) \<Longrightarrow> restore_intr (intr_get_status s) t = t\<lparr>eflags := eflags s\<rparr>"
  by (simp add: restore_intr_eq intr_get_status_eq)

lemma k_thread_pass_idle:
  assumes "kbd_idle s" and "kbd_queue s = []"
  shows "k_thread_pass para s = Return () s"
proof -
  have "ioq_empty (kbd_buf s) (cli s) = Inr True"
    using assms by (simp add: kbd_idle_def ioq_empty_def ring_empty flip: length_0_conv)
  then show ?thesis
    using restore_cli [of "cli s" s] by (simp add: k_thread_pass_def case_prod_unfold Let_def fst_intr_disable) (simp add: cli_eq)
qed

lemma k_thread_pass_echo:
  assumes ok: "echo_ready s" and q: "kbd_queue s = c # cs"
  shows "k_thread_pass para s = Return () (echoed para c s)" and "echo_ready (echoed para c s)" and "kbd_queue (echoed para c s) = cs"
proof -
  let ?k = "kbd_buf s"
  have r: "ring_ok (ioqs s ?k)" "lock_avail s (console_lock s)" "wslot s (ioq_producer ?k) = NULL" using ok by (simp_all add: echo_ready_def kbd_idle_def)
  have len: "0 < ring_length (ioqs s ?k)" using q by (metis length_greater_0_conv length_queue_of list.discI)
  define a where "a = printed (put_str para) (cli s)"
  have a: "console_put_str para (cli s) = Return () a" using r(2) by (simp add: a_def console_printed cli_avail)
  have fa: "kbd_buf a = ?k" "ioqs a = ioqs s" "wslot a = wslot s" "console_lock a = console_lock s"
    "lock_avail a (console_lock s)"
    using printed_fields(14) [of "put_str para" "cli s"] by (simp_all add: a_def) (simp_all add: printed_def lock_held_def)
  have "eflags a = eflags (cli s)" by (simp add: a_def)
  then have off: "intr_get_status a = INTR_OFF" using intr_status_cli [of s] by (simp only: intr_get_status_eq)
  define b where "b = upd_ioq ?k ring_get a"
  have b: "ioq_getchar ?k a = Return c b"
    using ioq_getchar_ready [of a ?k] r len fa off q by (simp add: b_def)
  have "lock_avail b (console_lock b)" using fa(4,5) by (simp add: b_def lock_avail_def upd_ioq_def running_thread_def)
  note c = console_char_printed [OF this, of c]
  have e: "ioq_empty ?k (cli s) = Inr False" using r len by (simp add: ioq_empty_def ring_empty)
  have eq: "printed (put_char c) b = (echoed para c s)\<lparr>eflags := clear_IF (eflags s)\<rparr>"
    by (simp add: b_def a_def echoed_def printed_def lock_held_def upd_ioq_def cli_eq running_thread_def)
  have same: "(echoed para c s)\<lparr>eflags := eflags s\<rparr> = echoed para c s"
    by (simp add: echoed_def printed_def lock_held_def upd_ioq_def)
  show "k_thread_pass para s = Return () (echoed para c s)"
    using a b c e same restore_cli [of "(echoed para c s)\<lparr>eflags := clear_IF (eflags s)\<rparr>" s]
    by (simp add: k_thread_pass_def case_prod_unfold Let_def fst_intr_disable fa(1) eq)
  have f: "kbd_buf (echoed para c s) = ?k" "ioqs (echoed para c s) = (ioqs s)(?k := ring_get (ioqs s ?k))"
    "wslot (echoed para c s) = wslot s" "console_lock (echoed para c s) = console_lock s"
    by (simp_all add: echoed_def upd_ioq_def printed_def lock_held_def)
  have "lock_avail (echoed para c s) (console_lock s)"
    using printed_fields(14) [of "\<lambda>x. put_char c (put_str para x)" s] by (simp add: echoed_def upd_ioq_def lock_avail_def running_thread_def)
  then show "echo_ready (echoed para c s)" "kbd_queue (echoed para c s) = cs"
    using ok q ring_get_ok [OF r(1) len] by (simp_all add: echo_ready_def kbd_idle_def f)
qed

text \<open>\<open>n\<close> passes print the whole queue when it has at most \<open>n\<close> characters.\<close>

lemma k_thread_echo:
  assumes "echo_ready s" and "length (kbd_queue s) \<le> n"
  shows "\<exists>t. k_thread n para s = Return () t \<and> echo_ready t \<and> kbd_queue t = [] \<and> eflags t = eflags s \<and>
    scr t = fold (\<lambda>c x. put_char c (put_str para x)) (kbd_queue s) (scr s) \<and>
    (kbd_queue s \<noteq> [] \<longrightarrow> lk_holder t (console_lock s) = running_thread s)"
  using assms
proof (induction n arbitrary: s)
  case (Suc n)
  show ?case
  proof (cases "kbd_queue s")
    case Nil
    then show ?thesis using Suc.IH [of s] Suc.prems k_thread_pass_idle [OF _ Nil] by (simp add: echo_ready_def)
  next
    case (Cons c cs)
    note pass = k_thread_pass_echo [OF Suc.prems(1) Cons, of para]
    let ?e = "echoed para c s"
    have e: "eflags ?e = eflags s" "scr ?e = put_char c (put_str para (scr s))" "console_lock ?e = console_lock s"
      "running_thread ?e = running_thread s" "lk_holder ?e (console_lock s) = running_thread s"
      by (simp_all add: echoed_def upd_ioq_def printed_def lock_held_def running_thread_def)
    have "length (kbd_queue ?e) \<le> n" using Suc.prems(2) pass(3) Cons by (simp del: length_queue_of)
    then obtain t where t: "k_thread n para ?e = Return () t" "echo_ready t" "kbd_queue t = []" "eflags t = eflags ?e"
      "scr t = fold (\<lambda>c x. put_char c (put_str para x)) cs (scr ?e)"
      "cs \<noteq> [] \<longrightarrow> lk_holder t (console_lock s) = running_thread s"
      using Suc.IH [OF pass(2)] pass(3) e by auto
    have "lk_holder t (console_lock s) = running_thread s"
    proof (cases "cs = []")
      case True
      have "k_thread n para ?e = Return () ?e" if "echo_ready ?e" "kbd_queue ?e = []" for n
        using k_thread_pass_idle [OF _ that(2)] that(1) by (induction n) (simp_all add: echo_ready_def)
      then show ?thesis using t(1) pass(2,3) e(5) True by simp
    qed (use t(6) in simp)
    then show ?thesis using t e pass(1) Cons by simp
  qed
qed (simp del: length_queue_of)

section \<open>Interrupts\<close>

text \<open>The state in which a handler runs.\<close>

definition entered :: "'a kkbd_scheme \<Rightarrow> 'a kkbd_scheme" where
  "entered s = s\<lparr>eflags := clear_IF (eflags s), esp := esp s - intr_frame, outp := outp s @ [(0xa0, 0x20), (0x20, 0x20)]\<rparr>"

abbreviation left :: "u32 \<Rightarrow> 'a kkbd_scheme \<Rightarrow> 'a kkbd_scheme" where
  "left old t \<equiv> t\<lparr>eflags := old, esp := esp t + intr_frame\<rparr>"

lemma entered_fields [simp]:
  fixes s :: "'a kkbd_scheme"
  shows "eflags (entered s) = clear_IF (eflags s)" "idt_table (entered s) = idt_table s" "ioqs (entered s) = ioqs s"
    "wslot (entered s) = wslot s" "kbd_buf (entered s) = kbd_buf s" "console_lock (entered s) = console_lock s" "mods_of (entered s) = mods_of s"
    "ext_scancode (entered s) = ext_scancode s" "esp (entered s) = esp s - intr_frame" "lk_holder (entered s) = lk_holder s"
    "lk_repeat (entered s) = lk_repeat s" "sem_value (entered s) = sem_value s"
    "intr_get_status (entered s) = INTR_OFF" "tasks (entered s) = tasks s" "tstacks (entered s) = tstacks s" "total_ticks (entered s) = total_ticks s"
  by (simp_all add: entered_def mods_of_def intr_get_status_eq bit_clear_IF)

lemma entered_thread:
  fixes s :: "'a kkbd_scheme"
  assumes "irq_room s"
  shows "running_thread (entered s) = running_thread s" and "sched_inv s ps \<Longrightarrow> sched_inv (entered s) ps"
proof -
  show run: "running_thread (entered s) = running_thread s"
    using assms by (simp add: irq_room_def stack_ok_def running_thread_frame)
  have "list_at (entered s) = list_at s" "thread_ready_list (entered s) = thread_ready_list s"
    by (simp_all add: entered_def list_at_def fun_eq_iff)
  then show "sched_inv (entered s) ps" if "sched_inv s ps"
    using assms that run by (simp add: irq_room_def sched_inv_def ready_queue_def saved_ok_def stack_ok_def tag_apart_def Let_def)
qed

lemma intr_entry_kbd:
  assumes "length (idt_table s) = 0x81" and "idt_table s ! 0x21 = Intr_keyboard_handler"
  shows "intr_entry 0x21 b cr2 s = bindR (intr_keyboard_handler b (entered s)) (\<lambda>_ t. Return () (left (eflags s) t))"
  using assms by (simp add: intr_entry_def Let_def entered_def outb_def)

lemma intr_entry_timer:
  assumes "length (idt_table s) = 0x81" and "idt_table s ! 0x20 = Intr_timer_handler"
  shows "intr_entry 0x20 b cr2 s = bindR (intr_timer_handler (entered s)) (\<lambda>_ t. Return () (left (eflags s) t))"
  using assms by (simp add: intr_entry_def Let_def entered_def outb_def)

text \<open>What the keyboard handler leaves alone: everything that the scheduler and the locks use.\<close>

definition same_threads :: "'a kkbd_scheme \<Rightarrow> 'a kkbd_scheme \<Rightarrow> bool" where
  "same_threads s t \<longleftrightarrow> tasks t = tasks s \<and> lnext t = lnext s \<and> lprev t = lprev s \<and> thread_ready_list t = thread_ready_list s \<and>
     esp t = esp s \<and> lk_holder t = lk_holder s \<and> lk_repeat t = lk_repeat s \<and> sem_value t = sem_value s \<and>
     idt_table t = idt_table s \<and> console_lock t = console_lock s \<and> kbd_buf t = kbd_buf s \<and> wslot t = wslot s"

lemma same_threads_upd [simp]:
  "same_threads s (t\<lparr>scr := a\<rparr>) = same_threads s t" "same_threads s (upd_ioq q f t) = same_threads s t"
  "same_threads s (t\<lparr>ctrl_status := b\<rparr>) = same_threads s t" "same_threads s (t\<lparr>shift_status := b\<rparr>) = same_threads s t"
  "same_threads s (t\<lparr>alt_status := b\<rparr>) = same_threads s t" "same_threads s (t\<lparr>caps_lock_status := b\<rparr>) = same_threads s t"
  "same_threads s (t\<lparr>ext_scancode := b\<rparr>) = same_threads s t" "same_threads s (t\<lparr>eflags := x\<rparr>) = same_threads s t" "same_threads s s"
  by (simp_all add: same_threads_def upd_ioq_def)

lemma same_threads_avail:
  "same_threads s t \<Longrightarrow> lock_avail t = lock_avail s" "same_threads s t \<Longrightarrow> running_thread t = running_thread s"
  by (simp_all add: same_threads_def lock_avail_def running_thread_def fun_eq_iff)

lemma put_key_kept:
  assumes "kbd_quiet s" and "ring_length (ioqs s (kbd_buf s)) \<noteq> 63" and "ioq_putchar (kbd_buf s) c (s\<lparr>scr := a\<rparr>) = Return x t"
  shows "same_threads s t"
proof -
  have "ring_length (ioqs s (kbd_buf s)) < 64" unfolding ring_length_def by (rule mod_less_divisor) simp
  then have "ring_length (ioqs s (kbd_buf s)) < 63" using assms(2) by linarith
  then show ?thesis
    using assms(1,3) ioq_putchar_room [of "s\<lparr>scr := a\<rparr>" "kbd_buf s" c]
    by (auto simp: kbd_quiet_def ioq_quiet_def intr_get_status_def)
qed

lemma key_make_kept:
  assumes "kbd_quiet s" and "key_make code sh cl s = Return x t"
  shows "same_threads s t"
proof -
  have "ring_ok (ioqs s (kbd_buf s))" "intr_get_status s = INTR_OFF" using assms(1) by (simp_all add: kbd_quiet_def ioq_quiet_def)
  then have "ioq_full (kbd_buf s) s = Inr (ring_length (ioqs s (kbd_buf s)) = 63)" by (simp add: ioq_full_def ring_full)
  then show ?thesis
    using assms(2) put_key_kept [OF assms(1)] by (auto simp: key_make_def Let_def split: if_splits)
qed

lemma handler_kept:
  assumes "kbd_quiet s" and "intr_keyboard_handler b s = Return x t"
  shows "same_threads s t"
proof -
  let ?s = "s\<lparr>ext_scancode := False\<rparr>"
  have "same_threads ?s t" if "key_make code sh cl ?s = Return x t" for code sh cl using key_make_kept [OF _ that] assms(1) by simp
  moreover have "same_threads ?s t = same_threads s t" by (simp add: same_threads_def)
  ultimately show ?thesis
    using assms(2) by (auto simp: handler_code key_code_def key_break_def Let_def split: if_splits)
qed

text \<open>The keyboard sends the bytes one after another.\<close>

fun key_irqs :: "u8 list \<Rightarrow> 'a kkbd_scheme \<Rightarrow> ('a kkbd_scheme, unit) run" where
  "key_irqs [] s = Return () s"
| "key_irqs (b # bs) s = bindR (intr_entry 0x21 b 0 s) (\<lambda>_. key_irqs bs)"

lemma key_irq:
  assumes ok: "kbd_idle s" and idt: "length (idt_table s) = 0x81" "idt_table s ! 0x21 = Intr_keyboard_handler"
  obtains t where "intr_entry 0x21 b 0 s = Return () t" and "kbd_idle t" and "same_threads s t" and "eflags t = eflags s"
    and "ext_scancode t = pending_prefix (ext_scancode s) [b]" and "mods_of t = fold modifiers_step (strokes (ext_scancode s) [b]) (mods_of s)"
    and "kbd_queue t = take 63 (kbd_queue s @ typed (mods_of s) (strokes (ext_scancode s) [b]))"
proof -
  let ?e = "entered s"
  have q: "kbd_quiet ?e" using ok by (simp add: kbd_quiet_def ioq_quiet_def kbd_idle_def)
  obtain u where u: "kbd_bytes [b] ?e = Return () u" "kbd_quiet u" "kbd_buf u = kbd_buf ?e"
    "ext_scancode u = pending_prefix (ext_scancode ?e) [b]" "mods_of u = fold modifiers_step (strokes (ext_scancode ?e) [b]) (mods_of ?e)"
    "kbd_queue u = take 63 (kbd_queue ?e @ typed (mods_of ?e) (strokes (ext_scancode ?e) [b]))"
    using kbd_bytes_after [OF q, of "[b]"] by blast
  have h: "intr_keyboard_handler b ?e = Return () u" using u(1) by (cases "intr_keyboard_handler b ?e") simp_all
  have k: "same_threads ?e u" by (rule handler_kept [OF q h])
  define t where "t = left (eflags s) u"
  have ft: "ext_scancode t = ext_scancode u" "mods_of t = mods_of u" "kbd_buf t = kbd_buf u" "ioqs t = ioqs u" "wslot t = wslot u" "eflags t = eflags s"
    by (simp_all add: t_def mods_of_def)
  have same: "same_threads s t" using k by (simp add: same_threads_def t_def) (simp add: entered_def)
  have "kbd_idle t" using u(2) by (simp add: kbd_idle_def ft kbd_quiet_def ioq_quiet_def)
  moreover have "intr_entry 0x21 b 0 s = Return () t" using h by (simp add: intr_entry_kbd [OF idt] t_def)
  moreover have "kbd_queue t = kbd_queue u" by (simp add: ft)
  then have "kbd_queue t = take 63 (kbd_queue s @ typed (mods_of s) (strokes (ext_scancode s) [b]))" unfolding u(6) by (simp only: entered_fields)
  ultimately show thesis using same by (intro that [of t]) (simp_all only: ft u(4,5) entered_fields)
qed

lemma strokes_Cons: "strokes e (b # bs) = strokes e [b] @ strokes (pending_prefix e [b]) bs"
  and pending_Cons: "pending_prefix e (b # bs) = pending_prefix (pending_prefix e [b]) bs"
  by simp_all

lemma typed_append: "typed m (xs @ ys) = typed m xs @ typed (fold modifiers_step xs m) ys"
  by (induction xs arbitrary: m) simp_all

lemma key_irqs_after:
  assumes "echo_ready s" and "length (idt_table s) = 0x81" and "idt_table s ! 0x21 = Intr_keyboard_handler"
  shows "\<exists>t. key_irqs bs s = Return () t \<and> echo_ready t \<and> eflags t = eflags s \<and> running_thread t = running_thread s \<and>
    console_lock t = console_lock s \<and> kbd_queue t = take 63 (kbd_queue s @ typed (mods_of s) (strokes (ext_scancode s) bs))"
  using assms
proof (induction bs arbitrary: s)
  case Nil
  then have "kbd_quiet (entered s)" by (simp add: kbd_quiet_def ioq_quiet_def echo_ready_def kbd_idle_def)
  from kbd_queue_take [OF this] show ?case using Nil by simp
next
  case (Cons b bs)
  have idle: "kbd_idle s" using Cons.prems(1) by (simp add: echo_ready_def)
  obtain u where u: "intr_entry 0x21 b 0 s = Return () u" "kbd_idle u" "same_threads s u" "eflags u = eflags s"
    "ext_scancode u = pending_prefix (ext_scancode s) [b]" "mods_of u = fold modifiers_step (strokes (ext_scancode s) [b]) (mods_of s)"
    "kbd_queue u = take 63 (kbd_queue s @ typed (mods_of s) (strokes (ext_scancode s) [b]))"
    by (rule key_irq [OF idle Cons.prems(2,3), of b])
  have keep: "idt_table u = idt_table s" "console_lock u = console_lock s" "running_thread u = running_thread s"
    using u(3) same_threads_avail(2) [OF u(3)] by (simp_all add: same_threads_def)
  have ready: "echo_ready u" using u(2) Cons.prems(1) same_threads_avail(1) [OF u(3)] keep(2) by (simp add: echo_ready_def)
  obtain t where t: "key_irqs bs u = Return () t" "echo_ready t" "eflags t = eflags u" "running_thread t = running_thread u"
    "console_lock t = console_lock u" "kbd_queue t = take 63 (kbd_queue u @ typed (mods_of u) (strokes (ext_scancode u) bs))"
    using Cons.IH [OF ready] Cons.prems(2,3) keep(1) by auto
  have "kbd_queue t = take 63 (kbd_queue s @ typed (mods_of s) (strokes (ext_scancode s) (b # bs)))"
    unfolding t(6) u(5-7) strokes_Cons [of _ b bs] typed_append append_assoc [symmetric] by (simp only: take_take_append append_assoc)
  then show ?case using t(1-5) u(1,4) keep by (intro exI [of _ t]) simp
qed

text \<open>Timer interrupts.\<close>

fun timer_entries :: "nat \<Rightarrow> 'a kkbd_scheme \<Rightarrow> ('a kkbd_scheme, unit) run" where
  "timer_entries 0 s = Return () s"
| "timer_entries (Suc n) s = bindR (intr_entry 0x20 0 0 s) (\<lambda>_. timer_entries n)"

definition ticked :: "addr \<Rightarrow> nat \<Rightarrow> 'a kkbd_scheme \<Rightarrow> 'a kkbd_scheme" where
  "ticked p n s = (charged p n s)\<lparr>outp := outp s @ concat (replicate n [(0xa0, 0x20), (0x20, 0x20)])\<rparr>"

lemma ticked_fields [simp]:
  fixes s :: "'a kkbd_scheme"
  shows "idt_table (ticked p n s) = idt_table s" "running_thread (ticked p n s) = running_thread s" "tasks (ticked p n s) = tasks (charged p n s)"
    "total_ticks (ticked p n s) = total_ticks (charged p n s)" "tstacks (ticked p n s) = tstacks s" "sched_inv (ticked p n s) ps = sched_inv s ps"
    "esp (ticked p n s) = esp s"
proof -
  show "sched_inv (ticked p n s) ps = sched_inv s ps"
    unfolding sched_inv_charged [of p n s, symmetric]
    by (simp add: ticked_def sched_inv_def ready_queue_def saved_ok_def stack_ok_def tag_apart_def list_at_def running_thread_def)
qed (simp_all add: ticked_def charged_def upd_task_def running_thread_def)

lemma timer_entry_tick:
  assumes "length (idt_table s) = 0x81" and "idt_table s ! 0x20 = Intr_timer_handler"
    and "stack_magic (tasks s p) = 0x19851122" and "ticks (tasks s p) \<noteq> 0" and "p = running_thread s" and "irq_room s"
  shows "intr_entry 0x20 b cr2 s = Return () (ticked p 1 s)"
proof -
  have "intr_timer_handler (entered s) = Return () (charged p 1 (entered s))"
    by (rule timer_handler_tick) (use assms entered_thread(1) [OF assms(6)] in simp_all)
  then show ?thesis
    by (simp add: intr_entry_timer [OF assms(1,2)]) (simp add: ticked_def charged_def upd_task_def entered_def)
qed

lemma timer_entries_ticked:
  assumes "length (idt_table s) = 0x81" and "idt_table s ! 0x20 = Intr_timer_handler"
    and "stack_magic (tasks s p) = 0x19851122" and "p = running_thread s" and "n \<le> unat (ticks (tasks s p))" and "irq_room s"
  shows "timer_entries n s = Return () (ticked p n s)"
  using assms
proof (induction n arbitrary: s)
  case 0
  show ?case by (simp add: ticked_def)
next
  case (Suc n)
  then have nz: "ticks (tasks s p) \<noteq> 0" by auto
  then have "n \<le> unat (ticks (tasks s p) - 1)" using Suc.prems(5) by (simp add: unat_dec)
  moreover have "ticked p n (ticked p 1 s) = ticked p (Suc n) s"
    by (simp add: ticked_def charged_def upd_task_def algebra_simps)
  ultimately show ?case
    using Suc.IH [of "ticked p 1 s"] Suc.prems timer_entry_tick [OF Suc.prems(1-3) nz Suc.prems(4,6)] irq_room_same [of "ticked p 1 s" s] by simp
qed

text \<open>The interrupt that ends the time slice, when another thread is ready.\<close>

lemma timer_entry_expired:
  assumes inv: "sched_inv s (q # qs)" and idt: "length (idt_table s) = 0x81" "idt_table s ! 0x20 = Intr_timer_handler"
    and p: "p = running_thread s" "stack_magic (tasks s p) = 0x19851122" "ticks (tasks s p) = 0" and room: "irq_room s"
  obtains s' where "intr_entry 0x20 b cr2 s = Switch s' (\<lambda>t. Return () (left (eflags s) (schedule_back t)))"
    and "running_thread s' = q" and "sched_inv (schedule_back s') (qs @ [p])" and "esp s' = self_kstack (tasks s q) + 20"
    and "tstacks s' = tstacks s" and "ticks (tasks s' p) = priority (tasks s p)"
proof -
  let ?e = "entered s"
  define v where "v = (upd_task p (\<lambda>t. t\<lparr>elapsed_ticks := elapsed_ticks t + 1\<rparr>) ?e)\<lparr>total_ticks := total_ticks ?e + 1\<rparr>"
  have pe: "stack_magic (tasks ?e p) = 0x19851122" "ticks (tasks ?e p) = 0" "p = running_thread ?e" using p entered_thread(1) [OF room] by simp_all
  note ex = timer_handler_expired [OF pe, folded v_def]
  have inv_v: "sched_inv v (q # qs)" using entered_thread(2) [OF room inv] unfolding ex(2) .
  have off: "intr_get_status v = INTR_OFF" using ex(4) by simp
  have "status (tasks s p) = TASK_RUNNING" "p \<notin> set (q # qs)" using inv p(1) by (auto simp: sched_inv_def Let_def)
  then have qp: "q \<noteq> p" by auto
  obtain s' where s': "schedule_out v = Inr s'" "sched_inv (schedule_back s') (qs @ [p])" "running_thread s' = q"
    "ticks (tasks s' p) = priority (tasks v p)" "q \<noteq> p \<longrightarrow> esp s' = self_kstack (tasks v q) + 20"
    using schedule_out_running [OF inv_v off] unfolding ex(3) by (metis append_Cons list.sel(1,3))
  have "tasks v q = tasks s q" "priority (tasks v p) = priority (tasks s p)" "tstacks v = tstacks s"
    using qp by (simp_all add: v_def upd_task_def)
  moreover have "tstacks s' = tstacks v" using sched_step_schedule [OF s'(1)] by (simp add: sched_step_def)
  moreover have "intr_entry 0x20 b cr2 s = Switch s' (\<lambda>t. Return () (left (eflags s) (schedule_back t)))"
    by (simp add: intr_entry_timer [OF idt] ex(1) schedule_def s'(1))
  ultimately show thesis using s' qp by (intro that [of s']) simp_all
qed

section \<open>Properties\<close>

text \<open>A machine with 32 MB, as the loader leaves it, for the examples.\<close>

definition sample_boot :: "'a ktss_scheme \<Rightarrow> 'a ktss_scheme" where
  "sample_boot s = s\<lparr>pmem := setup_page ((\<lambda>_. 0)(0xb00 := 0x2000000)), cr3 := 0x100000, esp := 0xc009ef00,
     thread_ready_list := 0xc0006000, thread_all_list := 0xc0006100, pid_lock := 0xc0006200, next_pid := 0,
     ioqs := \<lambda>_. \<lparr>ioq_buf = replicate 64 0, ioq_head = 0, ioq_tail = 0\<rparr>, console_lock := 0xc0006300, kbd_buf := 0xc0006400\<rparr>"

lemma sample_boot_ok: "boot_ok (sample_boot s) 0x2000000" and sample_boot_pages: "free_pages 0x2000000 = 7680"
proof -
  show "free_pages 0x2000000 = 7680" by (simp add: free_pages_def)
  then show "boot_ok (sample_boot s) 0x2000000"
    by (simp add: boot_ok_def sample_boot_def loader_mem_def irq_room_def stack_ok_def frame_def image_nodes_def Let_def running_thread_def
        sema_waiters_def lock_sema_def) (auto intro!: exI [of _ "(\<lambda>_. 0)(0xb00 := 0x2000000)"] split: if_splits)
qed

text \<open>C8. Started by the loader, \<open>main\<close> initialises every part and returns to its idle loop with interrupts on, as thread
  \<open>main\<close> with two threads ready behind it, in the order in which it created them, whose frames lead to
  \<open>kernel_thread\<close> with the functions and arguments of \<open>main\<close>; the invariants of the scheduler and of the page allocator hold,
  the handlers of timer and keyboard are registered, the queue of the keyboard is empty and the console free.\<close>

theorem main_starts_threads:
  assumes "boot_ok s m"
  shows "\<exists>t. kmain l s = Return () t \<and> threads_inv t [thread_a, thread_b] [main_page, thread_a, thread_b] \<and> heap_ok t \<and>
    running_thread t = main_page \<and> intr_get_status t = INTR_ON \<and>
    idt_table t ! 0x20 = Intr_timer_handler \<and> idt_table t ! 0x21 = Intr_keyboard_handler \<and> echo_ready t \<and> kbd_queue t = [] \<and>
    map (\<lambda>p. (takeWhile (\<lambda>c. c \<noteq> 0) (name (tasks t p)), ticks (tasks t p), pid (tasks t p))) [main_page, thread_a, thread_b] =
      [(map of_char ''main'', 31, next_pid s + 1), (map of_char ''k_thread_a'', 31, next_pid s + 2),
       (map of_char ''k_thread_b'', 30, next_pid s + 3)] \<and>
    map (\<lambda>p. let f = tstacks t (self_kstack (tasks t p)) in (ts_eip f, ts_function f, ts_func_arg f)) [thread_a, thread_b] =
      [(at_kernel_thread l, at_k_thread_a l, at_argA l), (at_kernel_thread l, at_k_thread_b l, at_argB l)]"
proof -
  obtain t where t: "kmain l s = Return () t" "kernel_ok t [thread_a, thread_b] 5" "intr_get_status t = INTR_ON"
    "tasks t main_page = new_task main_page ''main'' 31 (next_pid s + 1) TASK_RUNNING"
    "tasks t thread_a = (new_task thread_a ''k_thread_a'' 31 (next_pid s + 2) TASK_READY)\<lparr>self_kstack := new_stack thread_a\<rparr>"
    "tasks t thread_b = (new_task thread_b ''k_thread_b'' 30 (next_pid s + 3) TASK_READY)\<lparr>self_kstack := new_stack thread_b\<rparr>"
    "\<exists>ts. tstacks t (new_stack thread_a) = thread_frame (at_kernel_thread l) (at_k_thread_a l) (at_argA l) ts"
    "\<exists>ts. tstacks t (new_stack thread_b) = thread_frame (at_kernel_thread l) (at_k_thread_b l) (at_argB l) ts"
    by (rule kmain_ok [OF assms])
  show ?thesis
    using t(1-3,7,8) lock_free_avail [of t "console_lock t"]
    by (intro exI [of _ t]) (auto simp: t(4-6) kernel_ok_def echo_ready_def kbd_idle_def new_task_def thread_frame_def takeWhile_replicate)
qed

theorem main_starts_threads_witness:
  "\<forall>s :: ktss. \<forall>l. \<exists>t. kmain l (sample_boot s) = Return () t \<and> running_thread t = main_page \<and> intr_get_status t = INTR_ON \<and>
     threads_inv t [thread_a, thread_b] [main_page, thread_a, thread_b]"
proof (intro allI)
  fix s :: ktss and l
  show "\<exists>t. kmain l (sample_boot s) = Return () t \<and> running_thread t = main_page \<and> intr_get_status t = INTR_ON \<and>
     threads_inv t [thread_a, thread_b] [main_page, thread_a, thread_b]"
    using main_starts_threads [OF sample_boot_ok, of l s] by blast
qed

text \<open>C11. The first 31 timer interrupts leave \<open>main\<close> running; the next one switches to the first stack frame of \<open>k_thread_a\<close>,
  from which \<open>switch_to\<close> returns into \<open>kernel_thread\<close> with \<open>k_thread_a\<close> and its argument.  \<open>main\<close> waits behind \<open>k_thread_b\<close>,
  with its time slice refilled, and gets its flags back when it runs again.\<close>

theorem timer_starts_k_thread_a:
  assumes "boot_ok s m"
  shows "\<exists>t u s'. kmain l s = Return () t \<and> timer_entries 31 t = Return () u \<and> running_thread u = main_page \<and>
    intr_entry 0x20 0 0 u = Switch s' (\<lambda>v. Return () (left (eflags u) (schedule_back v))) \<and> running_thread s' = thread_a \<and>
    ts_eip (tstacks s' (esp s' - 20)) = at_kernel_thread l \<and> ts_function (tstacks s' (esp s' - 20)) = at_k_thread_a l \<and>
    ts_func_arg (tstacks s' (esp s' - 20)) = at_argA l \<and>
    sched_inv (schedule_back s') [thread_b, main_page] \<and> ticks (tasks s' main_page) = 31 \<and> total_ticks u = total_ticks t + 31"
proof -
  obtain t where t: "kmain l s = Return () t" "kernel_ok t [thread_a, thread_b] 5" "esp t = esp s"
    "tasks t main_page = new_task main_page ''main'' 31 (next_pid s + 1) TASK_RUNNING"
    "tasks t thread_a = (new_task thread_a ''k_thread_a'' 31 (next_pid s + 2) TASK_READY)\<lparr>self_kstack := new_stack thread_a\<rparr>"
    "\<exists>ts. tstacks t (new_stack thread_a) = thread_frame (at_kernel_thread l) (at_k_thread_a l) (at_argA l) ts"
    by (rule kmain_ok [OF assms])
  have k: "sched_inv t [thread_a, thread_b]" "running_thread t = main_page" "length (idt_table t) = 0x81" "idt_table t ! 0x20 = Intr_timer_handler"
    using t(2) by (simp_all add: kernel_ok_def threads_inv_def)
  have "irq_room s" using assms by (simp add: boot_ok_def)
  then have room: "irq_room t" unfolding irq_room_same [OF t(3)] .
  then have room': "irq_room (ticked main_page 31 t)" by (subst irq_room_same [of _ t]) simp_all
  define u where "u = ticked main_page 31 t"
  have "timer_entries 31 t = Return () u"
    unfolding u_def by (rule timer_entries_ticked) (use k t(4) room in \<open>simp_all add: new_task_def\<close>)
  moreover obtain s' where s': "intr_entry 0x20 0 0 u = Switch s' (\<lambda>v. Return () (left (eflags u) (schedule_back v)))"
    "running_thread s' = thread_a" "sched_inv (schedule_back s') ([thread_b] @ [main_page])" "esp s' = self_kstack (tasks u thread_a) + 20"
    "tstacks s' = tstacks u" "ticks (tasks s' main_page) = priority (tasks u main_page)"
    by (rule timer_entry_expired [of u thread_a "[thread_b]" main_page]) (use k t(4) room' in \<open>simp_all add: u_def new_task_def\<close>)
  moreover have "esp s' - 20 = new_stack thread_a" using s'(4) by (simp add: u_def t(5))
  ultimately show ?thesis
    using t(1,6) k(2) by (intro exI [of _ t] exI [of _ u] exI [of _ s']) (auto simp: u_def t(4) new_task_def thread_frame_def)
qed

theorem timer_starts_k_thread_a_witness:
  "\<forall>s :: ktss. \<forall>l. \<exists>t u s' k. kmain l (sample_boot s) = Return () t \<and> timer_entries 31 t = Return () u \<and> intr_entry 0x20 0 0 u = Switch s' k \<and>
     running_thread u = main_page \<and> running_thread s' = thread_a"
proof (intro allI)
  fix s :: ktss and l
  show "\<exists>t u s' k. kmain l (sample_boot s) = Return () t \<and> timer_entries 31 t = Return () u \<and> intr_entry 0x20 0 0 u = Switch s' k \<and>
     running_thread u = main_page \<and> running_thread s' = thread_a"
    using timer_starts_k_thread_a [OF sample_boot_ok, of l s] by blast
qed

text \<open>C10. What is typed appears on the screen.  The interrupts for any bytes of the keyboard return; afterwards 63 passes through the
  loop of \<open>k_thread_a\<close> or of \<open>k_thread_b\<close> print every character that was in the queue or that the bytes type, up to 63, in order,
  each after the argument of the thread, and empty the queue.  The flags are as before, and the thread holds the console lock.\<close>

theorem typed_keys_echoed:
  assumes "echo_ready s" and "length (idt_table s) = 0x81" and "idt_table s ! 0x21 = Intr_keyboard_handler"
    and "cs = take 63 (kbd_queue s @ typed (mods_of s) (strokes (ext_scancode s) bs))"
  shows "\<exists>t u. key_irqs bs s = Return () t \<and> k_thread_a 63 arg t = Return () u \<and> k_thread_b 63 arg t = Return () u \<and>
    scr u = fold (\<lambda>c x. put_char c (put_str arg x)) cs (scr t) \<and> kbd_queue u = [] \<and> echo_ready u \<and> eflags u = eflags s \<and>
    (cs \<noteq> [] \<longrightarrow> lk_holder u (console_lock s) = running_thread s)"
proof -
  obtain t where t: "key_irqs bs s = Return () t" "echo_ready t" "eflags t = eflags s" "running_thread t = running_thread s"
    "console_lock t = console_lock s" "kbd_queue t = cs"
    using key_irqs_after [OF assms(1-3), of bs] unfolding assms(4) by blast
  have "length (kbd_queue t) \<le> 63" unfolding t(6) by (simp add: assms(4))
  from k_thread_echo [OF t(2) this, of arg] show ?thesis using t unfolding t(6) k_thread_a_def k_thread_b_def Let_def by auto
qed

theorem typed_keys_echoed_witness:
  "\<forall>s :: kkbd. \<exists>t u. key_irqs [0x2a, 0x23, 0xaa, 0x17] ((empty_ioq (s\<lparr>eflags := 0x202, idt_table := replicate 0x81 Intr_keyboard_handler,
       lk_repeat := \<lambda>_. 0, sem_value := \<lambda>_. 1\<rparr>))\<lparr>ctrl_status := False, shift_status := False, alt_status := False,
        caps_lock_status := False, ext_scancode := False\<rparr>) = Return () t \<and> k_thread_a 63 ''argA'' t = Return () u \<and>
     scr u = put_char 0x69 (put_str ''argA'' (put_char 0x48 (put_str ''argA'' (scr t)))) \<and> eflags u = 0x202"
proof
  fix s :: kkbd
  let ?s = "(empty_ioq (s\<lparr>eflags := 0x202, idt_table := replicate 0x81 Intr_keyboard_handler,
       lk_repeat := \<lambda>_. 0, sem_value := \<lambda>_. 1\<rparr>))\<lparr>ctrl_status := False, shift_status := False, alt_status := False,
        caps_lock_status := False, ext_scancode := False\<rparr>"
  let ?m = "\<lparr>m_ctrl = False, m_shift = False, m_alt = False, m_caps = False\<rparr>" and ?bs = "[0x2a, 0x23, 0xaa, 0x17]"
  have ok: "echo_ready ?s" "length (idt_table ?s) = 0x81" "idt_table ?s ! 0x21 = Intr_keyboard_handler" "eflags ?s = 0x202"
    by (simp_all add: echo_ready_def kbd_idle_def lock_avail_def empty_ioq_def ring_ok_def)
  have m: "mods_of ?s = ?m" "kbd_queue ?s = []" "ext_scancode ?s = False"
    by (simp_all add: mods_of_def) (simp add: empty_ioq_def queue_of_def ring_length_def)
  have "typed ?m (strokes False ?bs) = [0x48, 0x69]" by code_simp
  then have cs: "[0x48, 0x69] = take 63 (kbd_queue ?s @ typed (mods_of ?s) (strokes (ext_scancode ?s) ?bs))" unfolding m by simp
  from typed_keys_echoed [OF ok(1-3) cs, of "''argA''"] show "\<exists>t u. key_irqs ?bs ?s = Return () t \<and> k_thread_a 63 ''argA'' t = Return () u \<and>
     scr u = put_char 0x69 (put_str ''argA'' (put_char 0x48 (put_str ''argA'' (scr t)))) \<and> eflags u = 0x202"
    unfolding ok(4) by auto
qed

text \<open>C9. \<open>process_execute\<close> returns and adds a process at the end of both lists of threads, keeping the invariants of the scheduler
  and the page allocator.  The new process has a page directory and a bitmap of addresses of its own, and a frame that leads to
  \<open>start_process\<close> of the program.  Consider any later state of the same memory in which the process runs
  and descriptors 5 and 6 are those of user code and user data (\<open>user_segments\<close>, which \<open>tss_init\<close> establishes).  \<open>process_activate\<close>,
  which \<open>schedule\<close> does not call, loads its directory.  \<open>start_process\<close> then enters the program in user mode, with a mapped
  stack page, and with the addresses of the kernel mapped as before, if the program starts within the user code segment;
  otherwise \<open>iret\<close> raises the exception 13.  With the descriptors that \<open>tss_init\<close> makes, the latter holds for every
  program above 0xfffff.\<close>

theorem process_execute_runs:
  fixes s :: "'a ktss_scheme"
  assumes "threads_inv s ps as" and "heap_ok s" and "heap_used s k" and "k + 25 \<le> bitmap_bits (kvb s)" and "51 \<le> kfree s" and "26 \<le> ufree s"
    and "lock_avail s (pid_lock s)" and "lock_avail s (console_lock s)" and "pid_lock s \<noteq> console_lock s" and "length nm \<le> 16"
    and "p = kpage s k" and "page_fresh s ps as p" and "main_thread s \<noteq> p"
  shows "\<exists>t. process_execute kt sp prog nm s = Return () t \<and> threads_inv t (ps @ [p]) (as @ [p]) \<and> heap_ok t \<and> eflags t = eflags s \<and>
    tasks t p = process_task p nm (next_pid s + 1) (kpage s (k + 1)) (kpage s (k + 24)) \<and>
    (let f = tstacks t (self_kstack (tasks t p)) in ts_eip f = kt \<and> ts_function f = sp \<and> ts_func_arg f = prog) \<and>
    (\<forall>u :: 'a ktss_scheme. same_mem t u \<and> tasks u p = tasks t p \<and> running_thread u = p \<and> lock_avail u (pool_lock (user_pool u)) \<and>
      user_segments u \<longrightarrow>
      (\<exists>v. process_activate p u = Inr v \<and> gdt v = gdt u \<and>
        (prog \<le> desc_top (gdt u 5) \<longrightarrow> (\<exists>r w pa. start_process prog v = Return r w \<and> in_user prog v r w pa \<and>
          (\<forall>va. 768 \<le> pdi va \<and> pdi va < 1023 \<longrightarrow> mapped w va = mapped u va))) \<and>
        (desc_top (gdt u 5) < prog \<longrightarrow> start_process prog v = Stop (Trap 13)) \<and>
        (gdt u 5 = gdt (tss_init a z) 5 \<and> 0xfffff < prog \<longrightarrow> start_process prog v = Stop (Trap 13))))"
proof -
  let ?dir = "kpage s (k + 24)" and ?bm = "kpage s (k + 1)"
  have mem: "50 \<le> kfree s" using assms(5) by simp
  obtain t pa where t: "process_execute kt sp prog nm s = Return () t" "threads_inv t (ps @ [p]) (as @ [p])" "heap_ok t"
    "kfree s \<le> kfree t + 50" "mapped t ?dir = Some pa" "user_dir t pa" "unused_pages t [pa]" "\<not> avail t pa"
    "tasks t = (tasks s)(p := process_task p nm (next_pid s + 1) ?bm ?dir)"
    "tstacks t = (tstacks s)(new_stack p := thread_frame kt sp prog (tstacks s (new_stack p)))" "eflags t = eflags s"
    "kvb t = kvb s" "kpage t = kpage s" "ufree s \<le> ufree t + 25"
    unfolding assms(11)
    by (rule process_execute_ok [OF assms(1-4) mem assms(7-10) assms(12,13) [unfolded assms(11)]])
  have nn: "kpage s i \<noteq> NULL" if "i < bitmap_bits (kvb s)" for i
    by (rule kpage_props(3) [OF _ that]) (use assms(2) in \<open>simp add: heap_ok_def\<close>)
  have runs: "\<exists>v r w pa'. process_activate p u = Inr v \<and>
      start_process prog v = (if desc_top (gdt u 5) < prog then Stop (Trap 13) else Return r w) \<and> in_user prog v r w pa' \<and>
      gdt v = gdt u \<and> (\<forall>va. 768 \<le> pdi va \<and> pdi va < 1023 \<longrightarrow> mapped w va = mapped u va)"
    if u: "same_mem t u" "tasks u p = tasks t p" "running_thread u = p" "lock_avail u (pool_lock (user_pool u))" "user_segments u"
    for u :: "'a ktss_scheme"
  proof (rule process_runs)
    note h = same_mem_heap [OF u(1)]
    have hu: "heap_ok u" using t(3) h by simp
    then show "mm_inv u" by (simp add: heap_ok_def)
    show "user_dir u pa" "unused_pages u [pa]" "\<not> avail u pa"
      using t(6-8) u(1) by (simp_all add: user_dir_def unused_pages_def table_at_def table_frame_def same_mem_def avail_def)
    show "mapped u ?dir = Some pa" using t(5) h by simp
    show "tasks u p = process_task p nm (next_pid s + 1) ?bm ?dir" using u(2) t(9) by simp
    show "running_thread u = p" "lock_avail u (pool_lock (user_pool u))" "user_segments u" by fact+
    show "p \<noteq> NULL" "?dir \<noteq> NULL" unfolding assms(11) by (rule nn; use assms(4) in simp)+
    have ku: "kpage u = kpage s" "kvb u = kvb s" using h t(12,13) by simp_all
    show "bitmap_apart (vaddr_bitmap (user_vaddr ?bm)) (pool_bitmap (kernel_pool u))"
      "bitmap_apart (vaddr_bitmap (user_vaddr ?bm)) (pool_bitmap (user_pool u))"
      unfolding ku(1) [symmetric] by (rule user_bitmap_apart [OF hu]; use assms(4) ku in simp)+
    show "kfree u \<noteq> 0" "ufree u \<noteq> 0" using assms(5,6) t(4,14) unfolding h by linarith+
  qed
  have enter: "\<exists>v. process_activate p u = Inr v \<and> gdt v = gdt u \<and>
        (prog \<le> desc_top (gdt u 5) \<longrightarrow> (\<exists>r w pa. start_process prog v = Return r w \<and> in_user prog v r w pa \<and>
          (\<forall>va. 768 \<le> pdi va \<and> pdi va < 1023 \<longrightarrow> mapped w va = mapped u va))) \<and>
        (desc_top (gdt u 5) < prog \<longrightarrow> start_process prog v = Stop (Trap 13)) \<and>
        (gdt u 5 = gdt (tss_init a z) 5 \<and> 0xfffff < prog \<longrightarrow> start_process prog v = Stop (Trap 13))"
    if "same_mem t u \<and> tasks u p = tasks t p \<and> running_thread u = p \<and> lock_avail u (pool_lock (user_pool u)) \<and> user_segments u"
    for u :: "'a ktss_scheme"
    using runs [of u] that tss_init_code_top [of a z] by (fastforce simp: not_less)
  show ?thesis
  proof (rule exI [of _ t], intro conjI allI impI)
    show "tasks t p = process_task p nm (next_pid s + 1) ?bm ?dir" by (simp add: t(9))
    show "let f = tstacks t (self_kstack (tasks t p)) in ts_eip f = kt \<and> ts_function f = sp \<and> ts_func_arg f = prog"
      by (simp add: t(9,10) process_task_def thread_frame_def)
  qed (fact t(1-3,11) | rule enter, assumption)+
qed

theorem process_execute_runs_witness:
  "\<forall>s :: ktss. \<forall>l. \<exists>t u v v' r w. init_all l (sample_boot s) = Return () t \<and>
     process_execute 0xc0001500 0xc0001600 0x8048000 ''user_prog'' t = Return () u \<and> threads_inv u [0xc0100000] [main_page, 0xc0100000] \<and>
     process_activate 0xc0100000 (small_segments (u\<lparr>esp := 0xc0100e64, lk_repeat := \<lambda>_. 0, sem_value := \<lambda>_. 1\<rparr>)) = Inr v \<and>
     start_process 0x8048000 v = Stop (Trap 13) \<and>
     process_activate 0xc0100000 (full_segments (u\<lparr>esp := 0xc0100e64, lk_repeat := \<lambda>_. 0, sem_value := \<lambda>_. 1\<rparr>)) = Inr v' \<and>
     start_process 0x8048000 v' = Return r w \<and> rg_eip r = 0x8048000 \<and> rg_cs r AND 3 = 3 \<and> mapped w 0xbfffffc \<noteq> None"
proof (intro allI)
  fix s :: ktss and l
  let ?p = "0xc0100000 :: addr"
  obtain t where t: "init_all l (sample_boot s) = Return () t" "kernel_ok t [] 0" "bitmap_bits (kvb t) = 8 * (free_pages 0x2000000 div 16)"
    "kfree t = 8 * (free_pages 0x2000000 div 16)" "ufree t = 8 * ((free_pages 0x2000000 - free_pages 0x2000000 div 2) div 8)"
    by (rule init_all_ok [OF sample_boot_ok])
  have k: "threads_inv t [] [main_page]" "heap_ok t" "heap_used t 0" "lock_avail t (pid_lock t)" "lock_avail t (console_lock t)"
    "pid_lock t \<noteq> console_lock t" "?p = kpage t 0" "main_thread t \<noteq> ?p"
    using t(2) lock_free_avail [of t "console_lock t"] by (simp_all add: kernel_ok_def)
  have m: "0 + 25 \<le> bitmap_bits (kvb t)" "51 \<le> kfree t" "26 \<le> ufree t" unfolding t(3-5) sample_boot_pages by simp_all
  have fr: "page_fresh t [] [main_page] ?p" using kernel_page_fresh [OF t(2)] k(7) by simp
  have nm: "length ''user_prog'' \<le> 16" by simp
  obtain u where u: "process_execute 0xc0001500 0xc0001600 0x8048000 ''user_prog'' t = Return () u" "threads_inv u ([] @ [?p]) ([main_page] @ [?p])"
    and run: "\<forall>u'. same_mem u u' \<and> tasks u' ?p = tasks u ?p \<and> running_thread u' = ?p \<and> lock_avail u' (pool_lock (user_pool u')) \<and>
      user_segments u' \<longrightarrow>
      (\<exists>v. process_activate ?p u' = Inr v \<and> gdt v = gdt u' \<and>
        (0x8048000 \<le> desc_top (gdt u' 5) \<longrightarrow> (\<exists>r w pa. start_process 0x8048000 v = Return r w \<and> in_user 0x8048000 v r w pa \<and>
          (\<forall>va. 768 \<le> pdi va \<and> pdi va < 1023 \<longrightarrow> mapped w va = mapped u' va))) \<and>
        (desc_top (gdt u' 5) < 0x8048000 \<longrightarrow> start_process 0x8048000 v = Stop (Trap 13)) \<and>
        (gdt u' 5 = gdt (tss_init 0 t) 5 \<and> 0xfffff < (0x8048000 :: u32) \<longrightarrow> start_process 0x8048000 v = Stop (Trap 13)))"
    using process_execute_runs [OF k(1-3) m k(4-6) nm k(7) fr k(8), of "0xc0001500" "0xc0001600" "0x8048000" 0 t]
    by (elim exE conjE) (rule that)
  note enter = run [rule_format]
  define u' where "u' = u\<lparr>esp := 0xc0100e64, lk_repeat := \<lambda>_. 0, sem_value := \<lambda>_. 1\<rparr>"
  have later: "same_mem u x \<and> tasks x ?p = tasks u ?p \<and> running_thread x = ?p \<and> lock_avail x (pool_lock (user_pool x))"
    if "x = small_segments u' \<or> x = full_segments u'" for x
    using that by (auto simp: u'_def small_segments_def full_segments_def same_mem_def running_thread_def lock_avail_def)
  have small: "desc_top (gdt (small_segments u') 5) < 0x8048000"
    using full_segments_desc(5) [of u'] tss_init_code_top [of 0 u'] by simp
  obtain v where v: "process_activate ?p (small_segments u') = Inr v" "start_process 0x8048000 v = Stop (Trap 13)"
    using enter [of "small_segments u'"] later [of "small_segments u'"] full_segments_desc(4) [of u'] small by blast
  have full: "0x8048000 \<le> desc_top (gdt (full_segments u') 5)" unfolding full_segments_desc(2) by (simp add: word_le_nat_alt)
  obtain v' r w pa where w: "process_activate ?p (full_segments u') = Inr v'" "start_process 0x8048000 v' = Return r w"
    "in_user 0x8048000 v' r w pa"
    using enter [of "full_segments u'"] later [of "full_segments u'"] full_segments_desc(1) [of u'] full by blast
  then have "rg_eip r = 0x8048000" "rg_cs r AND 3 = 3" "mapped w 0xbfffffc \<noteq> None" by (simp_all add: in_user_def)
  then show "\<exists>t u v v' r w. init_all l (sample_boot s) = Return () t \<and>
     process_execute 0xc0001500 0xc0001600 0x8048000 ''user_prog'' t = Return () u \<and> threads_inv u [?p] [main_page, ?p] \<and>
     process_activate ?p (small_segments (u\<lparr>esp := 0xc0100e64, lk_repeat := \<lambda>_. 0, sem_value := \<lambda>_. 1\<rparr>)) = Inr v \<and>
     start_process 0x8048000 v = Stop (Trap 13) \<and>
     process_activate ?p (full_segments (u\<lparr>esp := 0xc0100e64, lk_repeat := \<lambda>_. 0, sem_value := \<lambda>_. 1\<rparr>)) = Inr v' \<and>
     start_process 0x8048000 v' = Return r w \<and> rg_eip r = 0x8048000 \<and> rg_cs r AND 3 = 3 \<and> mapped w 0xbfffffc \<noteq> None"
    using t(1) u v w(1,2) unfolding u'_def by auto
qed

end
