(* ===== verification/Concurrency.thy ===== *)
theory Concurrency
  imports System
begin

text \<open>
  The kernel as a concurrent system.  A configuration has the running thread, what it is doing, and for every thread that was
  switched out the rest of its work.  The steps of the system are interrupts of keyboard and timer, passes through the loops
  of the threads of \<open>src/kernel/main.c\<close>, and the completion of \<open>switch_to\<close>; interrupts come only when the flag allows them.

  The invariant \<open>config_ok\<close> is preserved by every step.  It implies that no assertion of the kernel fails, however the
  interrupts fall, and that only threads which print can end up waiting, for the lock of the console.
\<close>

section \<open>Model\<close>

record 's config =
  cur :: addr
  now :: "('s, unit) run"
  saved :: "addr \<Rightarrow> 's \<Rightarrow> ('s, unit) run"

inductive sys_step :: "(addr \<Rightarrow> string option) \<Rightarrow> 'a kkbd_scheme config \<Rightarrow> 'a kkbd_scheme config \<Rightarrow> bool" for prog where
  key: "now c = Return () s \<Longrightarrow> intr_get_status s = INTR_ON \<Longrightarrow> sys_step prog c (c\<lparr>now := intr_entry 0x21 b 0 s\<rparr>)"
| tick: "now c = Return () s \<Longrightarrow> intr_get_status s = INTR_ON \<Longrightarrow> sys_step prog c (c\<lparr>now := intr_entry 0x20 0 0 s\<rparr>)"
| pass: "now c = Return () s \<Longrightarrow> prog (cur c) = Some para \<Longrightarrow> sys_step prog c (c\<lparr>now := k_thread_pass para s\<rparr>)"
| switch: "now c = Switch s k \<Longrightarrow> sv = (saved c)(cur c := k) \<Longrightarrow> p = running_thread s \<Longrightarrow>
    sys_step prog c \<lparr>cur = p, now = sv p s, saved = sv\<rparr>"

text \<open>The system when \<open>main\<close> enters its loop: threads that have not run yet go to \<open>kernel_thread\<close>.\<close>

definition initial :: "addr \<Rightarrow> 'a kkbd_scheme \<Rightarrow> 'a kkbd_scheme config" where
  "initial p s = \<lparr>cur = p, now = Return () s, saved = (\<lambda>_. kernel_thread (Return ()))\<rparr>"

section \<open>The invariant\<close>

text \<open>At the head of its loop thread \<open>p\<close> has the stack pointer \<open>L p\<close>, with room for an interrupt and a switch below it.\<close>

definition loop_base :: "(addr \<Rightarrow> u32) \<Rightarrow> addr \<Rightarrow> bool" where
  "loop_base L p \<longleftrightarrow> (\<forall>d \<in> {0, 8, 16, 72, 80, 88}. frame (L p - d) = p)"

text \<open>Switched to from its saved stack pointer, thread \<open>p\<close> gets back to its loop with interrupts on.\<close>

definition resumes :: "(addr \<Rightarrow> u32) \<Rightarrow> (addr \<Rightarrow> 'a kkbd_scheme \<Rightarrow> ('a kkbd_scheme, unit) run) \<Rightarrow> 'a kkbd_scheme \<Rightarrow> addr \<Rightarrow> bool" where
  "resumes L sv s p \<longleftrightarrow> (\<forall>t. esp t = self_kstack (tasks s p) + 20 \<longrightarrow> (\<exists>x. bit x 9 \<and> sv p t = Return () (t\<lparr>esp := L p, eflags := x\<rparr>)))"

text \<open>Threads \<open>ps\<close> are ready and threads \<open>ws\<close> wait for the console; with the running thread they are the threads \<open>T\<close>.\<close>

definition threads_ok where
  "threads_ok T prog L sv s ps ws \<longleftrightarrow> sema_inv s (lock_sema (console_lock s)) ps ws \<and>
     insert (running_thread s) (set ps \<union> set ws) = T \<and> (\<forall>w \<in> set ws. prog w \<noteq> None) \<and> (\<forall>q \<in> set ps. resumes L sv s q) \<and>
     (\<forall>q \<in> T. stack_magic (tasks s q) = 0x19851122)"

definition devices_ok :: "'a kkbd_scheme \<Rightarrow> bool" where
  "devices_ok s \<longleftrightarrow> kbd_idle s \<and> length (idt_table s) = 0x81 \<and> idt_table s ! 0x20 = Intr_timer_handler \<and>
     idt_table s ! 0x21 = Intr_keyboard_handler"

text \<open>The console is free and nobody waits, or a thread that does not wait holds it: thread \<open>h\<close>, if \<open>own\<close> is \<open>Some h\<close>.\<close>

definition console_ok :: "addr set \<Rightarrow> addr option \<Rightarrow> 'a kcon_scheme \<Rightarrow> addr list \<Rightarrow> bool" where
  "console_ok T own s ws \<longleftrightarrow> lk_repeat s (console_lock s) = 0 \<and>
     (if sem_value s (lock_sema (console_lock s)) = 0
      then lk_holder s (console_lock s) \<in> T - set ws \<and> own \<in> {None, Some (lk_holder s (console_lock s))}
      else sem_value s (lock_sema (console_lock s)) = 1 \<and> ws = [] \<and> lk_holder s (console_lock s) \<notin> T \<and> own = None)"

definition sys_ok where
  "sys_ok T own prog L sv s ps ws \<longleftrightarrow> threads_ok T prog L sv s ps ws \<and> devices_ok s \<and> console_ok T own s ws"

definition config_ok where
  "config_ok T own prog L c \<longleftrightarrow>
     (case now c of
        Return u s \<Rightarrow> running_thread s = cur c \<and> esp s = L (cur c) \<and> intr_get_status s = INTR_ON \<and>
          (\<exists>ps ws. sys_ok T own prog L (saved c) s ps ws)
      | Stop e \<Rightarrow> False
      | Switch s k \<Rightarrow>
          (let sv = (saved c)(cur c := k); p = running_thread s in
           esp s = self_kstack (tasks s p) + 20 \<and> resumes L sv s p \<and> running_thread (schedule_back s) = p \<and>
           (\<exists>ps ws. sys_ok T own prog L sv (schedule_back s) ps ws)))"

lemma sema_inv_cong:
  assumes "sema_inv s psema ps ws" and "lnext t = lnext s" and "lprev t = lprev s" and "thread_ready_list t = thread_ready_list s"
    and "running_thread t = running_thread s" and "stack_ok t (running_thread s)"
    and "\<And>q. status (tasks t q) = status (tasks s q)" and "\<And>q. self_kstack (tasks t q) = self_kstack (tasks s q)"
  shows "sema_inv t psema ps ws"
proof -
  have "list_at t = list_at s" by (intro ext) (simp add: list_at_def assms(2,3))
  then show ?thesis
    using assms unfolding sema_inv_def sched_inv_def
    by (simp add: ready_queue_def saved_ok_def tag_apart_def waiting_def lists_apart_def tags_apart_def Let_def)
qed

lemma threads_ok_cong:
  fixes s t :: "'a kkbd_scheme"
  assumes "threads_ok T prog L sv s ps ws" and "lnext t = lnext s" and "lprev t = lprev s" and "thread_ready_list t = thread_ready_list s"
    and "running_thread t = running_thread s" and "stack_ok t (running_thread s)" and "console_lock t = console_lock s"
    and "\<And>q. status (tasks t q) = status (tasks s q)" and "\<And>q. self_kstack (tasks t q) = self_kstack (tasks s q)"
    and "\<And>q. stack_magic (tasks t q) = stack_magic (tasks s q)"
  shows "threads_ok T prog L sv t ps ws"
  using assms sema_inv_cong [of s "lock_sema (console_lock s)" ps ws t] by (simp add: threads_ok_def resumes_def)

lemma threads_ok_parts:
  assumes "threads_ok T prog L sv s ps ws"
  shows "sched_inv s ps" and "waiting s (lock_sema (console_lock s)) ws" and "distinct (running_thread s # ps @ ws)"
    and "set (running_thread s # ps @ ws) = T" and "prog p = None \<Longrightarrow> p \<notin> set ws"
proof -
  have inv: "sema_inv s (lock_sema (console_lock s)) ps ws" using assms by (simp add: threads_ok_def)
  then show sc: "sched_inv s ps" and w: "waiting s (lock_sema (console_lock s)) ws" by (simp_all add: sema_inv_def)
  have "distinct (map general_tag ws)"
    using kq.at_distinct [of s "sema_waiters (lock_sema (console_lock s))" "map general_tag ws"] w by (simp add: waiting_def list_nodes_def)
  then have "distinct ws" by (simp add: distinct_map)
  moreover have "distinct ps" by (rule ready_queue_distinct(1) [of s]) (use sc in \<open>simp add: sched_inv_def\<close>)
  ultimately show "distinct (running_thread s # ps @ ws)"
    using sema_inv_distinct [OF inv] sc by (simp add: sched_inv_def Let_def)
  show "set (running_thread s # ps @ ws) = T" "prog p = None \<Longrightarrow> p \<notin> set ws" using assms by (auto simp: threads_ok_def)
qed

lemma loop_base_stack:
  fixes s :: "'a kstate_scheme"
  assumes "loop_base L p" and "esp s = L p"
  shows "running_thread s = p" and "stack_ok s p" and "irq_room s"
  using assms by (simp_all add: loop_base_def stack_ok_def irq_room_def running_thread_frame)

lemma sys_ok_stack: "sys_ok T own prog L sv s ps ws \<Longrightarrow> stack_ok s (running_thread s)"
  by (simp add: sys_ok_def threads_ok_def sema_inv_def sched_inv_def Let_def)

text \<open>Only the stack pointer and the flags change when a thread is back at its loop.\<close>

lemma sys_ok_resumed:
  fixes s :: "'a kkbd_scheme"
  assumes ok: "sys_ok T own prog L sv s ps ws" and L: "loop_base L (running_thread s)"
  shows "sys_ok T own prog L sv (s\<lparr>esp := L (running_thread s), eflags := x\<rparr>) ps ws"
proof -
  let ?t = "s\<lparr>esp := L (running_thread s), eflags := x\<rparr>"
  have st: "running_thread ?t = running_thread s" "stack_ok ?t (running_thread s)" by (rule loop_base_stack [OF L]; simp)+
  have "threads_ok T prog L sv ?t ps ws"
    by (rule threads_ok_cong [of T prog L sv s]) (use ok st in \<open>simp_all add: sys_ok_def\<close>)
  with ok show ?thesis by (simp add: sys_ok_def devices_ok_def console_ok_def kbd_idle_def cong: if_cong)
qed

lemma sys_ok_same:
  assumes ok: "sys_ok T own prog L sv s ps ws" and same: "same_threads s t" and kbd: "kbd_idle t"
  shows "sys_ok T own prog L sv t ps ws"
proof -
  have "threads_ok T prog L sv t ps ws"
    by (rule threads_ok_cong [of T prog L sv s])
      (use ok same sys_ok_stack [OF ok] in \<open>auto simp: sys_ok_def same_threads_def running_thread_def stack_ok_def\<close>)
  with ok same kbd show ?thesis by (simp add: sys_ok_def devices_ok_def console_ok_def same_threads_def cong: if_cong)
qed

section \<open>Keyboard\<close>

lemma step_key:
  assumes ok: "config_ok T own prog L c" and now: "now c = Return () s"
  shows "config_ok T own prog L (c\<lparr>now := intr_entry 0x21 b 0 s\<rparr>)"
proof -
  have c: "running_thread s = cur c" "esp s = L (cur c)" "intr_get_status s = INTR_ON"
    using ok now by (simp_all add: config_ok_def)
  obtain ps ws where s: "sys_ok T own prog L (saved c) s ps ws" using ok now by (auto simp: config_ok_def)
  then have d: "kbd_idle s" "length (idt_table s) = 0x81" "idt_table s ! 0x21 = Intr_keyboard_handler"
    by (simp_all add: sys_ok_def devices_ok_def)
  obtain t where t: "intr_entry 0x21 b 0 s = Return () t" "kbd_idle t" "same_threads s t" "eflags t = eflags s"
    by (rule key_irq [OF d])
  have "running_thread t = cur c" using same_threads_avail(2) [OF t(3)] c by simp
  moreover have "esp t = L (cur c)" using t(3) c by (simp add: same_threads_def)
  moreover have "intr_get_status t = INTR_ON" using t(4) c by (simp add: intr_get_status_eq)
  ultimately show ?thesis using sys_ok_same [OF s t(3,2)] t(1) by (auto simp: config_ok_def)
qed

section \<open>The completion of a switch\<close>

lemma step_switch:
  assumes ok: "config_ok T own prog L c" and now: "now c = Switch s k" and T: "\<forall>p \<in> T. loop_base L p"
  defines "sv \<equiv> (saved c)(cur c := k)" and "p \<equiv> running_thread s"
  shows "config_ok T own prog L \<lparr>cur = p, now = sv p s, saved = sv\<rparr>"
proof -
  obtain ps ws where s: "sys_ok T own prog L sv (schedule_back s) ps ws" "running_thread (schedule_back s) = p"
    "esp s = self_kstack (tasks s p) + 20" "resumes L sv s p"
    using ok now by (auto simp: config_ok_def sv_def p_def Let_def)
  then have base: "loop_base L p" using T by (auto simp: sys_ok_def threads_ok_def)
  obtain x where x: "bit x 9" "sv p s = Return () (s\<lparr>esp := L p, eflags := x\<rparr>)" using s(3,4) by (auto simp: resumes_def)
  let ?t = "s\<lparr>esp := L p, eflags := x\<rparr>"
  have "sys_ok T own prog L sv ?t ps ws" using sys_ok_resumed [OF s(1), of x] base s(2) by (simp add: schedule_back_def)
  moreover have "running_thread ?t = p" using loop_base_stack(1) [OF base, of ?t] by simp
  moreover have "intr_get_status ?t = INTR_ON" using x(1) by (simp add: intr_get_status_eq)
  ultimately show ?thesis using x(2) by (auto simp: config_ok_def)
qed

section \<open>What a switch does\<close>

text \<open>The switch to thread \<open>q\<close> from thread \<open>p\<close> saves the stack pointer of \<open>p\<close> and takes that of \<open>q\<close>; the rest is as before.\<close>

definition switched :: "addr \<Rightarrow> addr \<Rightarrow> 'a kstate_scheme \<Rightarrow> 'a kstate_scheme \<Rightarrow> bool" where
  "switched p q s t \<longleftrightarrow> sched_step s t \<and> esp t = self_kstack (tasks t q) + 20 \<and> self_kstack (tasks t p) = esp s - 28 \<and>
     (\<forall>r. r \<noteq> p \<longrightarrow> self_kstack (tasks t r) = self_kstack (tasks s r)) \<and> (\<forall>r. stack_magic (tasks t r) = stack_magic (tasks s r))"

lemma schedule_pick_switched:
  assumes "schedule_pick p s = Inr t" and "ready_queue s (q # qs)"
  shows "switched p q s t"
proof -
  obtain s' where "schedule_pick p s = Inr s'" "ready_queue s' qs"
    "tasks s' = (let ts = (tasks s)(q := (tasks s q)\<lparr>status := TASK_RUNNING\<rparr>) in ts(p := (ts p)\<lparr>self_kstack := esp s - 28\<rparr>))"
    "esp s' = self_kstack (tasks s' q) + 20"
    unfolding Let_def by (rule schedule_pick_ready [OF assms(2)])
  then show ?thesis using assms(1) sched_step_pick [OF assms(1)] by (simp add: switched_def Let_def)
qed

lemma schedule_out_switched:
  assumes inv: "sema_inv s psema ps ws" and off: "intr_get_status s = INTR_OFF"
  defines "p \<equiv> running_thread s"
  defines "q \<equiv> hd (ps @ [p])"
  obtains t where "schedule_out s = Inr t" and "sema_inv (schedule_back t) psema (tl (ps @ [p])) ws" and "running_thread t = q"
    and "running_thread (schedule_back t) = q" and "switched p q s t"
proof -
  have sc: "sched_inv s ps" and w: "list_at s (sema_waiters psema) (map general_tag ws)" and la: "lists_apart s psema"
    and ta: "tags_apart s psema (insert p (set ps \<union> set ws))"
    and wt: "\<And>w. w \<in> set ws \<Longrightarrow> status (tasks s w) = TASK_BLOCKED \<and> saved_ok s w"
    using inv by (simp_all add: sema_inv_def waiting_def p_def)
  have p: "status (tasks s p) = TASK_RUNNING" "p \<notin> set ps" "tag_apart s p" "ready_queue s ps"
    using sc by (simp_all add: sched_inv_def Let_def p_def)
  have np: "p \<notin> set ws" "set ps \<inter> set ws = {}" using sema_inv_distinct [OF inv] by (simp_all add: p_def)
  obtain t where t: "schedule_out s = Inr t" "sched_inv (schedule_back t) (tl (ps @ [p]))" "running_thread t = q"
    "running_thread (schedule_back t) = q" "\<forall>r. r \<noteq> p \<and> r \<noteq> q \<longrightarrow> tasks t r = tasks s r"
    unfolding q_def p_def by (rule schedule_out_running [OF sc off])
  obtain u where u: "schedule_requeue s = Inr u" "ready_queue u (ps @ [p])"
    "tasks u = (tasks s)(p := (tasks s p)\<lparr>ticks := priority (tasks s p), status := TASK_READY\<rparr>)" "esp u = esp s"
    by (rule schedule_requeue_running [OF p(4,1) _ p(2,3)]) (simp_all add: p_def)
  have rq: "ready_queue u (q # tl (ps @ [p]))" using u(2) by (simp add: q_def)
  have pick: "schedule_pick p u = Inr t" using t(1) u(1) off by (simp add: schedule_out_def p_def)
  note su = sched_step_requeue [OF u(1)] and sw = schedule_pick_switched [OF pick rq]
  have "switched p q s t" using sw sched_step_trans [OF su] u(3,4) by (simp add: switched_def)
  moreover have "list_at t (sema_waiters psema) (map general_tag ws)"
  proof (rule schedule_pick_frame(1) [OF rq pick])
    have d: "set (list_nodes (sema_waiters psema) (map general_tag ws)) \<inter> set (list_nodes (thread_ready_list s) (map general_tag ps)) = {}"
      by (rule apart_nodes [OF la _ np(2)]) (use ta in \<open>simp add: tags_apart_def\<close>)
    have fresh: "general_tag p \<notin> set (list_nodes (sema_waiters psema) (map general_tag ws))"
      using ta np(1) by (auto simp: tags_apart_def list_nodes_def)
    have "list_at (list_append (thread_ready_list s) (general_tag p) s) (sema_waiters psema) (map general_tag ws)"
      by (rule list_at_frame_append [OF _ w d fresh]) (use p(4) in \<open>simp add: ready_queue_def\<close>)
    then show "list_at u (sema_waiters psema) (map general_tag ws)"
      using u(1) p(1) by (auto simp: schedule_requeue_def Let_def p_def [symmetric] split: if_splits)
    have "thread_ready_list u = thread_ready_list s" using su by (simp add: sched_step_def)
    then show "set (list_nodes (sema_waiters psema) (map general_tag ws)) \<inter> set (list_nodes (thread_ready_list u) (map general_tag (q # tl (ps @ [p])))) = {}"
      using d fresh by (auto simp: list_nodes_def q_def)
  qed
  moreover have "status (tasks t w) = TASK_BLOCKED \<and> saved_ok t w" if "w \<in> set ws" for w
  proof -
    have "q \<in> insert p (set ps)" by (cases ps) (simp_all add: q_def)
    then have "tasks t w = tasks s w" using t(5) that np by auto
    then show ?thesis using wt [OF that] by (simp add: saved_ok_def)
  qed
  moreover have "thread_ready_list t = thread_ready_list s" using sched_step_schedule [OF t(1)] by (simp add: sched_step_def)
  moreover have "insert q (set (tl (ps @ [p])) \<union> set ws) = insert p (set ps \<union> set ws)" by (cases ps) (auto simp: q_def)
  ultimately show thesis
    using t la ta by (intro that [of t]) (simp_all add: sema_inv_def waiting_def lists_apart_def tags_apart_def tag_apart_def saved_ok_def schedule_back_def)
qed

lemma sema_down_wait_switched:
  assumes inv: "sema_inv s psema (q # qs) ws" and wait: "sema_down_wait psema s = Inr (old, t)"
  shows "switched (running_thread s) q s t"
proof -
  let ?p = "running_thread s" and ?l = "sema_waiters psema"
  let ?a = "list_append ?l (general_tag ?p) s"
  let ?b = "upd_task ?p (\<lambda>t. t\<lparr>status := TASK_BLOCKED\<rparr>) (cli ?a)"
  have w: "list_at s ?l (map general_tag ws)" and rq: "list_at s (thread_ready_list s) (map general_tag (q # qs))"
    and la: "lists_apart s psema" and ta: "tags_apart s psema (insert ?p (set (q # qs) \<union> set ws))" and np: "?p \<notin> set (q # qs)"
    using inv by (simp_all add: sema_inv_def waiting_def sched_inv_def ready_queue_def Let_def)
  have "set (list_nodes ?l (map general_tag ws)) \<inter> set (list_nodes (thread_ready_list s) (map general_tag (q # qs))) = {}"
    by (rule apart_nodes [OF la _ sema_inv_distinct(2) [OF inv]]) (use ta in \<open>simp add: tags_apart_def\<close>)
  then have "list_at ?a (thread_ready_list s) (map general_tag (q # qs))"
    by (intro list_at_frame_append [OF w rq]) (use ta np in \<open>auto simp: tags_apart_def tag_apart_def list_nodes_def\<close>)
  then have ready: "ready_queue ?b (q # qs)" by (simp add: ready_queue_def cli_eq)
  have run: "running_thread ?a = ?p" by (simp add: running_thread_def)
  have "thread_block_out TASK_BLOCKED ?a = Inr (old, t)"
    using wait by (auto simp: sema_down_wait_def Let_def of_loop_def ASSERT_def split: option.splits sum.splits if_splits)
  then have "schedule_out ?b = Inr t" by (simp add: thread_block_out_def split_beta Let_def run split: sum.splits)
  moreover have "schedule_requeue ?b = Inr ?b" by (simp add: schedule_requeue_def Let_def run)
  ultimately have "schedule_pick ?p ?b = Inr t" by (simp add: schedule_out_def run ASSERT_def split: if_splits)
  from schedule_pick_switched [OF this ready] show ?thesis
    using sched_step_trans [of s ?b t] by (simp add: switched_def)
qed

text \<open>A thread that saved its loop is switched out: the system keeps its invariant.\<close>

lemma switched_fields:
  fixes s t :: "'a kkbd_scheme"
  assumes "switched p q s t"
  shows "devices_ok t = devices_ok s" and "console_ok T own t ws = console_ok T own s ws" and "console_lock t = console_lock s"
proof -
  have "sched_step s t" using assms by (simp add: switched_def)
  note f = sched_step_fields [OF this]
  note g = kkbd_more [OF f(16)]
  show "devices_ok t = devices_ok s" by (simp add: devices_ok_def kbd_idle_def f(12) g)
  show "console_ok T own t ws = console_ok T own s ws" by (simp add: console_ok_def f(1-3) g cong: if_cong)
  show "console_lock t = console_lock s" by (rule g(1))
qed

lemma config_ok_switched:
  fixes s t :: "'a kkbd_scheme"
  assumes sw: "switched p q s t" and run: "running_thread t = q" "running_thread (schedule_back t) = q" and c: "cur c = p"
    and inv: "sema_inv (schedule_back t) (lock_sema (console_lock s)) ps' ws'" and T: "insert q (set ps' \<union> set ws') = T"
    and old: "\<forall>r \<in> insert q (set ps') - {p}. resumes L (saved c) s r" and magic: "\<forall>r \<in> T. stack_magic (tasks s r) = 0x19851122"
    and ws: "\<forall>w \<in> set ws'. prog w \<noteq> None" and dev: "devices_ok s" "console_ok T own s ws'"
    and k: "p \<in> insert q (set ps') \<Longrightarrow> \<forall>x. esp x = esp s - 8 \<longrightarrow> (\<exists>f. bit f 9 \<and> k x = Return () (x\<lparr>esp := L p, eflags := f\<rparr>))"
  shows "config_ok T own prog L (c\<lparr>now := Switch t k\<rparr>)"
proof -
  let ?sv = "(saved c)(p := k)"
  have res: "resumes L ?sv t r" if "r \<in> insert q (set ps')" for r
  proof (cases "r = p")
    case True
    have "self_kstack (tasks t p) + 20 = esp s - 8" using sw by (simp add: switched_def)
    then show ?thesis using True k that by (simp add: resumes_def)
  next
    case False
    then show ?thesis using old that sw by (auto simp: resumes_def switched_def)
  qed
  have "threads_ok T prog L ?sv (schedule_back t) ps' ws'"
    using inv T run(2) ws res magic sw switched_fields(3) [OF sw]
    by (simp add: threads_ok_def resumes_def switched_def) (simp add: schedule_back_def)
  moreover have "devices_ok (schedule_back t)" "console_ok T own (schedule_back t) ws'"
    using dev switched_fields [OF sw] by (simp_all add: schedule_back_def devices_ok_def console_ok_def kbd_idle_def cong: if_cong)
  ultimately have "sys_ok T own prog L ?sv (schedule_back t) ps' ws'" by (simp add: sys_ok_def)
  then show ?thesis using res [of q] sw run c by (auto simp: config_ok_def switched_def Let_def)
qed

section \<open>Timer\<close>

lemma head_ok:
  assumes "config_ok T own prog L c" and "now c = Return () s" and T: "\<forall>p \<in> T. loop_base L p"
  obtains ps ws where "sys_ok T own prog L (saved c) s ps ws" and "running_thread s = cur c" and "esp s = L (cur c)"
    and "intr_get_status s = INTR_ON" and "cur c \<in> T" and "loop_base L (cur c)" and "irq_room s" and "stack_ok s (cur c)"
proof -
  obtain ps ws where s: "sys_ok T own prog L (saved c) s ps ws" "running_thread s = cur c" "esp s = L (cur c)" "intr_get_status s = INTR_ON"
    using assms(1,2) by (auto simp: config_ok_def)
  then have "cur c \<in> T" by (auto simp: sys_ok_def threads_ok_def)
  then show thesis using s T loop_base_stack [of L "cur c" s] by (intro that) simp_all
qed

lemma tick_charge:
  assumes ok: "sys_ok T own prog L sv s ps ws"
  shows "sys_ok T own prog L sv (ticked p n s) ps ws"
proof -
  have "threads_ok T prog L sv (ticked p n s) ps ws"
  proof (rule threads_ok_cong [of T prog L sv s])
    show "stack_ok (ticked p n s) (running_thread s)" using sys_ok_stack [OF ok] by (simp add: stack_ok_def)
  qed (use ok in \<open>simp_all add: sys_ok_def ticked_def charged_def upd_task_def running_thread_def\<close>)
  moreover have "lk_repeat (ticked p n s) = lk_repeat s" "sem_value (ticked p n s) = sem_value s" "lk_holder (ticked p n s) = lk_holder s"
    "console_lock (ticked p n s) = console_lock s" "kbd_buf (ticked p n s) = kbd_buf s" "ioqs (ticked p n s) = ioqs s" "wslot (ticked p n s) = wslot s"
    by (simp_all add: ticked_def charged_def upd_task_def)
  ultimately show ?thesis using ok by (simp add: sys_ok_def devices_ok_def console_ok_def kbd_idle_def cong: if_cong)
qed

text \<open>The tick that ends a time slice: the next thread of the round runs, the thread itself when it is the only one.\<close>

lemma step_tick_expired:
  assumes ok: "config_ok T own prog L c" and now: "now c = Return () s" and T: "\<forall>p \<in> T. loop_base L p"
    and z: "ticks (tasks s (cur c)) = 0"
  shows "config_ok T own prog L (c\<lparr>now := intr_entry 0x20 0 0 s\<rparr>)"
proof -
  let ?p = "cur c"
  obtain ps ws where s: "sys_ok T own prog L (saved c) s ps ws" "running_thread s = ?p" "esp s = L ?p" "intr_get_status s = INTR_ON" "?p \<in> T"
    "loop_base L ?p" "irq_room s" "stack_ok s ?p"
    by (rule head_ok [OF ok now T])
  have idt: "length (idt_table s) = 0x81" "idt_table s ! 0x20 = Intr_timer_handler" and magic: "stack_magic (tasks s ?p) = 0x19851122"
    and inv: "sema_inv s (lock_sema (console_lock s)) ps ws" and all: "insert ?p (set ps \<union> set ws) = T"
    using s(1,2,5) by (auto simp: sys_ok_def devices_ok_def threads_ok_def)
  let ?e = "entered s"
  define v where "v = (upd_task ?p (\<lambda>t. t\<lparr>elapsed_ticks := elapsed_ticks t + 1\<rparr>) ?e)\<lparr>total_ticks := total_ticks ?e + 1\<rparr>"
  have pe: "stack_magic (tasks ?e ?p) = 0x19851122" "ticks (tasks ?e ?p) = 0" "?p = running_thread ?e"
    using magic z entered_thread(1) [OF s(7)] s(2) by simp_all
  note ex = timer_handler_expired [OF pe, folded v_def]
  have fv: "lnext v = lnext s" "lprev v = lprev s" "thread_ready_list v = thread_ready_list s" "console_lock v = console_lock s"
    "esp v = L ?p - 72" "devices_ok v = devices_ok s" "console_ok T own v ws = console_ok T own s ws"
    using s(3) by (simp_all add: v_def upd_task_def entered_def devices_ok_def console_ok_def kbd_idle_def cong: if_cong)
  have tv: "status (tasks v r) = status (tasks s r)" "self_kstack (tasks v r) = self_kstack (tasks s r)" "stack_magic (tasks v r) = stack_magic (tasks s r)" for r
    by (simp_all add: v_def)
  have "stack_ok v ?p" using s(3,6) by (simp add: stack_ok_def fv(5) loop_base_def)
  then have inv_v: "sema_inv v (lock_sema (console_lock s)) ps ws"
    by (intro sema_inv_cong [OF inv]) (use ex(3) s(2) in \<open>simp_all add: fv tv\<close>)
  have off: "intr_get_status v = INTR_OFF" using ex(4) by simp
  obtain t where t: "schedule_out v = Inr t" "sema_inv (schedule_back t) (lock_sema (console_lock s)) (tl (ps @ [?p])) ws"
    "running_thread t = hd (ps @ [?p])" "running_thread (schedule_back t) = hd (ps @ [?p])" "switched ?p (hd (ps @ [?p])) v t"
    using schedule_out_switched [OF inv_v off] unfolding ex(3) by metis
  let ?k = "\<lambda>x. Return () (left (eflags s) (schedule_back x))"
  have "intr_entry 0x20 0 0 s = Switch t ?k" by (simp add: intr_entry_timer [OF idt] ex(1) schedule_def t(1))
  moreover have "config_ok T own prog L (c\<lparr>now := Switch t ?k\<rparr>)"
  proof (rule config_ok_switched [OF t(5,3,4) refl])
    show "sema_inv (schedule_back t) (lock_sema (console_lock v)) (tl (ps @ [?p])) ws" unfolding fv(4) by (rule t(2))
    show "insert (hd (ps @ [?p])) (set (tl (ps @ [?p])) \<union> set ws) = T" using all by (cases ps) auto
    have "insert (hd (ps @ [?p])) (set (tl (ps @ [?p]))) = insert ?p (set ps)" by (cases ps) auto
    then show "\<forall>r \<in> insert (hd (ps @ [?p])) (set (tl (ps @ [?p]))) - {?p}. resumes L (saved c) v r"
      using s(1) by (auto simp: sys_ok_def threads_ok_def resumes_def tv)
    show "\<forall>r \<in> T. stack_magic (tasks v r) = 0x19851122" "\<forall>w \<in> set ws. prog w \<noteq> None" "devices_ok v" "console_ok T own v ws"
      using s(1) by (simp_all add: sys_ok_def threads_ok_def tv fv(6,7))
    have "bit (eflags s) 9" using s(4) by (simp add: intr_get_status_eq split: if_splits)
    then show "\<forall>x. esp x = esp v - 8 \<longrightarrow> (\<exists>f. bit f 9 \<and> Return () (left (eflags s) (schedule_back x)) = Return () (x\<lparr>esp := L ?p, eflags := f\<rparr>))"
      by (auto simp: fv(5) schedule_back_def)
  qed
  ultimately show ?thesis by simp
qed

lemma step_tick:
  assumes ok: "config_ok T own prog L c" and now: "now c = Return () s" and T: "\<forall>p \<in> T. loop_base L p"
  shows "config_ok T own prog L (c\<lparr>now := intr_entry 0x20 0 0 s\<rparr>)"
proof (cases "ticks (tasks s (cur c)) = 0")
  case True
  then show ?thesis by (rule step_tick_expired [OF ok now T])
next
  case False
  let ?p = "cur c"
  obtain ps ws where s: "sys_ok T own prog L (saved c) s ps ws" "running_thread s = ?p" "esp s = L ?p" "intr_get_status s = INTR_ON" "?p \<in> T" "irq_room s"
    by (rule head_ok [OF ok now T])
  have idt: "length (idt_table s) = 0x81" "idt_table s ! 0x20 = Intr_timer_handler" and magic: "stack_magic (tasks s ?p) = 0x19851122"
    using s(1,5) by (simp_all add: sys_ok_def devices_ok_def threads_ok_def)
  have "intr_entry 0x20 0 0 s = Return () (ticked ?p 1 s)"
    by (rule timer_entry_tick [OF idt magic False]) (simp_all add: s)
  moreover have "intr_get_status (ticked ?p 1 s) = INTR_ON" using s(4) by (simp add: intr_get_status_eq ticked_def charged_def upd_task_def)
  ultimately show ?thesis using tick_charge [OF s(1), of ?p 1] s(2,3) by (auto simp: config_ok_def)
qed

section \<open>The loops of the threads\<close>

lemma echoed_fields:
  fixes s :: "'a kkbd_scheme"
  shows "lnext (echoed para b s) = lnext s" "lprev (echoed para b s) = lprev s" "thread_ready_list (echoed para b s) = thread_ready_list s"
    "running_thread (echoed para b s) = running_thread s" "console_lock (echoed para b s) = console_lock s" "tasks (echoed para b s) = tasks s"
    "esp (echoed para b s) = esp s" "eflags (echoed para b s) = eflags s" "idt_table (echoed para b s) = idt_table s"
    "lk_holder (echoed para b s) (console_lock s) = running_thread s" "lk_repeat (echoed para b s) (console_lock s) = 0"
    "lk_holder s (console_lock s) \<noteq> running_thread s \<or> sem_value s (lock_sema (console_lock s)) = 0 \<Longrightarrow> sem_value (echoed para b s) (lock_sema (console_lock s)) = 0"
  by (auto simp: echoed_def upd_ioq_def printed_def lock_held_def running_thread_def)

text \<open>The thread prints and keeps the console.\<close>

lemma sys_ok_echoed:
  assumes ok: "sys_ok T own prog L sv s ps ws" and av: "lock_avail s (console_lock s)" and q: "kbd_queue s = b # bs"
  shows "k_thread_pass para s = Return () (echoed para b s)" and "sys_ok T own prog L sv (echoed para b s) ps ws"
proof -
  have s: "echo_ready s" "console_ok T own s ws" "running_thread s \<in> T" "running_thread s \<notin> set ws"
    using ok av sema_inv_distinct(1) by (auto simp: sys_ok_def devices_ok_def echo_ready_def threads_ok_def)
  note e = k_thread_pass_echo [OF s(1) q, of para]
  show "k_thread_pass para s = Return () (echoed para b s)" by (rule e(1))
  have th: "threads_ok T prog L sv (echoed para b s) ps ws"
  proof (rule threads_ok_cong [of T prog L sv s])
    show "stack_ok (echoed para b s) (running_thread s)" using sys_ok_stack [OF ok] by (simp add: stack_ok_def echoed_fields)
  qed (use ok in \<open>simp_all add: sys_ok_def echoed_fields\<close>)
  have "lk_holder s (console_lock s) \<noteq> running_thread s \<or> sem_value s (lock_sema (console_lock s)) = 0"
    using s(2,3) by (auto simp: console_ok_def split: if_splits)
  moreover have "own \<in> {None, Some (running_thread s)}" using s(2) av by (auto simp: console_ok_def lock_avail_def split: if_splits)
  ultimately have con: "console_ok T own (echoed para b s) ws" using s(3,4) by (simp add: console_ok_def echoed_fields)
  show "sys_ok T own prog L sv (echoed para b s) ps ws"
    using ok e(2) con th by (simp add: sys_ok_def devices_ok_def echo_ready_def echoed_fields)
qed

text \<open>The console is taken: the thread waits, and the next ready thread runs.\<close>

lemma k_thread_pass_taken:
  assumes idle: "kbd_idle s" and q: "kbd_queue s \<noteq> []" and taken: "sem_value s (lock_sema (console_lock s)) = 0"
    "lk_holder s (console_lock s) \<noteq> running_thread s"
    and wait: "sema_down_wait (lock_sema (console_lock s)) (cli (cli s)) = Inr (old, t)"
  obtains k where "k_thread_pass para s = Switch t k"
proof -
  have "ring_length (ioqs s (kbd_buf s)) \<noteq> 0" using q by (metis length_queue_of length_0_conv)
  then have e: "ioq_empty (kbd_buf s) (cli s) = Inr False" using idle by (simp add: kbd_idle_def ioq_empty_def ring_empty)
  obtain k where "lock_acquire (console_lock s) (cli s) = Switch t k"
    using lock_acquire_taken [of "cli s" "console_lock s", OF _ _ wait] taken by (auto simp: cli_eq running_thread_def)
  then have "\<exists>k. console_put_str para (cli s) = Switch t k" by (simp add: console_put_eq locked_output_def)
  then show thesis using that e by (auto simp: k_thread_pass_def case_prod_unfold Let_def fst_intr_disable)
qed

lemma step_pass_taken:
  assumes ok: "config_ok T own prog L c" and now: "now c = Return () s" and T: "\<forall>p \<in> T. loop_base L p"
    and prog: "prog (cur c) = Some para" and main: "m \<in> T" "prog m = None"
    and taken: "kbd_queue s \<noteq> []" "sem_value s (lock_sema (console_lock s)) = 0" "lk_holder s (console_lock s) \<noteq> cur c"
  shows "config_ok T own prog L (c\<lparr>now := k_thread_pass para s\<rparr>)"
proof -
  let ?p = "cur c" and ?l = "lock_sema (console_lock s)"
  obtain ps ws where s: "sys_ok T own prog L (saved c) s ps ws" "running_thread s = ?p" "esp s = L ?p" "intr_get_status s = INTR_ON" "?p \<in> T"
    "loop_base L ?p" "irq_room s" "stack_ok s ?p"
    by (rule head_ok [OF ok now T])
  have th: "kbd_idle s" "console_ok T own s ws" "sema_inv s ?l ps ws" "insert ?p (set ps \<union> set ws) = T" "\<forall>w \<in> set ws. prog w \<noteq> None"
    "devices_ok s"
    using s(1,2) by (simp_all add: sys_ok_def devices_ok_def threads_ok_def)
  have "m \<in> set ps" using main prog th(4,5) by auto
  then obtain q qs where ps: "ps = q # qs" by (cases ps) auto
  have inv: "sema_inv (cli (cli s)) ?l (q # qs) ws" using th(3) by (simp add: ps cli_eq)
  have run: "running_thread (cli (cli s)) = ?p" using s(2) by simp
  obtain t where t: "sema_down_wait ?l (cli (cli s)) = Inr (intr_get_status (cli (cli s)), t)"
    "sema_inv (schedule_back t) ?l qs (ws @ [?p])" "running_thread (schedule_back t) = q"
    unfolding run [symmetric] by (rule sema_down_wait_block [OF inv])
  have sw: "switched ?p q (cli (cli s)) t" using sema_down_wait_switched [OF inv t(1)] run by simp
  have "stack_ok (schedule_back t) q" using t(2,3) by (simp add: sema_inv_def sched_inv_def Let_def)
  then have rt: "running_thread t = q" by (simp add: stack_ok_def running_thread_frame)
  obtain k where "k_thread_pass para s = Switch t k"
    by (rule k_thread_pass_taken [OF th(1) taken(1,2) _ t(1)]) (use taken(3) s(2) in simp)
  moreover have "config_ok T own prog L (c\<lparr>now := Switch t k\<rparr>)"
  proof (rule config_ok_switched [OF sw rt t(3) refl])
    show "sema_inv (schedule_back t) (lock_sema (console_lock (cli (cli s)))) qs (ws @ [?p])" using t(2) by simp
    show "insert q (set qs \<union> set (ws @ [?p])) = T" using th(4) by (auto simp: ps)
    have "\<forall>r \<in> set ps. resumes L (saved c) (cli (cli s)) r" using s(1) by (simp add: sys_ok_def threads_ok_def resumes_def)
    then show "\<forall>r \<in> insert q (set qs) - {?p}. resumes L (saved c) (cli (cli s)) r" by (auto simp: ps)
    show "\<forall>r \<in> T. stack_magic (tasks (cli (cli s)) r) = 0x19851122" using s(1) by (simp add: sys_ok_def threads_ok_def)
    show "\<forall>w \<in> set (ws @ [?p]). prog w \<noteq> None" using th(5) prog by simp
    show "devices_ok (cli (cli s))" using th(6) by (simp add: devices_ok_def kbd_idle_def) (simp add: cli_eq)
    show "console_ok T own (cli (cli s)) (ws @ [?p])" using th(2) taken(2,3) by (simp add: console_ok_def) (simp add: cli_eq)
    have "?p \<notin> set ps" using th(3) s(2) by (simp add: sema_inv_def sched_inv_def Let_def)
    then show "\<forall>x. esp x = esp (cli (cli s)) - 8 \<longrightarrow> (\<exists>f. bit f 9 \<and> k x = Return () (x\<lparr>esp := L ?p, eflags := f\<rparr>))"
      if "?p \<in> insert q (set qs)" using that by (simp add: ps)
  qed
  ultimately show ?thesis by simp
qed

lemma step_pass:
  assumes ok: "config_ok T own prog L c" and now: "now c = Return () s" and T: "\<forall>p \<in> T. loop_base L p"
    and prog: "prog (cur c) = Some para" and main: "m \<in> T" "prog m = None"
  shows "config_ok T own prog L (c\<lparr>now := k_thread_pass para s\<rparr>)"
proof -
  let ?p = "cur c" and ?l = "lock_sema (console_lock s)"
  obtain ps ws where s: "sys_ok T own prog L (saved c) s ps ws" "running_thread s = ?p" "esp s = L ?p" "intr_get_status s = INTR_ON" "?p \<in> T"
    "loop_base L ?p" "irq_room s" "stack_ok s ?p"
    by (rule head_ok [OF ok now T])
  have th: "kbd_idle s" "console_ok T own s ws" "sema_inv s ?l ps ws" "insert ?p (set ps \<union> set ws) = T" "\<forall>w \<in> set ws. prog w \<noteq> None"
    "devices_ok s"
    using s(1,2) by (simp_all add: sys_ok_def devices_ok_def threads_ok_def)
  consider (idle) "kbd_queue s = []" | (echo) b bs where "kbd_queue s = b # bs" "lock_avail s (console_lock s)"
    | (taken) "kbd_queue s \<noteq> []" "sem_value s ?l = 0" "lk_holder s (console_lock s) \<noteq> ?p"
    using th(2) s(2) by (cases "kbd_queue s") (auto simp: lock_avail_def console_ok_def split: if_splits)
  then show ?thesis
  proof cases
    case idle
    then show ?thesis using k_thread_pass_idle [OF th(1)] ok now by (simp add: config_ok_def)
  next
    case echo
    note e = sys_ok_echoed [OF s(1) echo(2,1)]
    have "intr_get_status (echoed para b s) = INTR_ON" using s(4) by (simp add: intr_get_status_eq echoed_fields)
    then show ?thesis using e s(2,3) by (auto simp: config_ok_def echoed_fields)
  next
    case taken
    then show ?thesis by (rule step_pass_taken [OF ok now T prog main])
  qed
qed

section \<open>Reachable configurations\<close>

lemma step_ok:
  assumes "sys_step prog c c'" and "config_ok T own prog L c" and "\<forall>p \<in> T. loop_base L p" and "m \<in> T" and "prog m = None"
  shows "config_ok T own prog L c'"
  using assms(1)
proof cases
  case key
  then show ?thesis using step_key [OF assms(2)] by simp
next
  case tick
  then show ?thesis using step_tick [OF assms(2) _ assms(3)] by simp
next
  case pass
  then show ?thesis using step_pass [OF assms(2) _ assms(3) _ assms(4,5)] by simp
next
  case switch
  then show ?thesis using step_switch [OF assms(2) _ assms(3)] by simp
qed

text \<open>The holder of a console that is taken can be fixed.\<close>

lemma config_ok_owner:
  assumes "config_ok T own prog L c" and "now c = Return () s" and "sem_value s (lock_sema (console_lock s)) = 0"
  shows "config_ok T (Some (lk_holder s (console_lock s))) prog L c"
proof -
  obtain ps ws where "sys_ok T own prog L (saved c) s ps ws" using assms(1,2) by (auto simp: config_ok_def)
  then have "sys_ok T (Some (lk_holder s (console_lock s))) prog L (saved c) s ps ws"
    using assms(3) by (simp add: sys_ok_def console_ok_def)
  then show ?thesis using assms(1,2) by (auto simp: config_ok_def)
qed

lemma config_ok_holder:
  assumes "config_ok T (Some h) prog L c" and "now c = Return () s"
  shows "lk_holder s (console_lock s) = h"
  using assms by (auto simp: config_ok_def sys_ok_def console_ok_def split: if_splits)

text \<open>There is always a next step.\<close>

lemma config_ok_step:
  assumes "config_ok T own prog L c"
  shows "\<exists>c'. sys_step prog c c'"
proof (cases "now c")
  case (Return u s)
  then show ?thesis using assms tick [of c s prog] by (auto simp: config_ok_def)
next
  case (Stop e)
  then show ?thesis using assms by (simp add: config_ok_def)
next
  case (Switch s k)
  then show ?thesis using switch [OF Switch refl refl] by blast
qed

subsection \<open>The interface\<close>

text \<open>A system with an invariant: every step keeps it, it allows a next step, and it excludes the bad states.\<close>

locale safe_system =
  fixes step :: "'c \<Rightarrow> 'c \<Rightarrow> bool" and inv :: "'c \<Rightarrow> bool" and bad :: "'c \<Rightarrow> bool"
  assumes step_inv: "step c c' \<Longrightarrow> inv c \<Longrightarrow> inv c'"
    and progress: "inv c \<Longrightarrow> \<exists>c'. step c c'"
    and not_bad: "inv c \<Longrightarrow> \<not> bad c"
begin

lemma reach_inv: "step\<^sup>*\<^sup>* c c' \<Longrightarrow> inv c \<Longrightarrow> inv c'"
  by (induction rule: rtranclp_induct) (blast intro: step_inv)+

lemma reach_safe: "step\<^sup>*\<^sup>* c c' \<Longrightarrow> inv c \<Longrightarrow> \<not> bad c' \<and> (\<exists>d. step c' d)"
  using reach_inv progress not_bad by blast

end

text \<open>The configurations of a kernel whose thread \<open>m\<close> never uses the console.\<close>

definition system_inv where
  "system_inv T own prog L m c \<longleftrightarrow> config_ok T own prog L c \<and> (\<forall>p \<in> T. loop_base L p) \<and> m \<in> T \<and> prog m = None"

interpretation ks: safe_system "sys_step prog" "system_inv T own prog L m" "\<lambda>c. \<exists>e. now c = Stop e" for prog T own L m
proof
  fix c c'
  show "system_inv T own prog L m c'" if "sys_step prog c c'" and "system_inv T own prog L m c"
    using step_ok [OF that(1)] that(2) unfolding system_inv_def by blast
  show "\<exists>c'. sys_step prog c c'" if "system_inv T own prog L m c"
    using config_ok_step that unfolding system_inv_def by blast
  show "\<nexists>e. now c = Stop e" if "system_inv T own prog L m c" using that by (auto simp: system_inv_def config_ok_def)
qed

text \<open>The system that \<open>main\<close> starts.\<close>

definition kernel_progs :: "addr \<Rightarrow> string option" where
  "kernel_progs = [thread_a \<mapsto> ''argA'', thread_b \<mapsto> ''argB'']"

definition kernel_loops :: "u32 \<Rightarrow> addr \<Rightarrow> u32" where
  "kernel_loops base p = (if p = main_page then base else new_stack p + 20)"

lemma resumes_new:
  fixes s :: "'a kkbd_scheme"
  assumes "self_kstack (tasks s p) + 20 = L p"
  shows "resumes L (\<lambda>_. kernel_thread (Return ())) s p"
  unfolding resumes_def assms
proof (intro allI impI)
  fix t :: "'a kkbd_scheme"
  assume "esp t = L p"
  then show "\<exists>x. bit x 9 \<and> kernel_thread (Return ()) t = Return () (t\<lparr>esp := L p, eflags := x\<rparr>)"
    by (intro exI [of _ "set_IF (eflags t)"]) (simp add: kernel_thread_def sti_eq bit_set_IF)
qed

lemma kernel_initial_ok:
  fixes s :: "'a ktss_scheme"
  assumes boot: "boot_ok s m"
  obtains t where "kmain l s = Return () t"
    and "system_inv {main_page, thread_a, thread_b} None kernel_progs (kernel_loops (esp s)) main_page (initial main_page t)"
proof -
  let ?T = "{main_page, thread_a, thread_b} :: addr set" and ?L = "kernel_loops (esp s)"
  obtain t where t: "kmain l s = Return () t" "kernel_ok t [thread_a, thread_b] 5" "intr_get_status t = INTR_ON" "esp t = esp s"
    "tasks t main_page = new_task main_page ''main'' 31 (next_pid s + 1) TASK_RUNNING"
    "tasks t thread_a = (new_task thread_a ''k_thread_a'' 31 (next_pid s + 2) TASK_READY)\<lparr>self_kstack := new_stack thread_a\<rparr>"
    "tasks t thread_b = (new_task thread_b ''k_thread_b'' 30 (next_pid s + 3) TASK_READY)\<lparr>self_kstack := new_stack thread_b\<rparr>"
    by (rule kmain_ok [OF boot])
  let ?w = "sema_waiters (lock_sema (console_lock t))"
  have k: "threads_inv t [thread_a, thread_b] [main_page, thread_a, thread_b]" "running_thread t = main_page" "lock_free t (console_lock t)"
    "devices_ok t" "\<forall>x \<in> set (image_nodes t). x < 0xc009a000" "distinct (image_nodes t)"
    using t(2) by (simp_all add: kernel_ok_def devices_ok_def kbd_idle_def)
  have base: "\<forall>p \<in> ?T. loop_base ?L p"
    using boot by (simp add: boot_ok_def loop_base_def kernel_loops_def stack_ok_def irq_room_def running_thread_frame) (simp add: frame_def)
  have low: "x < 0xc009a000" if "x \<in> {thread_ready_list t, list_tail (thread_ready_list t), ?w, list_tail ?w}" for x
    using k(5) that by (auto simp: image_nodes_def Let_def)
  have "general_tag p \<noteq> x" if "p \<in> ?T" "x < 0xc009a000" for p x :: addr
    using that by (auto simp: general_tag_def)
  then have "tags_apart t (lock_sema (console_lock t)) ?T" using low by (simp add: tags_apart_def tag_apart_def)
  moreover have "lists_apart t (lock_sema (console_lock t))" using k(6) by (auto simp: lists_apart_def image_nodes_def Let_def)
  ultimately have "sema_inv t (lock_sema (console_lock t)) [thread_a, thread_b] []"
    using k(1-3) by (simp add: sema_inv_def threads_inv_def waiting_def lock_free_def)
  moreover have "resumes ?L (\<lambda>_. kernel_thread (Return ())) t p" if "p \<in> {thread_a, thread_b}" for p
    by (rule resumes_new) (use that t(6,7) in \<open>auto simp: kernel_loops_def\<close>)
  ultimately have "threads_ok ?T kernel_progs ?L (\<lambda>_. kernel_thread (Return ())) t [thread_a, thread_b] []"
    using t(5-7) k(2) by (simp add: threads_ok_def new_task_def)
  moreover have "console_ok ?T None t []" using k(3) by (simp add: console_ok_def lock_free_def lock_fields_def)
  ultimately have "sys_ok ?T None kernel_progs ?L (saved (initial main_page t)) t [thread_a, thread_b] []"
    using k(4) by (simp add: sys_ok_def initial_def)
  then have "config_ok ?T None kernel_progs ?L (initial main_page t)"
    using k(2) t(3,4) by (auto simp: config_ok_def initial_def kernel_loops_def)
  then have "system_inv ?T None kernel_progs ?L main_page (initial main_page t)"
    unfolding system_inv_def using base by (simp add: kernel_progs_def)
  with t(1) show thesis by (rule that)
qed

section \<open>Properties\<close>

text \<open>C1. The kernel never panics.  After \<open>main\<close> has started its threads, whatever bytes the keyboard sends, and however the
  interrupts of keyboard and timer fall between the passes of the threads, no assertion fails and there is a next step.
  Whenever a thread is at the head of its loop it is the running thread, with interrupts on; each of the three threads is either
  running, or in the ready list, or waits for the console, and \<open>main\<close> does not wait.  A thread that has the console keeps it.\<close>

theorem kernel_never_panics:
  fixes s :: "'a ktss_scheme"
  assumes "boot_ok s m"
  shows "\<exists>t. kmain l s = Return () t \<and>
    (\<forall>c. (sys_step kernel_progs)\<^sup>*\<^sup>* (initial main_page t) c \<longrightarrow>
      (\<forall>e. now c \<noteq> Stop e) \<and> (\<exists>c'. sys_step kernel_progs c c') \<and>
      (\<forall>u. now c = Return () u \<longrightarrow> running_thread u = cur c \<and> intr_get_status u = INTR_ON \<and>
        (\<exists>ps ws. sched_inv u ps \<and> waiting u (lock_sema (console_lock u)) ws \<and> distinct (cur c # ps @ ws) \<and>
           set (cur c # ps @ ws) = {main_page, thread_a, thread_b} \<and> main_page \<notin> set ws) \<and>
        (sem_value u (lock_sema (console_lock u)) = 0 \<longrightarrow>
          (\<forall>c' u'. (sys_step kernel_progs)\<^sup>*\<^sup>* c c' \<and> now c' = Return () u' \<longrightarrow>
             lk_holder u' (console_lock u') = lk_holder u (console_lock u)))))"
proof -
  let ?T = "{main_page, thread_a, thread_b} :: addr set" and ?L = "kernel_loops (esp s)" and ?P = kernel_progs
  obtain t where t: "kmain l s = Return () t" "system_inv ?T None ?P ?L main_page (initial main_page t)"
    by (rule kernel_initial_ok [OF assms])
  show ?thesis
  proof (intro exI [of _ t] conjI allI impI t(1))
    fix c
    assume c: "(sys_step ?P)\<^sup>*\<^sup>* (initial main_page t) c"
    then have inv: "system_inv ?T None ?P ?L main_page c" using t(2) by (rule ks.reach_inv)
    note parts = this [unfolded system_inv_def]
    have ok: "config_ok ?T None ?P ?L c" and base: "\<forall>p \<in> ?T. loop_base ?L p" and main: "?P main_page = None" using parts by blast+
    show "now c \<noteq> Stop e" for e using ks.reach_safe [OF c t(2)] by blast
    show "\<exists>c'. sys_step ?P c c'" using inv by (rule ks.progress)
    fix u
    assume u: "now c = Return () u"
    obtain ps ws where s: "sys_ok ?T None ?P ?L (saved c) u ps ws" "running_thread u = cur c" "intr_get_status u = INTR_ON"
      by (rule head_ok [OF ok u base])
    show "running_thread u = cur c" "intr_get_status u = INTR_ON" by (rule s)+
    show "\<exists>ps ws. sched_inv u ps \<and> waiting u (lock_sema (console_lock u)) ws \<and> distinct (cur c # ps @ ws) \<and>
        set (cur c # ps @ ws) = ?T \<and> main_page \<notin> set ws"
    proof (intro exI conjI)
      have th: "threads_ok ?T ?P ?L (saved c) u ps ws" using s(1) by (simp add: sys_ok_def)
      show "sched_inv u ps" "waiting u (lock_sema (console_lock u)) ws" "main_page \<notin> set ws"
        by (rule threads_ok_parts [OF th] threads_ok_parts(5) [OF th main])+
      show "distinct (cur c # ps @ ws)" "set (cur c # ps @ ws) = ?T" using threads_ok_parts(3,4) [OF th] unfolding s(2) .
    qed
    show "lk_holder u' (console_lock u') = lk_holder u (console_lock u)"
      if z: "sem_value u (lock_sema (console_lock u)) = 0" and c': "(sys_step ?P)\<^sup>*\<^sup>* c c' \<and> now c' = Return () u'" for c' u'
    proof -
      have "system_inv ?T (Some (lk_holder u (console_lock u))) ?P ?L main_page c"
        using inv config_ok_owner [OF ok u z] unfolding system_inv_def by (elim conjE) (intro conjI)
      then have "system_inv ?T (Some (lk_holder u (console_lock u))) ?P ?L main_page c'" by (rule ks.reach_inv [OF conjunct1 [OF c']])
      then have "config_ok ?T (Some (lk_holder u (console_lock u))) ?P ?L c'" unfolding system_inv_def by (rule conjunct1)
      then show ?thesis by (rule config_ok_holder) (rule conjunct2 [OF c'])
    qed
  qed
qed

theorem kernel_never_panics_witness:
  "\<forall>s :: ktss. \<forall>l. \<exists>t. kmain l (sample_boot s) = Return () t \<and> (\<forall>e. intr_entry 0x20 0 0 t \<noteq> Stop e) \<and> (\<forall>b e. intr_entry 0x21 b 0 t \<noteq> Stop e)"
proof (intro allI)
  fix s :: ktss and l
  obtain t where t: "kmain l (sample_boot s) = Return () t"
    and reach: "\<forall>c. (sys_step kernel_progs)\<^sup>*\<^sup>* (initial main_page t) c \<longrightarrow>
      (\<forall>e. now c \<noteq> Stop e) \<and> (\<forall>u. now c = Return () u \<longrightarrow> intr_get_status u = INTR_ON)"
    using kernel_never_panics [OF sample_boot_ok, of l s] by (elim exE conjE) (rule that, simp, simp)
  let ?i = "initial main_page t"
  have now: "now ?i = Return () t" by (simp add: initial_def)
  then have on: "intr_get_status t = INTR_ON" using reach by blast
  have "intr_entry 0x20 0 0 t \<noteq> Stop e" for e
    using reach [rule_format, OF r_into_rtranclp [where r = "sys_step kernel_progs", OF tick [OF now on]]] by simp
  moreover have "intr_entry 0x21 b 0 t \<noteq> Stop e" for b e
    using reach [rule_format, OF r_into_rtranclp [where r = "sys_step kernel_progs", OF key [OF now on]]] by simp
  ultimately show "\<exists>t. kmain l (sample_boot s) = Return () t \<and> (\<forall>e. intr_entry 0x20 0 0 t \<noteq> Stop e) \<and> (\<forall>b e. intr_entry 0x21 b 0 t \<noteq> Stop e)"
    using t by blast
qed

end
