(* ===== verification/Ports.thy ===== *)
theory Ports
  imports Prelude
begin

text \<open>
  Input and output ports: the instructions of \<open>src/lib/kernel/io.h\<close> that read or move blocks.  The devices behind the
  ports are a parameter: a state, and what reading from and writing to a port does.  \<open>outb\<close> of the kernel, which only
  ever programs devices that do not answer, is in \<open>Interrupt\<close>.
\<close>

section \<open>Model\<close>

record 'd ports =
  port_in8 :: "u16 \<Rightarrow> 'd \<Rightarrow> u8 \<times> 'd"
  port_in16 :: "u16 \<Rightarrow> 'd \<Rightarrow> u16 \<times> 'd"
  port_out8 :: "u16 \<Rightarrow> u8 \<Rightarrow> 'd \<Rightarrow> 'd"
  port_out16 :: "u16 \<Rightarrow> u16 \<Rightarrow> 'd \<Rightarrow> 'd"

text \<open>A 16-bit access to memory: the low byte comes first.\<close>

definition word16 :: "u8 \<Rightarrow> u8 \<Rightarrow> u16" where
  "word16 b0 b1 = ucast b0 OR push_bit 8 (ucast b1)"

definition put16 :: "addr \<Rightarrow> u16 \<Rightarrow> mem \<Rightarrow> mem" where
  "put16 a w m = m(a := ucast w, a + 1 := ucast (drop_bit 8 w))"

definition inb :: "'d ports \<Rightarrow> u16 \<Rightarrow> 'd \<Rightarrow> u8 \<times> 'd" where
  "inb P port d = port_in8 P port d"

text \<open>\<open>rep insw\<close> and \<open>rep outsw\<close> with the direction flag clear.\<close>

fun rep_insw :: "'d ports \<Rightarrow> u16 \<Rightarrow> nat \<Rightarrow> addr \<Rightarrow> 'd \<Rightarrow> mem \<Rightarrow> 'd \<times> mem" where
  "rep_insw P port 0 a d m = (d, m)"
| "rep_insw P port (Suc n) a d m = (let (w, d) = port_in16 P port d in rep_insw P port n (a + 2) d (put16 a w m))"

fun rep_outsw :: "'d ports \<Rightarrow> u16 \<Rightarrow> nat \<Rightarrow> addr \<Rightarrow> mem \<Rightarrow> 'd \<Rightarrow> 'd" where
  "rep_outsw P port 0 a m d = d"
| "rep_outsw P port (Suc n) a m d = rep_outsw P port n (a + 2) m (port_out16 P port (word16 (m a) (m (a + 1))) d)"

definition insw :: "'d ports \<Rightarrow> u16 \<Rightarrow> addr \<Rightarrow> u32 \<Rightarrow> 'd \<Rightarrow> mem \<Rightarrow> 'd \<times> mem" where
  "insw P port a word_count d m = rep_insw P port (unat word_count) a d m"

definition outsw :: "'d ports \<Rightarrow> u16 \<Rightarrow> addr \<Rightarrow> u32 \<Rightarrow> mem \<Rightarrow> 'd \<Rightarrow> 'd" where
  "outsw P port a word_count m d = rep_outsw P port (unat word_count) a m d"

section \<open>Blocks of bytes\<close>

text \<open>The bytes \<open>f o\<close>, \<open>f (o + 1)\<close>, and so on, \<open>n\<close> of them, placed at address \<open>a\<close>.\<close>

definition placed :: "(nat \<Rightarrow> u8) \<Rightarrow> nat \<Rightarrow> nat \<Rightarrow> nat \<Rightarrow> mem \<Rightarrow> mem" where
  "placed f a o' n m = (\<lambda>x. if a \<le> unat x \<and> unat x < a + n then f (o' + (unat x - a)) else m x)"

lemma placed_0 [simp]: "placed f a o' 0 m = m"
  by (auto simp: placed_def fun_eq_iff)

lemma placed_at: "k < n \<Longrightarrow> a + n \<le> 2 ^ 32 \<Longrightarrow> placed f a o' n m (of_nat (a + k)) = f (o' + k)"
  by (simp add: placed_def unat_of_nat del: of_nat_add)

lemma placed_out: "unat x < a \<or> a + n \<le> unat x \<Longrightarrow> placed f a o' n m x = m x"
  by (auto simp: placed_def)

lemma of_nat_eq_iff_unat: "i < 2 ^ 32 \<Longrightarrow> x = (of_nat i :: addr) \<longleftrightarrow> unat x = i"
  by (auto simp: unat_of_nat)

text \<open>One byte more in front.\<close>

lemma placed_Suc:
  assumes "a + n < 2 ^ 32"
  shows "placed f (Suc a) (Suc o') n (m(of_nat a := f o')) = placed f a o' (Suc n) m"
proof
  fix x
  show "placed f (Suc a) (Suc o') n (m(of_nat a := f o')) x = placed f a o' (Suc n) m x"
  proof (cases "unat x = a")
    case True
    then show ?thesis using assms of_nat_eq_iff_unat [of a x] by (simp add: placed_def)
  next
    case False
    then have "x \<noteq> of_nat a" using assms of_nat_eq_iff_unat [of a x] by simp
    moreover have "Suc a \<le> unat x \<longleftrightarrow> a \<le> unat x" using False by linarith
    moreover have "Suc o' + (unat x - Suc a) = o' + (unat x - a)" if "a \<le> unat x" using that False by simp
    ultimately show ?thesis by (simp add: placed_def)
  qed
qed

text \<open>The data register delivers the bytes of \<open>f\<close>, two by two.\<close>

fun delivers :: "'d ports \<Rightarrow> u16 \<Rightarrow> 'd \<Rightarrow> (nat \<Rightarrow> u8) \<Rightarrow> nat \<Rightarrow> bool" where
  "delivers P port d f 0 \<longleftrightarrow> True"
| "delivers P port d f (Suc n) \<longleftrightarrow> fst (port_in16 P port d) = word16 (f 0) (f 1) \<and>
     delivers P port (snd (port_in16 P port d)) (\<lambda>i. f (i + 2)) n"

text \<open>The device after \<open>n\<close> words have been read.\<close>

fun after_words :: "'d ports \<Rightarrow> u16 \<Rightarrow> nat \<Rightarrow> 'd \<Rightarrow> 'd" where
  "after_words P port 0 d = d"
| "after_words P port (Suc n) d = after_words P port n (snd (port_in16 P port d))"

lemma delivers_append:
  "delivers P port d f n \<Longrightarrow> delivers P port (after_words P port n d) (\<lambda>i. f (2 * n + i)) k \<Longrightarrow> delivers P port d f (n + k)"
  by (induction n arbitrary: d f) (simp_all add: add.commute add.left_commute)

lemma word16_bytes [simp]:
  "ucast (word16 b0 b1) = b0" "ucast (drop_bit 8 (word16 b0 b1)) = b1"
  by (rule bit_word_eqI; auto simp: word16_def bit_simps dest: bit_imp_le_length)+

lemma rep_insw_placed:
  assumes "delivers P port d f n" and "a + 2 * n < 2 ^ 32"
  shows "snd (rep_insw P port n (of_nat a) d m) = placed f a 0 (2 * n) m"
  using assms
proof (induction n arbitrary: a d f m)
  case (Suc n)
  let ?w = "fst (port_in16 P port d)" and ?d = "snd (port_in16 P port d)" and ?g = "\<lambda>i. f (i + 2)"
  have w: "?w = word16 (f 0) (f 1)" and rest: "delivers P port ?d ?g n" using Suc.prems(1) by simp_all
  have n: "(of_nat a :: addr) + 2 = of_nat (a + 2)" "(of_nat a :: addr) + 1 = of_nat (Suc a)" by (simp_all add: add.commute)
  have "snd (rep_insw P port (Suc n) (of_nat a) d m) = placed ?g (a + 2) 0 (2 * n) (m(of_nat a := f 0, of_nat (Suc a) := f 1))"
    using Suc.IH [OF rest, of "a + 2"] Suc.prems(2) w by (simp add: case_prod_unfold put16_def n del: of_nat_Suc of_nat_add)
  also have "placed ?g (a + 2) 0 (2 * n) = placed f (Suc (Suc a)) (Suc (Suc 0)) (2 * n)"
    by (intro ext) (simp add: placed_def add.commute)
  also have "\<dots> (m(of_nat a := f 0, of_nat (Suc a) := f 1)) = placed f (Suc a) (Suc 0) (Suc (2 * n)) (m(of_nat a := f 0))"
    using placed_Suc [of "Suc a" "2 * n" f "Suc 0" "m(of_nat a := f 0)"] Suc.prems(2) by simp
  also have "\<dots> = placed f a 0 (Suc (Suc (2 * n))) m" using Suc.prems(2) by (intro placed_Suc) simp
  finally show ?case by simp
qed simp

text \<open>\<open>insw\<close> fills a block with what the device delivers; \<open>outsw\<close> sends the words of a block in order.\<close>

lemma insw_placed:
  assumes "delivers P port d f (unat n)" and "a + 2 * unat n < 2 ^ 32"
  shows "snd (insw P port (of_nat a) n d m) = placed f a 0 (2 * unat n) m"
  unfolding insw_def by (rule rep_insw_placed [OF assms])

lemma rep_outsw_words:
  "rep_outsw P port n a m d = fold (\<lambda>i. port_out16 P port (word16 (m (a + 2 * of_nat i)) (m (a + 2 * of_nat i + 1)))) [0..<n] d"
proof (induction n arbitrary: a d)
  case (Suc n)
  have "[0..<Suc n] = 0 # map Suc [0..<n]" by (simp add: map_Suc_upt upt_conv_Cons)
  then show ?case by (simp add: Suc.IH fold_map comp_def algebra_simps del: upt_Suc)
qed simp

lemma outsw_words:
  "outsw P port a n m d =
     fold (\<lambda>i. port_out16 P port (word16 (m (a + 2 * of_nat i)) (m (a + 2 * of_nat i + 1)))) [0..<unat n] d"
  unfolding outsw_def by (rule rep_outsw_words)

end
