(* ===== verification/Loader.thy ===== *)
theory Loader
  imports Boot Ports
begin

text \<open>
  From the boot sector to the kernel: the disk reads of \<open>src/boot/mbr.S\<close> and \<open>src/boot/loader.S\<close>, the size of the
  memory from the BIOS, the page tables, and the copy of the segments of the kernel file to the addresses they are
  linked for.  The BIOS and the devices behind the ports are parameters.

  Memory is physical and by bytes here; \<open>mem_words\<close> is the view by words that \<open>setup_page\<close> and the kernel have.  The
  pushes to the stack (below 0x7c00 in real mode, below 0x900 while the kernel is copied) are not modelled, nor are the BIOS
  services that write to the screen.  Segments are flat: every descriptor that the code loads has base 0, but for the
  screen.
\<close>

section \<open>Model\<close>

subsection \<open>Memory and the state of the machine\<close>

definition get16 :: "mem \<Rightarrow> addr \<Rightarrow> u16" where
  "get16 m a = word16 (m a) (m (a + 1))"

definition word32 :: "u16 \<Rightarrow> u16 \<Rightarrow> u32" where
  "word32 w0 w1 = ucast w0 OR push_bit 16 (ucast w1)"

definition get32 :: "mem \<Rightarrow> addr \<Rightarrow> u32" where
  "get32 m a = word32 (get16 m a) (get16 m (a + 2))"

definition put32 :: "addr \<Rightarrow> u32 \<Rightarrow> mem \<Rightarrow> mem" where
  "put32 a v m = put16 (a + 2) (ucast (drop_bit 16 v)) (put16 a (ucast v) m)"

text \<open>Aligned words, and back to bytes.\<close>

definition mem_words :: "mem \<Rightarrow> u32 \<Rightarrow> u32" where
  "mem_words m a = (if a AND 3 = 0 then get32 m a else 0)"

definition word_base :: "addr \<Rightarrow> addr" where
  "word_base a = a AND NOT 3"

definition mem_bytes :: "(u32 \<Rightarrow> u32) \<Rightarrow> mem" where
  "mem_bytes pm a = ucast (drop_bit (8 * unat (a AND 3)) (pm (word_base a)))"

record regs16 =
  r_eax :: u32
  r_ebx :: u32
  r_ecx :: u32
  r_edx :: u32
  r_esi :: u32
  r_edi :: u32

text \<open>The BIOS service \<open>int 15h\<close>: the carry flag, and the registers and memory after the call.\<close>

record 'd bios =
  int15 :: "regs16 \<Rightarrow> mem \<Rightarrow> 'd \<Rightarrow> bool \<times> regs16 \<times> mem \<times> 'd"


abbreviation (input) KB1 :: u16 where "KB1 \<equiv> 0x400"
abbreviation (input) KB64 :: u32 where "KB64 \<equiv> 0x10000"
abbreviation (input) MB1 :: u32 where "MB1 \<equiv> 0x100000"

text \<open>Labels of \<open>loader.S\<close>.\<close>

abbreviation (input) total_mem_bytes :: addr where "total_mem_bytes \<equiv> 0xb00"
abbreviation (input) BaseAddrLow :: addr where "BaseAddrLow \<equiv> 0xb0a"
abbreviation (input) LengthLow :: addr where "LengthLow \<equiv> 0xb12"
abbreviation (input) ards_nr :: addr where "ards_nr \<equiv> 0xb1e"

subsection \<open>Reading the disk\<close>







subsection \<open>The size of the memory\<close>

text \<open>The low half of a register, and \<open>mul\<close> with a 16-bit operand: the product goes to \<open>dx\<close> and \<open>ax\<close>.\<close>

definition set_lo16 :: "u32 \<Rightarrow> u16 \<Rightarrow> u32" where
  "set_lo16 x w = (x AND 0xffff0000) OR ucast w"

definition mul16 :: "u16 \<Rightarrow> regs16 \<Rightarrow> regs16" where
  "mul16 w r = (let p = ucast (ucast (r_eax r) :: u16) * ucast w :: u32
     in r\<lparr>r_eax := set_lo16 (r_eax r) (ucast p), r_edx := set_lo16 (r_edx r) (ucast (drop_bit 16 p))\<rparr>)"

text \<open>\<open>hlt\<close> waits for an interrupt; \<open>irq\<close> says whether one arrives.  The code goes on behind it.\<close>

definition hlt :: "bool \<Rightarrow> 'a \<Rightarrow> 'a res" where
  "hlt irq x = (if irq then Inr x else Inl Diverge)"

text \<open>The loop \<open>.e820_mem_get_loop\<close>; the flag of the result is set when the service failed.\<close>

partial_function (option) e820_mem_get_loop ::
  "'d bios \<Rightarrow> regs16 \<Rightarrow> mem \<Rightarrow> 'd \<Rightarrow> (bool \<times> regs16 \<times> mem \<times> 'd) option" where
  "e820_mem_get_loop B r m d =
     (let (cf, r, m, d) = int15 B (r\<lparr>r_eax := 0xe820, r_ecx := 0x14\<rparr>) m d in
      if cf then Some (True, r, m, d)
      else let m = put16 ards_nr (get16 m ards_nr + 1) m in
        if r_ebx r = 0 then Some (False, r, m, d)
        else let r = r\<lparr>r_eax := get32 m BaseAddrLow + get32 m LengthLow\<rparr> in
          e820_mem_get_loop B (if r_eax r \<le>s r_esi r then r else r\<lparr>r_esi := r_eax r\<rparr>) m d)"

definition try88 :: "'d bios \<Rightarrow> bool \<Rightarrow> regs16 \<Rightarrow> mem \<Rightarrow> 'd \<Rightarrow> (u32 \<times> mem \<times> 'd) res" where
  "try88 B irq r m d =
     (let (cf, r, m, d) = int15 B (r\<lparr>r_eax := (r_eax r AND 0xffff00ff) OR 0x8800\<rparr>) m d in
      if cf then hlt irq (r_edx r, m, d)
      else let r = mul16 KB1 (r\<lparr>r_eax := r_eax r AND 0xffff\<rparr>)
        in hlt irq ((push_bit 16 (r_edx r) OR r_eax r) + MB1, m, d))"

definition try_e801 :: "'d bios \<Rightarrow> bool \<Rightarrow> regs16 \<Rightarrow> mem \<Rightarrow> 'd \<Rightarrow> (u32 \<times> mem \<times> 'd) res" where
  "try_e801 B irq r m d =
     (let (cf, r, m, d) = int15 B (r\<lparr>r_eax := set_lo16 (r_eax r) 0xe801\<rparr>) m d in
      if cf then try88 B irq r m d
      else let r = mul16 KB1 r;
               esi = (drop_bit 16 (r_edx r) OR (r_eax r AND 0xffff)) + MB1;
               eax = ucast (ucast (r_ebx r) :: u16) * KB64
        in Inr (esi + eax, m, d))"

definition detect_memory :: "'d bios \<Rightarrow> bool \<Rightarrow> regs16 \<Rightarrow> mem \<Rightarrow> 'd \<Rightarrow> (mem \<times> 'd) res" where
  "detect_memory B irq r m d =
     (let r = r\<lparr>r_ebx := 0, r_edx := 0x534d4150, r_edi := set_lo16 (r_edi r) (ucast BaseAddrLow), r_esi := 0\<rparr> in
      bindE (of_loop (e820_mem_get_loop B r m d)) (\<lambda>(cf, r, m, d).
      bindE (if cf then try_e801 B irq r m d else Inr (r_esi r, m, d)) (\<lambda>(edx, m, d).
      Inr (put32 total_mem_bytes edx m, d))))"

subsection \<open>Loading the kernel\<close>








subsection \<open>The way to the kernel\<close>













section \<open>Bytes and words\<close>

lemma word32_word16_bytes:
  fixes b0 b1 b2 b3 :: u8
  defines "w \<equiv> word32 (word16 b0 b1) (word16 b2 b3)"
  shows "ucast w = b0" "ucast (drop_bit 8 w) = b1" "ucast (drop_bit 16 w) = b2" "ucast (drop_bit 24 w) = b3"
  unfolding w_def by (rule bit_word_eqI; auto simp: word32_def word16_def bit_simps dest: bit_imp_le_length)+

lemma word32_halves: "ucast (word32 w0 w1) = w0" "ucast (drop_bit 16 (word32 w0 w1)) = w1"
  by (rule bit_word_eqI; auto simp: word32_def bit_simps dest: bit_imp_le_length)+

lemma word32_of_halves: "word32 (ucast v) (ucast (drop_bit 16 v)) = v"
  by (rule bit_word_eqI) (auto simp: word32_def bit_simps)

lemma word16_of_bytes: "word16 (ucast v) (ucast (drop_bit 8 v)) = v"
  by (rule bit_word_eqI) (auto simp: word16_def bit_simps)

lemma get16_put16 [simp]: "get16 (put16 a v m) a = v"
  by (simp add: get16_def put16_def word16_of_bytes)

lemma get16_upd: "a \<noteq> x \<Longrightarrow> a + 1 \<noteq> x \<Longrightarrow> get16 (m(x := b)) a = get16 m a"
  by (simp add: get16_def)

lemma get16_put16_other:
  "a \<noteq> x \<Longrightarrow> a + 1 \<noteq> x \<Longrightarrow> a \<noteq> x + 1 \<Longrightarrow> get16 (put16 x v m) a = get16 m a"
  by (simp add: put16_def get16_upd)

lemma get32_put32 [simp]: "get32 (put32 a v m) a = v"
proof -
  have "get16 (put32 a v m) (a + 2) = ucast (drop_bit 16 v)" by (simp add: put32_def)
  moreover have "get16 (put32 a v m) a = ucast v"
    by (simp add: put32_def get16_put16_other add.assoc)
  ultimately show ?thesis by (simp add: get32_def word32_of_halves)
qed

lemma and_3_cases: "x AND 3 \<in> {0, 1, 2, 3}" for x :: u32
proof -
  have "x AND 3 = take_bit 2 x" by (simp add: take_bit_eq_mask mask_eq_exp_minus_1)
  then have "unat (x AND 3) < 4" by (simp add: take_bit_eq_mod unat_mod)
  then have "unat (x AND 3) \<in> {0, 1, 2, 3}" by auto
  then show ?thesis by (auto simp: word_unat_eq_iff)
qed

lemma word_base_aligned [simp]: "word_base x AND 3 = 0"
proof -
  have "(x AND NOT 3) AND 3 = x AND (NOT 3 AND 3)" by (rule and.assoc)
  then show ?thesis by (simp add: word_base_def)
qed

lemma word_base_split: "word_base x + (x AND 3) = x"
proof -
  have "word_base x AND (x AND 3) = x AND (word_base x AND 3)" by (simp only: ac_simps)
  then have "word_base x + (x AND 3) = word_base x OR (x AND 3)"
    using word_plus_and_or [of "word_base x" "x AND 3"] by simp
  also have "\<dots> = x AND (NOT 3 OR 3)" unfolding word_base_def by (rule bit.conj_disj_distrib [symmetric])
  finally show ?thesis by simp
qed

lemma aligned_plus:
  assumes "a AND 3 = 0" and "k AND 3 = k"
  shows "(a + k) AND 3 = k" "word_base (a + k) = a"
proof -
  have "a AND k = (a AND 3) AND k" using assms(2) by (metis and.assoc and.commute)
  then have "a + k = a OR k" using word_plus_and_or [of a k] assms(1) by simp
  then show and3: "(a + k) AND 3 = k" using assms by (simp add: bit.conj_disj_distrib2)
  show "word_base (a + k) = a" using word_base_split [of "a + k"] by (simp add: and3)
qed

lemma mem_bytes_words [simp]: "mem_bytes (mem_words m) = m"
proof
  fix x :: addr
  define a where "a = word_base x"
  have x: "a + (x AND 3) = x" unfolding a_def by (rule word_base_split)
  have "ucast (drop_bit (8 * unat (x AND 3)) (get32 m a)) = m (a + (x AND 3))"
    using and_3_cases [of x] word32_word16_bytes [of "m a" "m (a + 1)" "m (a + 2)" "m (a + 3)"]
    by (auto simp: get32_def get16_def add.assoc)
  then show "mem_bytes (mem_words m) x = m x" unfolding x by (simp add: mem_bytes_def mem_words_def a_def)
qed

lemma get32_mem_bytes:
  assumes a: "a AND 3 = 0"
  shows "get32 (mem_bytes pm) a = pm a"
proof -
  have b: "mem_bytes pm (a + k) = ucast (drop_bit (8 * unat k) (pm a))" if "k AND 3 = k" for k
    by (simp add: mem_bytes_def aligned_plus [OF a that])
  have "mem_bytes pm a = ucast (pm a)" using b [of 0] by simp
  moreover have "mem_bytes pm (a + 1) = ucast (drop_bit 8 (pm a))" using b [of 1] by simp
  moreover have "mem_bytes pm (a + 2) = ucast (drop_bit 16 (pm a))" using b [of 2] by simp
  moreover have "mem_bytes pm (a + 3) = ucast (drop_bit 24 (pm a))" using b [of 3] by simp
  ultimately have "get32 (mem_bytes pm) a =
      word32 (word16 (ucast (pm a)) (ucast (drop_bit 8 (pm a)))) (word16 (ucast (drop_bit 16 (pm a))) (ucast (drop_bit 24 (pm a))))"
    by (simp add: get32_def get16_def add.assoc)
  also have "\<dots> = pm a"
  proof (rule bit_word_eqI)
    fix n assume "n < LENGTH(32)"
    then show "bit (word32 (word16 (ucast (pm a)) (ucast (drop_bit 8 (pm a))))
        (word16 (ucast (drop_bit 16 (pm a))) (ucast (drop_bit 24 (pm a))))) n = bit (pm a) n"
      by (cases "16 \<le> n") (auto simp: word32_def word16_def bit_simps)
  qed
  finally show ?thesis .
qed

lemma mem_words_bytes: "(\<And>a. a AND 3 \<noteq> 0 \<Longrightarrow> pm a = 0) \<Longrightarrow> mem_words (mem_bytes pm) = pm"
  by (rule ext) (simp add: mem_words_def get32_mem_bytes)

section \<open>The disk\<close>


















section \<open>The kernel file\<close>


























section \<open>The page tables in memory\<close>





lemma and_3_mod: "unat (x AND 3) = unat x mod 4" for x :: u32
proof -
  have "x AND 3 = take_bit 2 x" by (simp add: take_bit_eq_mask mask_eq_exp_minus_1)
  then show ?thesis by (simp add: take_bit_eq_mod unat_mod)
qed

lemma aligned_add4: "(a + 4 * w) AND 3 = a AND 3" for a w :: u32
proof -
  have "unat (a + 4 * w) mod 4 = (unat a + 4 * unat w mod 2 ^ 32) mod 2 ^ 32 mod 4" by (simp add: unat_word_ariths)
  also have "\<dots> = (unat a + 4 * unat w mod 2 ^ 32 mod 4) mod 4" by (subst mod_mod_cancel) (simp_all add: mod_add_right_eq)
  also have "\<dots> = unat a mod 4" by (subst mod_mod_cancel) simp_all
  finally show ?thesis by (simp add: word_unat_eq_iff and_3_mod)
qed

lemma setup_page_unaligned:
  assumes "a AND 3 \<noteq> 0"
  shows "setup_page pm a = pm a"
proof -
  have no: "a \<noteq> b + 4 * of_nat i" if "b AND 3 = 0" for b :: u32 and i using assms that by (auto simp: aligned_add4)
  have "a \<noteq> 0x100000 + 4 * of_nat i" "a \<noteq> 0x101000 + 4 * of_nat i" "a \<noteq> (0x100000 + 4 * of_nat 769) + 4 * of_nat i" for i
    by (rule no; simp)+
  moreover from this(1) [of 0] this(1) [of 768] this(1) [of 1023] have "a \<noteq> 0x100000" "a \<noteq> 0x100c00" "a \<noteq> 0x100ffc" by simp_all
  ultimately show ?thesis unfolding setup_page_eq by (simp add: create_entries_other clear_page_dir_other)
qed

lemma mem_words_setup_page [simp]: "mem_words (mem_bytes (setup_page (mem_words m))) = setup_page (mem_words m)"
  by (rule mem_words_bytes) (simp add: setup_page_unaligned mem_words_def)





section \<open>To the entry point of the kernel\<close>

lemma put16_other: "x \<noteq> a \<Longrightarrow> x \<noteq> a + 1 \<Longrightarrow> put16 a v m x = m x"
  by (simp add: put16_def)

lemma put32_other: "x \<noteq> a \<Longrightarrow> x \<noteq> a + 1 \<Longrightarrow> x \<noteq> a + 2 \<Longrightarrow> x \<noteq> a + 3 \<Longrightarrow> put32 a v m x = m x"
  by (simp add: put32_def put16_other add.assoc)











section \<open>The memory map of the BIOS\<close>

text \<open>
  What the code relies on of \<open>int 15h\<close>, function 0xe820: called with continuation \<open>c\<close>, it stores a range with base and
  length \<open>(b, l)\<close> in the buffer and returns the continuation \<open>c'\<close>, which is 0 with the last range.  The other registers
  and the memory of the loader stay as they are.
\<close>

definition e820_call :: "'d bios \<Rightarrow> u32 \<Rightarrow> u32 \<Rightarrow> u32 \<times> u32 \<Rightarrow> bool" where
  "e820_call B c c' e \<longleftrightarrow>
     (\<forall>r m d. r_eax r = 0xe820 \<and> r_ebx r = c \<and> r_ecx r = 0x14 \<and> r_edx r = 0x534d4150 \<and> ucast (r_edi r) = (0xb0a :: u16) \<longrightarrow>
        (case int15 B r m d of (cf, r', m', d') \<Rightarrow>
           \<not> cf \<and> r_ebx r' = c' \<and> r_edx r' = r_edx r \<and> r_esi r' = r_esi r \<and> r_edi r' = r_edi r \<and>
           get32 m' BaseAddrLow = fst e \<and> get32 m' LengthLow = snd e \<and>
           (\<forall>x. 0x900 \<le> unat x \<and> \<not> (0xb0a \<le> unat x \<and> unat x < 0xb1e) \<longrightarrow> m' x = m x)))"

fun e820_map :: "'d bios \<Rightarrow> u32 \<Rightarrow> (u32 \<times> u32) list \<Rightarrow> bool" where
  "e820_map B c [] \<longleftrightarrow> False"
| "e820_map B c [e] \<longleftrightarrow> e820_call B c 0 e"
| "e820_map B c (e # es) \<longleftrightarrow> (\<exists>c'. c' \<noteq> 0 \<and> e820_call B c c' e \<and> e820_map B c' es)"

definition e820_max :: "u32 \<times> u32 \<Rightarrow> u32 \<Rightarrow> u32" where
  "e820_max e hi = (if fst e + snd e \<le>s hi then hi else fst e + snd e)"

text \<open>The end of the highest range as the loop computes it, without the last range.\<close>

definition e820_top :: "(u32 \<times> u32) list \<Rightarrow> u32" where
  "e820_top es = fold e820_max (butlast es) 0"

lemma e820_loop:
  "e820_map B c es \<Longrightarrow> r_ebx r = c \<Longrightarrow> r_edx r = 0x534d4150 \<Longrightarrow> ucast (r_edi r) = (0xb0a :: u16) \<Longrightarrow>
   \<exists>r' m' d'. e820_mem_get_loop B r m d = Some (False, r', m', d') \<and> r_esi r' = fold e820_max (butlast es) (r_esi r) \<and>
     (\<forall>x. 0x900 \<le> unat x \<and> \<not> (0xb0a \<le> unat x \<and> unat x < 0xb20) \<longrightarrow> m' x = m x)"
proof (induction es arbitrary: c r m d)
  case (Cons e es)
  let ?r = "r\<lparr>r_eax := 0xe820, r_ecx := 0x14\<rparr>"
  obtain cf r1 m1 d1 where i: "int15 B ?r m d = (cf, r1, m1, d1)" by (metis prod.exhaust)
  define m2 where "m2 = put16 ards_nr (get16 m1 ards_nr + 1) m1"
  have nr: "m2 x = m1 x" if "\<not> (0xb1e \<le> unat x \<and> unat x < 0xb20)" for x unfolding m2_def using that by (intro put16_other) auto
  obtain c' where c': "e820_call B c c' e" "es = [] \<Longrightarrow> c' = 0" "es \<noteq> [] \<Longrightarrow> c' \<noteq> 0 \<and> e820_map B c' es"
    using Cons.prems(1) by (cases es) auto
  have call: "\<not> cf" "r_ebx r1 = c'" "r_edx r1 = r_edx r" "r_esi r1 = r_esi r" "r_edi r1 = r_edi r"
    "get32 m1 0xb0a = fst e" "get32 m1 0xb12 = snd e" "\<And>x. 0x900 \<le> unat x \<Longrightarrow> \<not> (0xb0a \<le> unat x \<and> unat x < 0xb1e) \<Longrightarrow> m1 x = m x"
    using c'(1) [unfolded e820_call_def, rule_format, of ?r m d] Cons.prems(2-4) by (simp_all add: i)
  have buf: "get32 m2 0xb0a = fst e" "get32 m2 0xb12 = snd e" using call(6,7) nr by (simp_all add: get32_def get16_def)
  have mem: "m2 x = m x" if "0x900 \<le> unat x \<and> \<not> (0xb0a \<le> unat x \<and> unat x < 0xb20)" for x
    using that nr [of x] call(8) [of x] by auto
  let ?r1 = "r1\<lparr>r_eax := fst e + snd e\<rparr>"
  let ?r2 = "if fst e + snd e \<le>s r_esi r1 then ?r1 else ?r1\<lparr>r_esi := fst e + snd e\<rparr>"
  have step: "e820_mem_get_loop B r m d = (if c' = 0 then Some (False, r1, m2, d1) else e820_mem_get_loop B ?r2 m2 d1)"
    by (subst e820_mem_get_loop.simps) (simp add: i call(1,2) Let_def buf cong: if_cong flip: m2_def)
  show ?case
  proof (cases "es = []")
    case True
    then show ?thesis using step c'(2) call(4) mem by simp
  next
    case False
    have "\<exists>r' m' d'. e820_mem_get_loop B ?r2 m2 d1 = Some (False, r', m', d') \<and> r_esi r' = fold e820_max (butlast es) (r_esi ?r2) \<and>
        (\<forall>x. 0x900 \<le> unat x \<and> \<not> (0xb0a \<le> unat x \<and> unat x < 0xb20) \<longrightarrow> m' x = m2 x)"
      using c'(3) [OF False] call Cons.prems(3,4) by (intro Cons.IH [of c']) (auto)
    moreover have "fold e820_max (butlast (e # es)) (r_esi r) = fold e820_max (butlast es) (r_esi ?r2)"
      using False call(4) by (simp add: e820_max_def)
    ultimately show ?thesis using step c'(3) [OF False] mem by (auto split: if_splits)
  qed
qed simp

text \<open>The registers at the first call of \<open>int 15h\<close>.\<close>

abbreviation (input) e820_regs :: "regs16 \<Rightarrow> regs16" where
  "e820_regs r \<equiv> r\<lparr>r_ebx := 0, r_edx := 0x534d4150, r_edi := set_lo16 (r_edi r) 0xb0a, r_esi := 0, r_eax := 0xe820, r_ecx := 0x14\<rparr>"

lemma ucast_set_lo16 [simp]: "ucast (set_lo16 x w) = w" "drop_bit 16 (set_lo16 x w) = drop_bit 16 x"
  "push_bit 16 (set_lo16 x w) = push_bit 16 (ucast w)" "set_lo16 x w AND 0xffff = ucast w"
proof -
  have hi: "(0xffff0000 :: u32) = NOT (mask 16)" and lo: "(0xffff :: u32) = mask 16" by (simp_all add: mask_eq_exp_minus_1)
  show "ucast (set_lo16 x w) = w" "drop_bit 16 (set_lo16 x w) = drop_bit 16 x" "push_bit 16 (set_lo16 x w) = push_bit 16 (ucast w)"
    "set_lo16 x w AND 0xffff = ucast w"
    unfolding set_lo16_def hi lo by (rule bit_word_eqI; auto simp: bit_simps dest: bit_imp_le_length)+
qed

lemma detect_memory_e820:
  assumes "e820_map B 0 es"
  obtains m' d' where "detect_memory B irq r m d = Inr (m', d')" "get32 m' 0xb00 = e820_top es"
    "\<And>x. 0x900 \<le> unat x \<Longrightarrow> \<not> (0xb00 \<le> unat x \<and> unat x < 0xb04) \<Longrightarrow> \<not> (0xb0a \<le> unat x \<and> unat x < 0xb20) \<Longrightarrow> m' x = m x"
proof -
  let ?r = "r\<lparr>r_ebx := 0, r_edx := 0x534d4150, r_edi := set_lo16 (r_edi r) 0xb0a, r_esi := 0\<rparr>"
  obtain r' m' d' where l: "e820_mem_get_loop B ?r m d = Some (False, r', m', d')" "r_esi r' = e820_top es"
    "\<And>x. 0x900 \<le> unat x \<Longrightarrow> \<not> (0xb0a \<le> unat x \<and> unat x < 0xb20) \<Longrightarrow> m' x = m x"
    using e820_loop [OF assms, of ?r m d] by (auto simp: e820_top_def)
  have "put32 0xb00 (e820_top es) m' x = m' x" if "\<not> (0xb00 \<le> unat x \<and> unat x < 0xb04)" for x using that by (intro put32_other) auto
  then show thesis using l by (intro that [of "put32 0xb00 (e820_top es) m'" d']) (simp_all add: detect_memory_def Let_def)
qed

lemma detect_memory_fails:
  assumes "int15 B (e820_regs r) m d = (True, r1, m1, d1)"
  shows "detect_memory B irq r m d = bindE (try_e801 B irq r1 m1 d1) (\<lambda>(edx, m, d). Inr (put32 0xb00 edx m, d))"
proof -
  let ?r = "r\<lparr>r_ebx := 0, r_edx := 0x534d4150, r_edi := set_lo16 (r_edi r) 0xb0a, r_esi := 0\<rparr>"
  have "e820_mem_get_loop B ?r m d = Some (True, r1, m1, d1)" by (subst e820_mem_get_loop.simps) (simp add: assms)
  then show ?thesis by (simp add: detect_memory_def Let_def)
qed

lemma mul16_parts:
  fixes r w
  defines "p \<equiv> ucast (ucast (r_eax r) :: u16) * ucast w :: u32"
  shows "drop_bit 16 (r_edx (mul16 w r)) = drop_bit 16 (r_edx r)" "r_eax (mul16 w r) AND 0xffff = p AND 0xffff"
    "r_eax r AND 0xffff0000 = 0 \<Longrightarrow> push_bit 16 (r_edx (mul16 w r)) OR r_eax (mul16 w r) = p"
proof -
  show "drop_bit 16 (r_edx (mul16 w r)) = drop_bit 16 (r_edx r)" by (simp add: mul16_def Let_def)
  have "(ucast (ucast p :: u16) :: u32) = p AND mask 16" by (rule bit_word_eqI) (auto simp: bit_simps)
  then show "r_eax (mul16 w r) AND 0xffff = p AND 0xffff" by (simp add: mul16_def Let_def p_def mask_eq_exp_minus_1)
  show "push_bit 16 (r_edx (mul16 w r)) OR r_eax (mul16 w r) = p" if "r_eax r AND 0xffff0000 = 0"
  proof -
    have "set_lo16 (r_eax r) v = ucast v" for v using that by (simp add: set_lo16_def)
    then show ?thesis using word32_of_halves [of p] by (simp add: mul16_def Let_def word32_def p_def or.commute)
  qed
qed

lemma mul16_ebx [simp]: "r_ebx (mul16 w r) = r_ebx r"
  by (simp add: mul16_def Let_def)

lemma sint_nat: "unat x < 2 ^ 31 \<Longrightarrow> sint x = int (unat x)" for x :: u32
proof -
  assume "unat x < 2 ^ 31"
  then have "int (unat x) < int (2 ^ 31)" by (simp only: of_nat_less_iff)
  then have "uint x < 2 ^ 31" by simp
  then have "sint x = uint x" by (simp add: sint_uint signed_take_bit_int_eq_self nonneg_ge_neg_numeral)
  then show ?thesis by (simp only: uint_nat)
qed

lemma sle_nat: "unat x < 2 ^ 31 \<Longrightarrow> unat y < 2 ^ 31 \<Longrightarrow> x \<le>s y \<longleftrightarrow> unat x \<le> unat y" for x y :: u32
  by (simp only: word_sle_eq sint_nat of_nat_le_iff)

lemma e820_max_nat:
  "unat hi < 2 ^ 31 \<Longrightarrow> unat (fst e) + unat (snd e) < 2 ^ 31 \<Longrightarrow> unat (e820_max e hi) = max (unat (fst e) + unat (snd e)) (unat hi)"
  by (simp add: e820_max_def sle_nat unat_word_ariths max_def)

lemma fold_e820_max:
  "unat hi < 2 ^ 31 \<Longrightarrow> \<forall>e \<in> set es. unat (fst e) + unat (snd e) < 2 ^ 31 \<Longrightarrow>
   unat (fold e820_max es hi) = Max (insert (unat hi) ((\<lambda>e. unat (fst e) + unat (snd e)) ` set es))"
proof (induction es arbitrary: hi)
  case (Cons e es)
  let ?t = "\<lambda>e. unat (fst e) + unat (snd e)"
  have "unat (fold e820_max es (e820_max e hi)) = Max (insert (unat (e820_max e hi)) (?t ` set es))"
    using Cons.prems by (intro Cons.IH) (simp_all add: e820_max_nat)
  also have "insert (unat (e820_max e hi)) (?t ` set es) = insert (max (?t e) (unat hi)) (?t ` set es)"
    using Cons.prems by (simp add: e820_max_nat)
  also have "Max \<dots> = Max (insert (unat hi) (?t ` set (e # es)))"
    by (cases "es = []") (simp_all add: max.left_commute max.commute)
  finally show ?case by simp
qed simp

lemma ucast_ucast_and: "(ucast (ucast x :: u16) :: u32) = x AND 0xffff" for x :: u32
proof -
  have "(ucast (ucast x :: u16) :: u32) = x AND mask 16" by (rule bit_word_eqI) (auto simp: bit_simps)
  then show ?thesis by (simp add: mask_eq_exp_minus_1)
qed

text \<open>The registers at the calls of the other two functions.\<close>

abbreviation (input) e801_regs :: "regs16 \<Rightarrow> regs16" where
  "e801_regs r \<equiv> r\<lparr>r_eax := set_lo16 (r_eax r) 0xe801\<rparr>"

abbreviation (input) x88_regs :: "regs16 \<Rightarrow> regs16" where
  "x88_regs r \<equiv> r\<lparr>r_eax := (r_eax r AND 0xffff00ff) OR 0x8800\<rparr>"

lemma try_e801_size:
  assumes "int15 B (e801_regs r1) m1 d1 = (False, r2, m2, d2)"
  shows "try_e801 B irq r1 m1 d1 =
    Inr ((drop_bit 16 (r_edx r2) OR ((0x400 * (r_eax r2 AND 0xffff)) AND 0xffff)) + 0x100000 + 0x10000 * (r_ebx r2 AND 0xffff), m2, d2)"
  using assms mul16_parts(1,2) [where w = "0x400" and r = r2] by (simp add: try_e801_def Let_def ucast_ucast_and mult.commute)

lemma try88_size:
  assumes "int15 B (x88_regs r2) m2 d2 = (cf, r3, m3, d3)"
  shows "try88 B irq r2 m2 d2 = hlt irq (if cf then r_edx r3 else 0x400 * (r_eax r3 AND 0xffff) + 0x100000, m3, d3)"
proof -
  have "(r_eax r3 AND 0xffff) AND 0xffff0000 = r_eax r3 AND (0xffff AND 0xffff0000)" by (rule and.assoc)
  then have "push_bit 16 (r_edx (mul16 0x400 (r3\<lparr>r_eax := r_eax r3 AND 0xffff\<rparr>))) OR r_eax (mul16 0x400 (r3\<lparr>r_eax := r_eax r3 AND 0xffff\<rparr>)) =
      ucast (ucast (r_eax r3 AND 0xffff) :: u16) * 0x400"
    using mul16_parts(3) [of "r3\<lparr>r_eax := r_eax r3 AND 0xffff\<rparr>" "0x400"] by simp
  also have "ucast (ucast (r_eax r3 AND 0xffff) :: u16) = r_eax r3 AND 0xffff" by (simp only: ucast_ucast_and and.assoc) simp
  finally show ?thesis using assms by (simp add: try88_def Let_def mult.commute)
qed

section \<open>The whole way\<close>




section \<open>A disk that makes the loader wait\<close>








section \<open>Properties\<close>

text \<open>C12. \<open>detect_memory\<close> of the loader leaves the size of the memory at 0xb00.  From the map of the BIOS it is the end of
  the highest range, but without the last range of the map, and with ends from 2 GB on taken as negative: it is the
  maximum of the ends, without the last, when all these are below 2 GB.  When the map is not available, function 0xe801
  counts the memory below 16 MB only modulo 64 KB and adds the left-over high half of \<open>edx\<close>.  When that fails too,
  function 0x88 counts right, but the processor stops at \<open>hlt\<close> until an interrupt comes; after an interrupt the code
  takes whatever is in \<open>edx\<close> when this function has failed as well.\<close>

theorem loader_detects_memory:
  "(e820_map B 0 es \<longrightarrow> (\<exists>m' d'. detect_memory B irq r m d = Inr (m', d') \<and> get32 m' 0xb00 = e820_top es \<and>
     ((\<forall>e \<in> set (butlast es). unat (fst e) + unat (snd e) < 2 ^ 31) \<longrightarrow>
        unat (get32 m' 0xb00) = Max (insert 0 ((\<lambda>e. unat (fst e) + unat (snd e)) ` set (butlast es)))))) \<and>
   (int15 B (e820_regs r) m d = (True, r1, m1, d1) \<and> int15 B (e801_regs r1) m1 d1 = (False, r2, m2, d2) \<longrightarrow>
      (\<exists>m'. detect_memory B irq r m d = Inr (m', d2) \<and> get32 m' 0xb00 =
         (drop_bit 16 (r_edx r2) OR ((0x400 * (r_eax r2 AND 0xffff)) AND 0xffff)) + 0x100000 + 0x10000 * (r_ebx r2 AND 0xffff))) \<and>
   (int15 B (e820_regs r) m d = (True, r1, m1, d1) \<and> int15 B (e801_regs r1) m1 d1 = (True, r2, m2, d2) \<and>
    int15 B (x88_regs r2) m2 d2 = (cf, r3, m3, d3) \<longrightarrow>
      (if irq then \<exists>m'. detect_memory B irq r m d = Inr (m', d3) \<and>
         get32 m' 0xb00 = (if cf then r_edx r3 else 0x400 * (r_eax r3 AND 0xffff) + 0x100000)
       else detect_memory B irq r m d = Inl Diverge))"
proof (intro conjI impI)
  assume "e820_map B 0 es"
  then obtain m' d' where "detect_memory B irq r m d = Inr (m', d')" "get32 m' 0xb00 = e820_top es" by (rule detect_memory_e820)
  then show "\<exists>m' d'. detect_memory B irq r m d = Inr (m', d') \<and> get32 m' 0xb00 = e820_top es \<and>
     ((\<forall>e \<in> set (butlast es). unat (fst e) + unat (snd e) < 2 ^ 31) \<longrightarrow>
        unat (get32 m' 0xb00) = Max (insert 0 ((\<lambda>e. unat (fst e) + unat (snd e)) ` set (butlast es))))"
    using fold_e820_max [of 0 "butlast es"] by (simp add: e820_top_def)
next
  assume "int15 B (e820_regs r) m d = (True, r1, m1, d1) \<and> int15 B (e801_regs r1) m1 d1 = (False, r2, m2, d2)"
  then show "\<exists>m'. detect_memory B irq r m d = Inr (m', d2) \<and> get32 m' 0xb00 =
      (drop_bit 16 (r_edx r2) OR ((0x400 * (r_eax r2 AND 0xffff)) AND 0xffff)) + 0x100000 + 0x10000 * (r_ebx r2 AND 0xffff)"
    using detect_memory_fails [of B r m d r1 m1 d1 irq] try_e801_size [of B r1 m1 d1 r2 m2 d2 irq] by simp
next
  assume a: "int15 B (e820_regs r) m d = (True, r1, m1, d1) \<and> int15 B (e801_regs r1) m1 d1 = (True, r2, m2, d2) \<and>
    int15 B (x88_regs r2) m2 d2 = (cf, r3, m3, d3)"
  then have "try_e801 B irq r1 m1 d1 = hlt irq (if cf then r_edx r3 else 0x400 * (r_eax r3 AND 0xffff) + 0x100000, m3, d3)"
    using try88_size [of B r2 m2 d2 cf r3 m3 d3 irq] by (simp add: try_e801_def)
  then show "if irq then \<exists>m'. detect_memory B irq r m d = Inr (m', d3) \<and>
         get32 m' 0xb00 = (if cf then r_edx r3 else 0x400 * (r_eax r3 AND 0xffff) + 0x100000)
       else detect_memory B irq r m d = Inl Diverge"
    using detect_memory_fails [of B r m d r1 m1 d1 irq] a by (cases irq; cases cf) (simp_all add: hlt_def)
qed



definition plain_bios :: "(u32 \<Rightarrow> u32 \<times> u32 \<times> u32) \<Rightarrow> 'd bios" where
  "plain_bios ranges = \<lparr>int15 = (\<lambda>r m d. case ranges (r_ebx r) of (c, b, l) \<Rightarrow>
     (False, r\<lparr>r_eax := 0x534d4150, r_ebx := c\<rparr>, put32 BaseAddrLow b (put32 LengthLow l m), d))\<rparr>"

definition pc_ranges :: "u32 \<Rightarrow> u32 \<times> u32 \<times> u32" where
  "pc_ranges c = (if c = 0 then (1, 0, 0x9fc00) else if c = 1 then (2, 0x100000, 0x1f00000) else (0, 0xfffc0000, 0x40000))"






lemma plain_bios_call: "ranges c = (c', b, l) \<Longrightarrow> e820_call (plain_bios ranges) c c' (b, l)"
proof -
  have "get32 (put32 0xb0a b m) 0xb12 = get32 m 0xb12" for m b by (simp add: get32_def get16_def put32_other)
  moreover have "put32 0xb0a b (put32 0xb12 l m) x = m x" if "\<not> (0xb0a \<le> unat x \<and> unat x < 0xb1e)" for x m b l
    using that by (subst put32_other; auto)+
  ultimately show "ranges c = (c', b, l) \<Longrightarrow> ?thesis" unfolding e820_call_def plain_bios_def by simp
qed

lemma pc_map: "e820_map (plain_bios pc_ranges) 0 [(0, 0x9fc00), (0x100000, 0x1f00000), (0xfffc0000, 0x40000)]"
proof -
  have "e820_call (plain_bios pc_ranges) 1 2 (0x100000, 0x1f00000)" "e820_call (plain_bios pc_ranges) 2 0 (0xfffc0000, 0x40000)"
    by (rule plain_bios_call; simp add: pc_ranges_def)+
  then have "e820_map (plain_bios pc_ranges) 1 [(0x100000, 0x1f00000), (0xfffc0000, 0x40000)]" by (auto intro!: exI [of _ 2])
  moreover have "e820_call (plain_bios pc_ranges) 0 1 (0, 0x9fc00)" by (rule plain_bios_call) (simp add: pc_ranges_def)
  ultimately show ?thesis unfolding e820_map.simps(3) [of _ 0] by (intro exI [of _ 1]) simp
qed

text \<open>BIOS services without a memory map: the functions 0xe801 and 0x88 (31 MB above the first megabyte), or none.\<close>

definition old_bios :: "bool \<Rightarrow> 'd bios" where
  "old_bios e801 = \<lparr>int15 = (\<lambda>r m d.
     if e801 \<and> ucast (r_eax r) = (0xe801 :: u16) then (False, r\<lparr>r_eax := 0x3c00, r_ebx := 0x100, r_edx := 0x100\<rparr>, m, d)
     else if drop_bit 8 (ucast (r_eax r)) = (0x88 :: u16) then (False, r\<lparr>r_eax := 0x7c00\<rparr>, m, d)
     else (True, r, m, d))\<rparr>"

abbreviation (input) zero_regs :: regs16 where
  "zero_regs \<equiv> \<lparr>r_eax = 0, r_ebx = 0, r_ecx = 0, r_edx = 0, r_esi = 0, r_edi = 0\<rparr>"

theorem loader_detects_memory_witness:
  "(\<exists>m' d'. detect_memory (plain_bios pc_ranges) False zero_regs (\<lambda>_. 0) () = Inr (m', d') \<and> unat (get32 m' 0xb00) = 32 * 2 ^ 20) \<and>
   (\<exists>m' d'. detect_memory (old_bios True) False zero_regs (\<lambda>_. 0) () = Inr (m', d') \<and> get32 m' 0xb00 = 17 * 2 ^ 20) \<and>
   (\<exists>m' d'. detect_memory (old_bios False) True zero_regs (\<lambda>_. 0) () = Inr (m', d') \<and> get32 m' 0xb00 = 32 * 2 ^ 20)"
proof (intro conjI)
  show "\<exists>m' d'. detect_memory (plain_bios pc_ranges) False zero_regs (\<lambda>_. 0) () = Inr (m', d') \<and> unat (get32 m' 0xb00) = 32 * 2 ^ 20"
    using loader_detects_memory [THEN conjunct1, rule_format, OF pc_map, of False zero_regs "\<lambda>_. 0" "()"] by auto
  show "\<exists>m' d'. detect_memory (old_bios True) False zero_regs (\<lambda>_. 0) () = Inr (m', d') \<and> get32 m' 0xb00 = 17 * 2 ^ 20"
    using loader_detects_memory [THEN conjunct2, THEN conjunct1, rule_format, of "old_bios True" zero_regs "\<lambda>_. 0" "()"]
    by (fastforce simp: old_bios_def set_lo16_def)
  show "\<exists>m' d'. detect_memory (old_bios False) True zero_regs (\<lambda>_. 0) () = Inr (m', d') \<and> get32 m' 0xb00 = 32 * 2 ^ 20"
    using loader_detects_memory [THEN conjunct2, THEN conjunct2, rule_format, of "old_bios False" zero_regs "\<lambda>_. 0" "()" _ _ _ _ _ _ _ _ _ _ True]
    by (fastforce simp: old_bios_def set_lo16_def)
qed




end
